theory Spec2Isabelle
  imports Main
begin

section \<open>The rerex regular-expression engine\<close>

text \<open>
  A shallow embedding of \<^verbatim>\<open>rerex.c\<close>: the state arena, the Thompson construction
  operators, the recursive-descent parser that builds the automaton while it reads the
  pattern, and the matcher that simulates it.

  Conventions of the embedding.
  \<^item> A C string is a \<open>string\<close>; the terminating NUL is the end of the list, and a read
    at or past the end yields \<open>CHR 0x00\<close>.
  \<^item> \<open>char\<close> is taken signed, as on x86 (\<open>codepoint\<close> is the promotion to \<open>int\<close>).
    Every comparison of the program is against a bound between 0x1F and 0x7F or against
    the two state tags, so an unsigned \<open>char\<close> gives the same results.
  \<^item> \<open>size_t\<close> is \<open>nat\<close>; the arena is a list and a state index is a position in it.
  \<^item> \<open>realloc\<close>, \<open>malloc\<close> and \<open>calloc\<close> are taken to succeed.
  \<^item> The recursion of the parser and of \<open>enter_state\<close> is bounded by a fuel argument;
    running out of fuel is the separate result \<open>OutOfFuel\<close>, and the entry points
    \<open>rerex_compile\<close> and \<open>rerex_match\<close> are proved never to return it.
\<close>

subsection \<open>Status codes\<close>

datatype RerexStatus =
    REREX_SUCCESS
  | REREX_EXPECTED_CHAR
  | REREX_EXPECTED_ELEMENT
  | REREX_EXPECTED_RBRACKET
  | REREX_EXPECTED_RPAREN
  | REREX_EXPECTED_SPECIAL
  | REREX_UNEXPECTED_SPECIAL
  | REREX_UNEXPECTED_END
  | REREX_UNORDERED_RANGE
  | REREX_NO_MEMORY

text \<open>
  The value of each enumerator of \<^verbatim>\<open>RerexStatus\<close>: its position in the enumeration of the
  public header, counted from 0. \<open>REREX_NO_MEMORY\<close> is the tenth and last enumerator.
\<close>

fun status_value :: "RerexStatus \<Rightarrow> int" where
  "status_value REREX_SUCCESS = 0"
| "status_value REREX_EXPECTED_CHAR = 1"
| "status_value REREX_EXPECTED_ELEMENT = 2"
| "status_value REREX_EXPECTED_RBRACKET = 3"
| "status_value REREX_EXPECTED_RPAREN = 4"
| "status_value REREX_EXPECTED_SPECIAL = 5"
| "status_value REREX_UNEXPECTED_SPECIAL = 6"
| "status_value REREX_UNEXPECTED_END = 7"
| "status_value REREX_UNORDERED_RANGE = 8"
| "status_value REREX_NO_MEMORY = 9"

definition status_strings :: "string list" where
  "status_strings =
    [''Success'',
     ''Expected a regular character'',
     ''Expected a character in a set'',
     ''Expected '' @ [CHR 0x27] @ '']'' @ [CHR 0x27],
     ''Expected '' @ [CHR 0x27] @ '')'' @ [CHR 0x27],
     ''Expected a special character (one of '' @ [CHR 0x22] @ ''()*+-?[]^|'' @ [CHR 0x22] @ '')'',
     ''Unexpected special character'',
     ''Unexpected end of input'',
     ''Range is out of order'',
     ''Failed to allocate memory'']"

text \<open>
  \<open>rerex_strerror\<close> receives the raw value of the enumeration (a 32-bit \<open>int\<close>), which a
  caller may have set to anything; the cast to \<open>unsigned\<close> is taken modulo \<open>2 ^ 32\<close>.
\<close>

definition rerex_strerror :: "int \<Rightarrow> string" where
  "rerex_strerror status =
     (if status mod 2 ^ 32 \<le> status_value REREX_NO_MEMORY mod 2 ^ 32
      then status_strings ! nat status
      else ''Unknown error'')"

subsection \<open>States and the state array\<close>

type_synonym StateIndex = nat
type_synonym Codepoint = int

definition codepoint :: "char \<Rightarrow> Codepoint" where
  "codepoint c = (if (of_char c :: int) < 128 then of_char c else of_char c - 256)"

definition cmin :: char where "cmin = CHR 0x20"
definition cmax :: char where "cmax = CHR 0x7E"

definition REREX_MATCH :: Codepoint where "REREX_MATCH = 0xE000"
definition REREX_SPLIT :: Codepoint where "REREX_SPLIT = 0xE001"

record State =
  next1 :: StateIndex
  next2 :: StateIndex
  min_label :: Codepoint
  max_label :: Codepoint

definition NO_STATE :: StateIndex where "NO_STATE = 0"

definition match_state :: State where
  "match_state =
     \<lparr>next1 = NO_STATE, next2 = NO_STATE, min_label = REREX_MATCH, max_label = 0\<rparr>"

definition split_state :: "StateIndex \<Rightarrow> StateIndex \<Rightarrow> State" where
  "split_state n1 n2 = \<lparr>next1 = n1, next2 = n2, min_label = REREX_SPLIT, max_label = 0\<rparr>"

definition range_state :: "char \<Rightarrow> char \<Rightarrow> StateIndex \<Rightarrow> State" where
  "range_state mn mx nxt =
     \<lparr>next1 = nxt, next2 = NO_STATE, min_label = codepoint mn, max_label = codepoint mx\<rparr>"

type_synonym StateArray = "State list"

definition add_state :: "StateArray \<Rightarrow> State \<Rightarrow> StateIndex \<times> StateArray" where
  "add_state array state = (length array, array @ [state])"

subsection \<open>Automata fragments and their operators\<close>

record Automata =
  nfa_start :: StateIndex
  nfa_end :: StateIndex

definition make_automata :: "StateIndex \<Rightarrow> StateIndex \<Rightarrow> Automata" where
  "make_automata s e = \<lparr>nfa_start = s, nfa_end = e\<rparr>"

definition is_trivial :: "StateArray \<Rightarrow> Automata \<Rightarrow> bool" where
  "is_trivial states nfa \<longleftrightarrow>
     min_label (states ! nfa_start nfa) < REREX_MATCH \<and>
     next1 (states ! nfa_start nfa) = nfa_end nfa"

definition star :: "StateArray \<Rightarrow> Automata \<Rightarrow> Automata \<times> StateArray" where
  "star states nfa =
     (let (e, s1) = add_state states match_state;
          (s, s2) = add_state s1 (split_state (nfa_start nfa) e);
          s3 = s2[nfa_end nfa := split_state (nfa_start nfa) e]
      in (make_automata s e, s3))"

definition question :: "StateArray \<Rightarrow> Automata \<Rightarrow> Automata \<times> StateArray" where
  "question states nfa =
     (let (s, s1) = add_state states (split_state (nfa_start nfa) (nfa_end nfa))
      in (make_automata s (nfa_end nfa), s1))"

definition plus_nfa :: "StateArray \<Rightarrow> Automata \<Rightarrow> Automata \<times> StateArray" where
  "plus_nfa states nfa =
     (let (e, s1) = add_state states match_state;
          s2 = s1[nfa_end nfa := split_state (nfa_start nfa) e]
      in (make_automata (nfa_start nfa) e, s2))"

definition concatenate :: "StateArray \<Rightarrow> Automata \<Rightarrow> Automata \<Rightarrow> Automata \<times> StateArray" where
  "concatenate states a b =
     (let s1 = (if is_trivial states a
                then states[nfa_start a := (states ! nfa_start a)\<lparr>next1 := nfa_start b\<rparr>]
                else states[nfa_end a := split_state (nfa_start b) NO_STATE])
      in (make_automata (nfa_start a) (nfa_end b), s1))"

definition alternate :: "StateArray \<Rightarrow> Automata \<Rightarrow> Automata \<Rightarrow> Automata \<times> StateArray" where
  "alternate states a b =
     (let (split, s1) = add_state states (split_state (nfa_start a) (nfa_start b))
      in if is_trivial s1 a then
           (make_automata split (nfa_end b),
            s1[nfa_start a := (s1 ! nfa_start a)\<lparr>next1 := nfa_end b\<rparr>])
         else if is_trivial s1 b then
           (make_automata split (nfa_end a),
            s1[nfa_start b := (s1 ! nfa_start b)\<lparr>next1 := nfa_end a\<rparr>])
         else
           (let (e, s2) = add_state s1 match_state;
                s3 = s2[nfa_end a := split_state e NO_STATE];
                s4 = s3[nfa_end b := split_state e NO_STATE]
            in (make_automata split e, s4)))"

subsection \<open>Parser input\<close>

record Input =
  str :: string
  offset :: nat

definition peek :: "Input \<Rightarrow> char" where
  "peek input = (if offset input < length (str input) then str input ! offset input else CHR 0x00)"

definition peekahead :: "Input \<Rightarrow> char" where
  "peekahead input =
     (if offset input + 1 < length (str input) then str input ! (offset input + 1) else CHR 0x00)"

definition eat :: "Input \<Rightarrow> char \<times> Input" where
  "eat input = (peek input, input\<lparr>offset := offset input + 1\<rparr>)"

subsection \<open>The parser\<close>

text \<open>
  A reader returns \<open>Ok\<close> with its outputs and the advanced input, or \<open>Error\<close> with the
  status and the cursor offset at the moment of the return (all that \<open>rerex_compile\<close>
  reports of a failed parse), or \<open>OutOfFuel\<close>.
\<close>

datatype 'a result = Ok 'a | Error RerexStatus nat | OutOfFuel

definition is_special :: "char \<Rightarrow> bool" where
  "is_special c \<longleftrightarrow>
     c = CHR ''('' \<or> c = CHR '')'' \<or> c = CHR ''*'' \<or> c = CHR ''+'' \<or> c = CHR ''.'' \<or>
     c = CHR ''?'' \<or> c = CHR ''['' \<or> c = CHR '']'' \<or> c = CHR ''^'' \<or> c = CHR ''{'' \<or>
     c = CHR ''|'' \<or> c = CHR ''}''"

definition read_dot :: "Input \<Rightarrow> StateArray \<Rightarrow> (Automata \<times> Input \<times> StateArray) result" where
  "read_dot input states =
     (let input1 = snd (eat input);
          (e, s1) = add_state states match_state;
          (s, s2) = add_state s1 (range_state cmin cmax e)
      in Ok (make_automata s e, input1, s2))"

definition read_escape :: "Input \<Rightarrow> (char \<times> Input) result" where
  "read_escape input =
     (let input1 = snd (eat input);
          c = peek input1
      in if is_special c \<or> c = CHR ''-'' then Ok (eat input1)
         else Error REREX_EXPECTED_SPECIAL (offset input1))"

definition read_char :: "Input \<Rightarrow> (char \<times> Input) result" where
  "read_char input =
     (let c = peek input
      in if c = CHR 0x00 then Error REREX_UNEXPECTED_END (offset input)
         else if c = CHR 0x5C then read_escape input
         else if is_special c then Error REREX_UNEXPECTED_SPECIAL (offset input)
         else if codepoint cmin \<le> codepoint c \<and> codepoint c \<le> codepoint cmax then Ok (eat input)
         else Error REREX_EXPECTED_CHAR (offset input))"

definition read_element :: "Input \<Rightarrow> (char \<times> Input) result" where
  "read_element input =
     (let c = peek input
      in if c = CHR 0x00 then Error REREX_UNEXPECTED_END (offset input)
         else if c = CHR '']'' then Error REREX_UNEXPECTED_SPECIAL (offset input)
         else if c = CHR 0x5C then
           (let input1 = snd (eat input)
            in if peek input1 \<noteq> CHR '']'' then Error REREX_EXPECTED_RBRACKET (offset input1)
               else Ok (eat input1))
         else if codepoint cmin \<le> codepoint c \<and> codepoint c \<le> codepoint cmax then Ok (eat input)
         else Error REREX_EXPECTED_ELEMENT (offset input))"

definition read_range ::
  "Input \<Rightarrow> StateArray \<Rightarrow> bool \<Rightarrow> (Automata \<times> Input \<times> StateArray) result" where
  "read_range input states negated =
     (case read_element input of
        OutOfFuel \<Rightarrow> OutOfFuel
      | Error st off \<Rightarrow> Error st off
      | Ok (mn, input1) \<Rightarrow>
         (case (if peek input1 = CHR ''-'' \<and> peekahead input1 \<noteq> CHR '']''
                then read_element (snd (eat input1))
                else Ok (mn, input1)) of
            OutOfFuel \<Rightarrow> OutOfFuel
          | Error st off \<Rightarrow> Error st off
          | Ok (mx, input2) \<Rightarrow>
             if codepoint mx < codepoint mn then Error REREX_UNORDERED_RANGE (offset input2)
             else
               (let (e, s1) = add_state states match_state
                in if negated then
                     (let emin = char_of (codepoint mn - 1);
                          emax = char_of (codepoint mx + 1);
                          (low, s2) = add_state s1 (range_state cmin emin e);
                          (high, s3) = add_state s2 (range_state emax cmax e);
                          (fork, s4) = add_state s3 (split_state low high)
                      in Ok (make_automata fork e, input2, s4))
                   else
                     (let (s, s2) = add_state s1 (range_state mn mx e)
                      in Ok (make_automata s e, input2, s2)))))"

text \<open>The \<^verbatim>\<open>while\<close> loop of \<open>read_set\<close>, one unit of fuel per iteration.\<close>

fun read_set_loop ::
  "nat \<Rightarrow> Input \<Rightarrow> StateArray \<Rightarrow> bool \<Rightarrow> Automata \<Rightarrow> (Automata \<times> Input \<times> StateArray) result"
where
  "read_set_loop 0 input states negated nfa = OutOfFuel"
| "read_set_loop (Suc fuel) input states negated nfa =
     (if peek input \<noteq> CHR '']'' then
        (case read_range input states negated of
           OutOfFuel \<Rightarrow> OutOfFuel
         | Error st off \<Rightarrow> Error st off
         | Ok (range_nfa, input1, s1) \<Rightarrow>
            (let (nfa1, s2) = alternate s1 nfa range_nfa
             in read_set_loop fuel input1 s2 negated nfa1))
      else Ok (nfa, input, states))"

definition read_set ::
  "nat \<Rightarrow> Input \<Rightarrow> StateArray \<Rightarrow> (Automata \<times> Input \<times> StateArray) result" where
  "read_set fuel input states =
     (let negated = (peek input = CHR ''^'');
          input1 = (if negated then snd (eat input) else input)
      in case read_range input1 states negated of
           OutOfFuel \<Rightarrow> OutOfFuel
         | Error st off \<Rightarrow> Error st off
         | Ok (nfa, input2, s1) \<Rightarrow> read_set_loop fuel input2 s1 negated nfa)"

fun read_atom :: "nat \<Rightarrow> Input \<Rightarrow> StateArray \<Rightarrow> (Automata \<times> Input \<times> StateArray) result"
and read_factor :: "nat \<Rightarrow> Input \<Rightarrow> StateArray \<Rightarrow> (Automata \<times> Input \<times> StateArray) result"
and read_term :: "nat \<Rightarrow> Input \<Rightarrow> StateArray \<Rightarrow> (Automata \<times> Input \<times> StateArray) result"
and read_expr :: "nat \<Rightarrow> Input \<Rightarrow> StateArray \<Rightarrow> (Automata \<times> Input \<times> StateArray) result"
where
  "read_atom 0 input states = OutOfFuel"
| "read_atom (Suc fuel) input states =
     (let c = peek input
      in if c = CHR ''('' then
           (case read_expr fuel (snd (eat input)) states of
              OutOfFuel \<Rightarrow> OutOfFuel
            | Error st off \<Rightarrow> Error st off
            | Ok (out, input1, s1) \<Rightarrow>
               if peek input1 \<noteq> CHR '')'' then Error REREX_EXPECTED_RPAREN (offset input1)
               else Ok (out, snd (eat input1), s1))
         else if c = CHR ''.'' then read_dot input states
         else if c = CHR ''['' then
           (case read_set fuel (snd (eat input)) states of
              OutOfFuel \<Rightarrow> OutOfFuel
            | Error st off \<Rightarrow> Error st off
            | Ok (out, input1, s1) \<Rightarrow> Ok (out, snd (eat input1), s1))
         else
           (case read_char input of
              OutOfFuel \<Rightarrow> OutOfFuel
            | Error st off \<Rightarrow> Error st off
            | Ok (c1, input1) \<Rightarrow>
               (let (e, s1) = add_state states match_state;
                    (s, s2) = add_state s1 (range_state c1 c1 e)
                in Ok (make_automata s e, input1, s2))))"
| "read_factor 0 input states = OutOfFuel"
| "read_factor (Suc fuel) input states =
     (case read_atom fuel input states of
        OutOfFuel \<Rightarrow> OutOfFuel
      | Error st off \<Rightarrow> Error st off
      | Ok (atom_nfa, input1, s1) \<Rightarrow>
         (let c = peek input1
          in if c = CHR ''*'' then
               (let (out, s2) = star s1 atom_nfa in Ok (out, snd (eat input1), s2))
             else if c = CHR ''+'' then
               (let (out, s2) = plus_nfa s1 atom_nfa in Ok (out, snd (eat input1), s2))
             else if c = CHR ''?'' then
               (let (out, s2) = question s1 atom_nfa in Ok (out, snd (eat input1), s2))
             else Ok (atom_nfa, input1, s1)))"
| "read_term 0 input states = OutOfFuel"
| "read_term (Suc fuel) input states =
     (case read_factor fuel input states of
        OutOfFuel \<Rightarrow> OutOfFuel
      | Error st off \<Rightarrow> Error st off
      | Ok (factor_nfa, input1, s1) \<Rightarrow>
         (let c = peek input1
          in if c = CHR 0x00 \<or> c = CHR '')'' \<or> c = CHR ''|'' then Ok (factor_nfa, input1, s1)
             else
               (case read_term fuel input1 s1 of
                  OutOfFuel \<Rightarrow> OutOfFuel
                | Error st off \<Rightarrow> Error st off
                | Ok (term_nfa, input2, s2) \<Rightarrow>
                   (let (out, s3) = concatenate s2 factor_nfa term_nfa
                    in Ok (out, input2, s3)))))"
| "read_expr 0 input states = OutOfFuel"
| "read_expr (Suc fuel) input states =
     (case read_term fuel input states of
        OutOfFuel \<Rightarrow> OutOfFuel
      | Error st off \<Rightarrow> Error st off
      | Ok (term_nfa, input1, s1) \<Rightarrow>
         if peek input1 = CHR ''|'' then
           (case read_expr fuel (snd (eat input1)) s1 of
              OutOfFuel \<Rightarrow> OutOfFuel
            | Error st off \<Rightarrow> Error st off
            | Ok (expr_nfa, input2, s2) \<Rightarrow>
               (let (out, s3) = alternate s2 term_nfa expr_nfa
                in Ok (out, input2, s3)))
         else Ok (term_nfa, input1, s1))"

subsection \<open>Patterns\<close>

record RerexPattern =
  states :: StateArray
  start :: StateIndex

text \<open>
  \<open>rerex_compile\<close> returns the status, the end offset and, on success, the pattern. The
  depth of the parser's recursion is at most four calls for each byte of the pattern.
\<close>

definition compile_fuel :: "string \<Rightarrow> nat" where
  "compile_fuel pattern = 4 * length pattern + 4"

definition rerex_compile :: "string \<Rightarrow> (nat \<times> RerexPattern) result" where
  "rerex_compile pattern =
     (let input = \<lparr>str = pattern, offset = 0\<rparr>;
          (null, s0) = add_state [] (split_state NO_STATE NO_STATE)
      in case read_expr (compile_fuel pattern) input s0 of
           OutOfFuel \<Rightarrow> OutOfFuel
         | Error st off \<Rightarrow> Error st off
         | Ok (nfa, input1, s1) \<Rightarrow> Ok (offset input1, \<lparr>states = s1, start = nfa_start nfa\<rparr>))"

subsection \<open>The matcher\<close>

record IndexList =
  indices :: "StateIndex list"
  n_indices :: nat

record RerexMatcher =
  regexp :: RerexPattern
  active0 :: IndexList
  active1 :: IndexList
  last_active :: "nat list"

text \<open>
  \<open>active\<close> is an array of two lists indexed by the phase; \<open>get_active\<close> and
  \<open>set_active\<close> read and write \<^verbatim>\<open>matcher->active[phase]\<close>.
\<close>

definition get_active :: "RerexMatcher \<Rightarrow> bool \<Rightarrow> IndexList" where
  "get_active m phase = (if phase then active1 m else active0 m)"

definition set_active :: "RerexMatcher \<Rightarrow> bool \<Rightarrow> IndexList \<Rightarrow> RerexMatcher" where
  "set_active m phase l = (if phase then m\<lparr>active1 := l\<rparr> else m\<lparr>active0 := l\<rparr>)"

definition SIZE_MAX :: nat where "SIZE_MAX = 2 ^ 64 - 1"

definition rerex_new_matcher :: "RerexPattern \<Rightarrow> RerexMatcher" where
  "rerex_new_matcher re =
     (let n_states = length (states re)
      in \<lparr>regexp = re,
          active0 = \<lparr>indices = replicate n_states 0, n_indices = 0\<rparr>,
          active1 = \<lparr>indices = replicate n_states 0, n_indices = 0\<rparr>,
          last_active = replicate n_states 0\<rparr>)"

text \<open>
  The matcher reads and writes arrays by index. An access outside the array is
  \<open>OutOfBounds\<close>, and \<open>Exhausted\<close> is running out of fuel; \<open>Done\<close> is a normal return.
\<close>

datatype 'a exec = Done 'a | OutOfBounds | Exhausted

fun enter_state :: "nat \<Rightarrow> RerexMatcher \<Rightarrow> nat \<Rightarrow> bool \<Rightarrow> StateIndex \<Rightarrow> RerexMatcher exec" where
  "enter_state 0 m step list s = Exhausted"
| "enter_state (Suc fuel) m step list s =
     (if s \<noteq> 0 then
        if \<not> s < length (last_active m) then OutOfBounds
        else if last_active m ! s \<noteq> step then
          (let m1 = m\<lparr>last_active := (last_active m)[s := step]\<rparr>
           in if \<not> s < length (states (regexp m1)) then OutOfBounds
              else
                (let state = states (regexp m1) ! s
                 in if min_label state = REREX_SPLIT then
                      (case enter_state fuel m1 step list (next1 state) of
                         Done m2 \<Rightarrow> enter_state fuel m2 step list (next2 state)
                       | OutOfBounds \<Rightarrow> OutOfBounds
                       | Exhausted \<Rightarrow> Exhausted)
                    else
                      (let l = get_active m1 list
                       in if \<not> n_indices l < length (indices l) then OutOfBounds
                          else Done (set_active m1 list
                                 (l\<lparr>indices := (indices l)[n_indices l := s],
                                    n_indices := n_indices l + 1\<rparr>)))))
        else Done m
      else Done m)"

text \<open>
  One iteration of the inner loop of \<open>rerex_match\<close>: the state at position \<open>j\<close> of the
  current list, if its label accepts \<open>c\<close>, enters its successor into the next list.
\<close>

definition tick_state ::
  "nat \<Rightarrow> RerexMatcher \<Rightarrow> char \<Rightarrow> nat \<Rightarrow> bool \<Rightarrow> nat \<Rightarrow> RerexMatcher exec" where
  "tick_state fuel m c step phase j =
     (let list = get_active m phase
      in if \<not> j < length (indices list) then OutOfBounds
         else
           (let i = indices list ! j
            in if \<not> i < length (states (regexp m)) then OutOfBounds
               else
                 (let state = states (regexp m) ! i
                  in if min_label state \<le> codepoint c \<and> codepoint c \<le> max_label state
                     then enter_state fuel m step (\<not> phase) (next1 state)
                     else Done m)))"

text \<open>
  The inner loop runs \<open>j\<close> over the positions below \<open>n_indices\<close> of the current list,
  which \<open>enter_state\<close> never writes (it appends to the other list).
\<close>

fun tick_loop ::
  "nat \<Rightarrow> RerexMatcher \<Rightarrow> char \<Rightarrow> nat \<Rightarrow> bool \<Rightarrow> nat list \<Rightarrow> RerexMatcher exec" where
  "tick_loop fuel m c step phase [] = Done m"
| "tick_loop fuel m c step phase (j # js) =
     (case tick_state fuel m c step phase j of
        Done m1 \<Rightarrow> tick_loop fuel m1 c step phase js
      | OutOfBounds \<Rightarrow> OutOfBounds
      | Exhausted \<Rightarrow> Exhausted)"

text \<open>
  The depth of the recursion of \<open>enter_state\<close> is at most the number of states, each
  being marked before the recursive calls.
\<close>

definition enter_fuel :: "RerexMatcher \<Rightarrow> nat" where
  "enter_fuel m = Suc (length (states (regexp m)))"

text \<open>The outer loop, over the bytes of the string up to its terminator.\<close>

fun match_loop :: "RerexMatcher \<Rightarrow> bool \<Rightarrow> nat \<Rightarrow> string \<Rightarrow> (RerexMatcher \<times> bool) exec" where
  "match_loop m phase i [] = Done (m, phase)"
| "match_loop m phase i (c # cs) =
     (if c = CHR 0x00 then Done (m, phase)
      else
        (let m1 = set_active m (\<not> phase) ((get_active m (\<not> phase))\<lparr>n_indices := 0\<rparr>)
         in case tick_loop (enter_fuel m1) m1 c (i + 1) phase
                   [0..<n_indices (get_active m1 phase)] of
              Done m2 \<Rightarrow> match_loop m2 (\<not> phase) (i + 1) cs
            | OutOfBounds \<Rightarrow> OutOfBounds
            | Exhausted \<Rightarrow> Exhausted))"

text \<open>The final loop: is a match state in the active list?\<close>

fun find_match :: "RerexMatcher \<Rightarrow> IndexList \<Rightarrow> nat list \<Rightarrow> bool exec" where
  "find_match m active [] = Done False"
| "find_match m active (i # is) =
     (if \<not> i < length (indices active) then OutOfBounds
      else if \<not> indices active ! i < length (states (regexp m)) then OutOfBounds
      else if min_label (states (regexp m) ! (indices active ! i)) = REREX_MATCH then Done True
      else find_match m active is)"

definition reset_matcher :: "RerexMatcher \<Rightarrow> RerexMatcher exec" where
  "reset_matcher m =
     (let n_states = length (states (regexp m))
      in if length (last_active m) < n_states then OutOfBounds
         else Done (m\<lparr>active0 := (active0 m)\<lparr>n_indices := 0\<rparr>,
                      active1 := (active1 m)\<lparr>n_indices := 0\<rparr>,
                      last_active := replicate n_states SIZE_MAX @ drop n_states (last_active m)\<rparr>))"

definition rerex_match :: "RerexMatcher \<Rightarrow> string \<Rightarrow> (bool \<times> RerexMatcher) exec" where
  "rerex_match matcher string =
     (case reset_matcher matcher of
        OutOfBounds \<Rightarrow> OutOfBounds
      | Exhausted \<Rightarrow> Exhausted
      | Done m0 \<Rightarrow>
         (case enter_state (enter_fuel m0) m0 0 False (start (regexp m0)) of
            OutOfBounds \<Rightarrow> OutOfBounds
          | Exhausted \<Rightarrow> Exhausted
          | Done m1 \<Rightarrow>
             (case match_loop m1 False 0 string of
                OutOfBounds \<Rightarrow> OutOfBounds
              | Exhausted \<Rightarrow> Exhausted
              | Done (m2, phase) \<Rightarrow>
                 (case find_match m2 (get_active m2 phase)
                         [0..<n_indices (get_active m2 phase)] of
                    OutOfBounds \<Rightarrow> OutOfBounds
                  | Exhausted \<Rightarrow> Exhausted
                  | Done b \<Rightarrow> Done (b, m2)))))"

text \<open>Compile a pattern, make a matcher and match one string, as the tests do.\<close>

definition matches :: "string \<Rightarrow> string \<Rightarrow> bool option" where
  "matches pattern text =
     (case rerex_compile pattern of
        Ok (e, re) \<Rightarrow>
          (case rerex_match (rerex_new_matcher re) text of
             Done (b, m) \<Rightarrow> Some b
           | _ \<Rightarrow> None)
      | _ \<Rightarrow> None)"

section \<open>The syntax tree read by the parser\<close>

text \<open>
  The parser's control flow never looks at the state array, so each reader factors into
  a reader of a syntax tree (the same code with a tree constructor in place of each
  operator call) followed by \<open>build\<close>, which makes the same operator calls in the same
  order. \<open>Lit\<close> is a positive range (also a single character and the dot), \<open>NLit\<close> a
  negated range with the endpoints as read.
\<close>

datatype regex =
    Lit char char
  | NLit char char
  | Star regex
  | Plus regex
  | Quest regex
  | Cat regex regex
  | Alt regex regex

fun build :: "regex \<Rightarrow> StateArray \<Rightarrow> Automata \<times> StateArray" where
  "build (Lit mn mx) arr =
     (let (e, s1) = add_state arr match_state;
          (s, s2) = add_state s1 (range_state mn mx e)
      in (make_automata s e, s2))"
| "build (NLit mn mx) arr =
     (let (e, s1) = add_state arr match_state;
          emin = char_of (codepoint mn - 1);
          emax = char_of (codepoint mx + 1);
          (low, s2) = add_state s1 (range_state cmin emin e);
          (high, s3) = add_state s2 (range_state emax cmax e);
          (fork, s4) = add_state s3 (split_state low high)
      in (make_automata fork e, s4))"
| "build (Star r) arr = (let (a, s1) = build r arr in star s1 a)"
| "build (Plus r) arr = (let (a, s1) = build r arr in plus_nfa s1 a)"
| "build (Quest r) arr = (let (a, s1) = build r arr in question s1 a)"
| "build (Cat r1 r2) arr =
     (let (a, s1) = build r1 arr; (b, s2) = build r2 s1 in concatenate s2 a b)"
| "build (Alt r1 r2) arr =
     (let (a, s1) = build r1 arr; (b, s2) = build r2 s1 in alternate s2 a b)"

fun emit :: "StateArray \<Rightarrow> (regex \<times> Input) result \<Rightarrow> (Automata \<times> Input \<times> StateArray) result"
where
  "emit arr (Ok (r, input)) = (let (a, s1) = build r arr in Ok (a, input, s1))"
| "emit arr (Error st off) = Error st off"
| "emit arr OutOfFuel = OutOfFuel"

definition parse_range :: "Input \<Rightarrow> bool \<Rightarrow> (regex \<times> Input) result" where
  "parse_range input negated =
     (case read_element input of
        OutOfFuel \<Rightarrow> OutOfFuel
      | Error st off \<Rightarrow> Error st off
      | Ok (mn, input1) \<Rightarrow>
         (case (if peek input1 = CHR ''-'' \<and> peekahead input1 \<noteq> CHR '']''
                then read_element (snd (eat input1))
                else Ok (mn, input1)) of
            OutOfFuel \<Rightarrow> OutOfFuel
          | Error st off \<Rightarrow> Error st off
          | Ok (mx, input2) \<Rightarrow>
             if codepoint mx < codepoint mn then Error REREX_UNORDERED_RANGE (offset input2)
             else Ok (if negated then NLit mn mx else Lit mn mx, input2)))"

fun parse_set_loop :: "nat \<Rightarrow> Input \<Rightarrow> bool \<Rightarrow> regex \<Rightarrow> (regex \<times> Input) result" where
  "parse_set_loop 0 input negated r = OutOfFuel"
| "parse_set_loop (Suc fuel) input negated r =
     (if peek input \<noteq> CHR '']'' then
        (case parse_range input negated of
           OutOfFuel \<Rightarrow> OutOfFuel
         | Error st off \<Rightarrow> Error st off
         | Ok (r1, input1) \<Rightarrow> parse_set_loop fuel input1 negated (Alt r r1))
      else Ok (r, input))"

definition parse_set :: "nat \<Rightarrow> Input \<Rightarrow> (regex \<times> Input) result" where
  "parse_set fuel input =
     (let negated = (peek input = CHR ''^'');
          input1 = (if negated then snd (eat input) else input)
      in case parse_range input1 negated of
           OutOfFuel \<Rightarrow> OutOfFuel
         | Error st off \<Rightarrow> Error st off
         | Ok (r, input2) \<Rightarrow> parse_set_loop fuel input2 negated r)"

fun parse_atom :: "nat \<Rightarrow> Input \<Rightarrow> (regex \<times> Input) result"
and parse_factor :: "nat \<Rightarrow> Input \<Rightarrow> (regex \<times> Input) result"
and parse_term :: "nat \<Rightarrow> Input \<Rightarrow> (regex \<times> Input) result"
and parse_expr :: "nat \<Rightarrow> Input \<Rightarrow> (regex \<times> Input) result"
where
  "parse_atom 0 input = OutOfFuel"
| "parse_atom (Suc fuel) input =
     (let c = peek input
      in if c = CHR ''('' then
           (case parse_expr fuel (snd (eat input)) of
              OutOfFuel \<Rightarrow> OutOfFuel
            | Error st off \<Rightarrow> Error st off
            | Ok (r, input1) \<Rightarrow>
               if peek input1 \<noteq> CHR '')'' then Error REREX_EXPECTED_RPAREN (offset input1)
               else Ok (r, snd (eat input1)))
         else if c = CHR ''.'' then Ok (Lit cmin cmax, snd (eat input))
         else if c = CHR ''['' then
           (case parse_set fuel (snd (eat input)) of
              OutOfFuel \<Rightarrow> OutOfFuel
            | Error st off \<Rightarrow> Error st off
            | Ok (r, input1) \<Rightarrow> Ok (r, snd (eat input1)))
         else
           (case read_char input of
              OutOfFuel \<Rightarrow> OutOfFuel
            | Error st off \<Rightarrow> Error st off
            | Ok (c1, input1) \<Rightarrow> Ok (Lit c1 c1, input1)))"
| "parse_factor 0 input = OutOfFuel"
| "parse_factor (Suc fuel) input =
     (case parse_atom fuel input of
        OutOfFuel \<Rightarrow> OutOfFuel
      | Error st off \<Rightarrow> Error st off
      | Ok (r, input1) \<Rightarrow>
         (let c = peek input1
          in if c = CHR ''*'' then Ok (Star r, snd (eat input1))
             else if c = CHR ''+'' then Ok (Plus r, snd (eat input1))
             else if c = CHR ''?'' then Ok (Quest r, snd (eat input1))
             else Ok (r, input1)))"
| "parse_term 0 input = OutOfFuel"
| "parse_term (Suc fuel) input =
     (case parse_factor fuel input of
        OutOfFuel \<Rightarrow> OutOfFuel
      | Error st off \<Rightarrow> Error st off
      | Ok (r, input1) \<Rightarrow>
         (let c = peek input1
          in if c = CHR 0x00 \<or> c = CHR '')'' \<or> c = CHR ''|'' then Ok (r, input1)
             else
               (case parse_term fuel input1 of
                  OutOfFuel \<Rightarrow> OutOfFuel
                | Error st off \<Rightarrow> Error st off
                | Ok (r1, input2) \<Rightarrow> Ok (Cat r r1, input2))))"
| "parse_expr 0 input = OutOfFuel"
| "parse_expr (Suc fuel) input =
     (case parse_term fuel input of
        OutOfFuel \<Rightarrow> OutOfFuel
      | Error st off \<Rightarrow> Error st off
      | Ok (r, input1) \<Rightarrow>
         if peek input1 = CHR ''|'' then
           (case parse_expr fuel (snd (eat input1)) of
              OutOfFuel \<Rightarrow> OutOfFuel
            | Error st off \<Rightarrow> Error st off
            | Ok (r1, input2) \<Rightarrow> Ok (Alt r r1, input2))
         else Ok (r, input1))"

section \<open>Auxiliary notions for the proofs\<close>

text \<open>The byte of a C string at a position; the terminator at and past the end.\<close>

definition char_at :: "string \<Rightarrow> nat \<Rightarrow> char" where
  "char_at s i = (if i < length s then s ! i else CHR 0x00)"

text \<open>
  Two inputs agree on the next \<open>n\<close> bytes; \<open>adv a a1 b\<close> advances \<open>b\<close> by as much as
  \<open>a1\<close> is ahead of \<open>a\<close>.
\<close>

definition agree :: "nat \<Rightarrow> Input \<Rightarrow> Input \<Rightarrow> bool" where
  "agree n a b \<longleftrightarrow>
     (\<forall>k<n. char_at (str a) (offset a + k) = char_at (str b) (offset b + k))"

definition adv :: "Input \<Rightarrow> Input \<Rightarrow> Input \<Rightarrow> Input" where
  "adv a a1 b = b\<lparr>offset := offset b + (offset a1 - offset a)\<rparr>"

definition printable :: "char \<Rightarrow> bool" where
  "printable c \<longleftrightarrow> codepoint cmin \<le> codepoint c \<and> codepoint c \<le> codepoint cmax"

definition is_operator :: "char \<Rightarrow> bool" where
  "is_operator c \<longleftrightarrow> c = CHR ''*'' \<or> c = CHR ''+'' \<or> c = CHR ''?''"

definition stops_term :: "char \<Rightarrow> bool" where
  "stops_term c \<longleftrightarrow> c = CHR 0x00 \<or> c = CHR '')'' \<or> c = CHR ''|''"

definition stops_expr :: "char \<Rightarrow> bool" where
  "stops_expr c \<longleftrightarrow> c = CHR 0x00 \<or> c = CHR '')''"

fun wf_regex :: "regex \<Rightarrow> bool" where
  "wf_regex (Lit mn mx) \<longleftrightarrow> printable mn \<and> printable mx"
| "wf_regex (NLit mn mx) \<longleftrightarrow> printable mn \<and> printable mx"
| "wf_regex (Star r) \<longleftrightarrow> wf_regex r"
| "wf_regex (Plus r) \<longleftrightarrow> wf_regex r"
| "wf_regex (Quest r) \<longleftrightarrow> wf_regex r"
| "wf_regex (Cat r1 r2) \<longleftrightarrow> wf_regex r1 \<and> wf_regex r2"
| "wf_regex (Alt r1 r2) \<longleftrightarrow> wf_regex r1 \<and> wf_regex r2"

text \<open>\<open>a1\<close> is the input \<open>a\<close> after at least one byte has been consumed.\<close>

definition advanced :: "Input \<Rightarrow> Input \<Rightarrow> bool" where
  "advanced a a1 \<longleftrightarrow> str a1 = str a \<and> offset a < offset a1 \<and> offset a1 \<le> length (str a)"

text \<open>A byte that can begin an atom is neither a postfix operator nor a terminator.\<close>

definition begins_atom :: "char \<Rightarrow> bool" where
  "begins_atom c \<longleftrightarrow> \<not> stops_term c \<and> \<not> is_operator c"

text \<open>
  \<open>offending st p k\<close>: the byte at position \<open>k\<close> of the pattern \<open>p\<close> is of the kind
  that raises the status \<open>st\<close>. For the two escape errors it is a byte after a
  backslash; for an unordered range it is the upper endpoint of a range (plain, or
  escaped) that is below the lower endpoint. This is a test on the bytes around \<open>k\<close>
  only; that the parser stopped at \<open>k\<close> is what \<open>decisive\<close> below says.
\<close>

fun offending :: "RerexStatus \<Rightarrow> string \<Rightarrow> nat \<Rightarrow> bool" where
  "offending REREX_SUCCESS p k \<longleftrightarrow> False"
| "offending REREX_EXPECTED_CHAR p k \<longleftrightarrow>
     char_at p k \<noteq> CHR 0x00 \<and> \<not> printable (char_at p k)"
| "offending REREX_EXPECTED_ELEMENT p k \<longleftrightarrow>
     char_at p k \<noteq> CHR 0x00 \<and> \<not> printable (char_at p k)"
| "offending REREX_EXPECTED_RBRACKET p k \<longleftrightarrow>
     0 < k \<and> char_at p (k - 1) = CHR 0x5C \<and> char_at p k \<noteq> CHR '']''"
| "offending REREX_EXPECTED_RPAREN p k \<longleftrightarrow> char_at p k \<noteq> CHR '')''"
| "offending REREX_EXPECTED_SPECIAL p k \<longleftrightarrow>
     0 < k \<and> char_at p (k - 1) = CHR 0x5C \<and> \<not> is_special (char_at p k) \<and>
     char_at p k \<noteq> CHR ''-''"
| "offending REREX_UNEXPECTED_SPECIAL p k \<longleftrightarrow> is_special (char_at p k)"
| "offending REREX_UNEXPECTED_END p k \<longleftrightarrow> char_at p k = CHR 0x00"
| "offending REREX_UNORDERED_RANGE p k \<longleftrightarrow>
     (\<exists>j<k. char_at p (j + 1) = CHR ''-'' \<and>
            codepoint (char_at p k) < codepoint (char_at p j) \<and>
            (k = j + 2 \<or> (k = j + 3 \<and> char_at p (j + 2) = CHR 0x5C)))"
| "offending REREX_NO_MEMORY p k \<longleftrightarrow> False"

text \<open>
  The kind of byte at the offset reported with an error: the offending byte is at the
  offset; only the upper endpoint of an unordered range is one before it.
\<close>

definition reported :: "RerexStatus \<Rightarrow> string \<Rightarrow> nat \<Rightarrow> bool" where
  "reported st p e \<longleftrightarrow>
     e \<le> length p \<and>
     (if st = REREX_UNORDERED_RANGE then 0 < e \<and> offending st p (e - 1)
      else offending st p e)"

text \<open>
  Which byte decides a failure. \<open>same_upto p q k\<close>: the patterns \<open>p\<close> and \<open>q\<close> have
  the same bytes at the positions up to and including \<open>k\<close> (a position at or past the
  end holds the terminator). \<open>decides p k\<close>: every pattern with the bytes of \<open>p\<close> up to
  and including position \<open>k\<close> compiles with the result of \<open>p\<close>, so the parser's
  verdict on \<open>p\<close> does not depend on anything after position \<open>k\<close>. \<open>decisive p d\<close>:
  position \<open>d\<close> is the first that decides; the verdict depends on the byte at \<open>d\<close>
  and on nothing after it. There is at most one such position.
\<close>

definition same_upto :: "string \<Rightarrow> string \<Rightarrow> nat \<Rightarrow> bool" where
  "same_upto p q k \<longleftrightarrow> (\<forall>i\<le>k. char_at q i = char_at p i)"

definition decides :: "string \<Rightarrow> nat \<Rightarrow> bool" where
  "decides p k \<longleftrightarrow> (\<forall>q. same_upto p q k \<longrightarrow> rerex_compile q = rerex_compile p)"

definition decisive :: "string \<Rightarrow> nat \<Rightarrow> bool" where
  "decisive p d \<longleftrightarrow> decides p d \<and> (\<forall>k<d. \<not> decides p k)"

text \<open>
  The position of the decisive byte of a failure reported with the offset \<open>e\<close>: the
  offset itself, but for an unordered range, whose upper endpoint has been consumed.
\<close>

definition dpos :: "RerexStatus \<Rightarrow> nat \<Rightarrow> nat" where
  "dpos st e = (if st = REREX_UNORDERED_RANGE then e - 1 else e)"

section \<open>The pattern language\<close>

text \<open>
  The grammar of the patterns, as predicates on strings:
  \<^verbatim>\<open>Expr ::= Term ('|' Expr)?\<close>, \<^verbatim>\<open>Term ::= Factor Term?\<close>, \<^verbatim>\<open>Factor ::= Atom OPERATOR?\<close>,
  \<^verbatim>\<open>Atom ::= CHAR | '.' | '(' Expr ')' | '[' Set ']'\<close>, \<^verbatim>\<open>Set ::= '^'? Range+\<close>,
  \<^verbatim>\<open>Range ::= ELEMENT | ELEMENT '-' ELEMENT\<close>. Where the productions alone are ambiguous
  the reading is fixed as follows: a backslash always begins an escape, so that it is
  neither a plain \<^verbatim>\<open>CHAR\<close> nor a plain \<^verbatim>\<open>ELEMENT\<close>; a \<open>^\<close> that opens a class is the negation
  mark; after an element, a \<open>-\<close> that is not followed by \<open>]\<close> makes a range; and the upper
  endpoint of a range is not below the lower one.
\<close>

text \<open>A plain \<^verbatim>\<open>CHAR\<close>: a printable byte that is not special and not the backslash.\<close>

definition plain_char :: "char \<Rightarrow> bool" where
  "plain_char c \<longleftrightarrow> printable c \<and> \<not> is_special c \<and> c \<noteq> CHR 0x5C"

text \<open>
  \<open>wf_element c e\<close>: the bytes \<open>e\<close> are an \<^verbatim>\<open>ELEMENT\<close> that stands for the byte \<open>c\<close>; a
  printable byte other than \<open>]\<close> and the backslash, or the escaped \<open>]\<close>.
\<close>

definition wf_element :: "char \<Rightarrow> string \<Rightarrow> bool" where
  "wf_element c e \<longleftrightarrow>
     (e = [c] \<and> printable c \<and> c \<noteq> CHR '']'' \<and> c \<noteq> CHR 0x5C) \<or>
     (e = [CHR 0x5C, CHR '']''] \<and> c = CHR '']'')"

text \<open>
  \<open>wf_ranges s w\<close>: the bytes \<open>s\<close> are zero or more ranges of a class, when the bytes
  \<open>w\<close> follow them. A single element is a range of its own unless a \<open>-\<close> and a byte
  other than \<open>]\<close> come next.
\<close>

inductive wf_ranges :: "string \<Rightarrow> string \<Rightarrow> bool" where
  ranges_none: "wf_ranges [] w"
| ranges_single:
    "wf_element x e \<Longrightarrow> wf_ranges s w \<Longrightarrow>
     \<not> (char_at (s @ w) 0 = CHR ''-'' \<and> char_at (s @ w) 1 \<noteq> CHR '']'') \<Longrightarrow>
     wf_ranges (e @ s) w"
| ranges_range:
    "wf_element x e1 \<Longrightarrow> wf_element y e2 \<Longrightarrow> codepoint x \<le> codepoint y \<Longrightarrow>
     wf_ranges s w \<Longrightarrow> wf_ranges (e1 @ CHR ''-'' # e2 @ s) w"

text \<open>The contents of a class: one or more ranges before the \<open>]\<close>, negated or not.\<close>

definition wf_set :: "string \<Rightarrow> bool" where
  "wf_set s \<longleftrightarrow>
     (\<exists>r. r \<noteq> [] \<and> wf_ranges r '']'' \<and> (s = CHR ''^'' # r \<or> (s = r \<and> hd r \<noteq> CHR ''^'')))"

inductive wf_atom :: "string \<Rightarrow> bool"
  and wf_factor :: "string \<Rightarrow> bool"
  and wf_term :: "string \<Rightarrow> bool"
  and wf_expr :: "string \<Rightarrow> bool"
where
  atom_char: "plain_char c \<Longrightarrow> wf_atom [c]"
| atom_escape: "is_special c \<or> c = CHR ''-'' \<Longrightarrow> wf_atom [CHR 0x5C, c]"
| atom_dot: "wf_atom ''.''"
| atom_group: "wf_expr e \<Longrightarrow> wf_atom (CHR ''('' # e @ '')'')"
| atom_set: "wf_set s \<Longrightarrow> wf_atom (CHR ''['' # s @ '']'')"
| factor_atom: "wf_atom a \<Longrightarrow> wf_factor a"
| factor_postfix: "wf_atom a \<Longrightarrow> is_operator c \<Longrightarrow> wf_factor (a @ [c])"
| term_factor: "wf_factor f \<Longrightarrow> wf_term f"
| term_concat: "wf_factor f \<Longrightarrow> wf_term t \<Longrightarrow> wf_term (f @ t)"
| expr_term: "wf_term t \<Longrightarrow> wf_expr t"
| expr_alt: "wf_term t \<Longrightarrow> wf_expr e \<Longrightarrow> wf_expr (t @ CHR ''|'' # e)"

text \<open>
  Where in a pattern an expression, or a term, can begin: \<open>expr_pos u\<close> and
  \<open>term_pos u\<close> hold of the bytes \<open>u\<close> that come before. An expression begins at the
  start of the pattern, after an opening parenthesis, and after a term and a bar; a term
  begins where an expression does, and after a factor.
\<close>

inductive expr_pos :: "string \<Rightarrow> bool" and term_pos :: "string \<Rightarrow> bool" where
  pos_start: "expr_pos []"
| pos_group: "term_pos u \<Longrightarrow> expr_pos (u @ ''('')"
| pos_alt: "expr_pos u \<Longrightarrow> wf_term t \<Longrightarrow> expr_pos (u @ t @ ''|'')"
| pos_expr: "expr_pos u \<Longrightarrow> term_pos u"
| pos_factor: "term_pos u \<Longrightarrow> wf_factor f \<Longrightarrow> term_pos (u @ f)"

section \<open>What an automaton accepts\<close>

text \<open>
  The moves the matcher makes on a state array: \<open>enter_state\<close> follows both out arcs
  of a state tagged \<open>REREX_SPLIT\<close> without reading input, and \<open>rerex_match\<close> follows
  \<open>next1\<close> of any other state whose label interval contains the byte read. A state index
  of 0 is no state.
\<close>

definition is_split :: "State \<Rightarrow> bool" where
  "is_split s \<longleftrightarrow> min_label s = REREX_SPLIT"

definition is_match :: "State \<Rightarrow> bool" where
  "is_match s \<longleftrightarrow> min_label s = REREX_MATCH"

definition accepts_byte :: "State \<Rightarrow> char \<Rightarrow> bool" where
  "accepts_byte s c \<longleftrightarrow> min_label s \<le> codepoint c \<and> codepoint c \<le> max_label s"

definition arc :: "StateArray \<Rightarrow> StateIndex \<Rightarrow> string \<Rightarrow> StateIndex \<Rightarrow> bool" where
  "arc S p x q \<longleftrightarrow>
     p < length S \<and> q \<noteq> 0 \<and>
     (if is_split (S ! p) then x = [] \<and> (q = next1 (S ! p) \<or> q = next2 (S ! p))
      else \<exists>c. x = [c] \<and> accepts_byte (S ! p) c \<and> q = next1 (S ! p))"

inductive path :: "StateArray \<Rightarrow> StateIndex \<Rightarrow> string \<Rightarrow> StateIndex \<Rightarrow> bool"
  for S :: StateArray
where
  path_refl: "path S p [] p"
| path_step: "arc S p x r \<Longrightarrow> path S r w q \<Longrightarrow> path S p (x @ w) q"

text \<open>A string is accepted from a state when some path on it ends in a match state.\<close>

definition accepts :: "StateArray \<Rightarrow> StateIndex \<Rightarrow> string \<Rightarrow> bool" where
  "accepts S p w \<longleftrightarrow> p \<noteq> 0 \<and> (\<exists>q. path S p w q \<and> q < length S \<and> is_match (S ! q))"

text \<open>The language of a fragment: the strings on the paths from its start to its end.\<close>

definition lang_of :: "StateArray \<Rightarrow> Automata \<Rightarrow> string set" where
  "lang_of S a = {w. path S (nfa_start a) w (nfa_end a)}"

definition lang_conc :: "string set \<Rightarrow> string set \<Rightarrow> string set" where
  "lang_conc A B = {u @ v | u v. u \<in> A \<and> v \<in> B}"

inductive_set lang_star :: "string set \<Rightarrow> string set" for A :: "string set" where
  star_empty: "[] \<in> lang_star A"
| star_more: "u \<in> A \<Longrightarrow> v \<in> lang_star A \<Longrightarrow> u @ v \<in> lang_star A"

text \<open>
  The language of a syntax tree. The two intervals of a negated range are those of the
  two range states that \<open>read_range\<close> emits for it.
\<close>

fun den :: "regex \<Rightarrow> string set" where
  "den (Lit mn mx) = {[c] | c. codepoint mn \<le> codepoint c \<and> codepoint c \<le> codepoint mx}"
| "den (NLit mn mx) =
     {[c] | c. (codepoint cmin \<le> codepoint c \<and>
                codepoint c \<le> codepoint (char_of (codepoint mn - 1))) \<or>
               (codepoint (char_of (codepoint mx + 1)) \<le> codepoint c \<and>
                codepoint c \<le> codepoint cmax)}"
| "den (Star r) = lang_star (den r)"
| "den (Plus r) = lang_conc (den r) (lang_star (den r))"
| "den (Quest r) = insert [] (den r)"
| "den (Cat r1 r2) = lang_conc (den r1) (den r2)"
| "den (Alt r1 r2) = den r1 \<union> den r2"

text \<open>
  A fragment \<open>a\<close> of the array \<open>S\<close>, built between the indices \<open>lo\<close> and \<open>hi\<close>, with the
  set \<open>L\<close> of its live states: \<open>L\<close> holds the start and the end, is closed under the
  arcs, and its only match state is the end, which is still the placeholder.
\<close>

definition frag :: "StateArray \<Rightarrow> nat \<Rightarrow> nat \<Rightarrow> Automata \<Rightarrow> nat set \<Rightarrow> bool" where
  "frag S lo hi a L \<longleftrightarrow>
     0 < lo \<and> hi \<le> length S \<and> L \<subseteq> {lo..<hi} \<and>
     nfa_start a \<in> L \<and> nfa_end a \<in> L \<and> nfa_start a \<noteq> nfa_end a \<and>
     S ! nfa_end a = match_state \<and>
     (\<forall>i\<in>L. i \<noteq> nfa_end a \<longrightarrow> \<not> is_match (S ! i)) \<and>
     (\<forall>i\<in>L. \<forall>x q. arc S i x q \<longrightarrow> q \<in> L)"

text \<open>Every successor index of the array is inside it.\<close>

definition arena_ok :: "StateArray \<Rightarrow> bool" where
  "arena_ok S \<longleftrightarrow> 0 < length S \<and> (\<forall>s\<in>set S. next1 s < length S \<and> next2 s < length S)"

text \<open>Every state is a split state, a match state, or labelled within the printable bytes.\<close>

definition label_ok :: "State \<Rightarrow> bool" where
  "label_ok s \<longleftrightarrow> is_split s \<or> is_match s \<or> (0x20 \<le> min_label s \<and> max_label s \<le> 0x7E)"

text \<open>A matcher whose buffers have the size that \<open>rerex_new_matcher\<close> gives them.\<close>

definition matcher_for :: "RerexPattern \<Rightarrow> RerexMatcher \<Rightarrow> bool" where
  "matcher_for re m \<longleftrightarrow>
     regexp m = re \<and>
     length (indices (active0 m)) = length (states re) \<and>
     length (indices (active1 m)) = length (states re) \<and>
     length (last_active m) = length (states re)"

text \<open>The part of an index list that is in use.\<close>

definition contents :: "IndexList \<Rightarrow> StateIndex list" where
  "contents l = take (n_indices l) (indices l)"

text \<open>
  An index list in use: the length is within the buffer, no index stands twice in it,
  and every index is below \<open>n\<close>.
\<close>

definition list_ok :: "nat \<Rightarrow> IndexList \<Rightarrow> bool" where
  "list_ok n l \<longleftrightarrow>
     n_indices l \<le> length (indices l) \<and> distinct (contents l) \<and> (\<forall>q\<in>set (contents l). q < n)"

text \<open>The states that \<open>last_active\<close> marks as entered in the step \<open>step\<close>.\<close>

definition marked :: "RerexMatcher \<Rightarrow> nat \<Rightarrow> StateIndex set" where
  "marked m step = {q. q < length (last_active m) \<and> last_active m ! q = step}"

text \<open>
  The states on the paths from \<open>s\<close> that read nothing, and the states other than
  split states at the end of the paths from \<open>s\<close> that read \<open>u\<close>.
\<close>

definition eps_closure :: "StateArray \<Rightarrow> StateIndex \<Rightarrow> StateIndex set" where
  "eps_closure S s = {q. s \<noteq> 0 \<and> path S s [] q}"

definition reached :: "StateArray \<Rightarrow> StateIndex \<Rightarrow> string \<Rightarrow> StateIndex set" where
  "reached S s u = {q. s \<noteq> 0 \<and> path S s u q \<and> \<not> is_split (S ! q)}"

text \<open>A set of states that holds both successors of each of its split states.\<close>

definition eps_closed :: "StateArray \<Rightarrow> StateIndex set \<Rightarrow> bool" where
  "eps_closed S X \<longleftrightarrow>
     (\<forall>q\<in>X. is_split (S ! q) \<longrightarrow>
        (next1 (S ! q) = 0 \<or> next1 (S ! q) \<in> X) \<and> (next2 (S ! q) = 0 \<or> next2 (S ! q) \<in> X))"

text \<open>
  The list \<open>list\<close> of the matcher holds the step \<open>step\<close>: the states marked with the
  step are \<open>X\<close>, which is closed, and the list holds those of them that are not split
  states, each once.
\<close>

definition filled :: "RerexPattern \<Rightarrow> RerexMatcher \<Rightarrow> nat \<Rightarrow> bool \<Rightarrow> StateIndex set \<Rightarrow> bool" where
  "filled re m step list X \<longleftrightarrow>
     matcher_for re m \<and> list_ok (length (states re)) (get_active m list) \<and>
     marked m step = X \<and> eps_closed (states re) X \<and>
     set (contents (get_active m list)) = {q \<in> X. \<not> is_split (states re ! q)}"

(*DEFS-END*)

section \<open>Status texts\<close>

lemma status_strings_nth:
  "status_strings ! 0 = ''Success''"
  "status_strings ! Suc 0 = ''Expected a regular character''"
  "status_strings ! 2 = ''Expected a character in a set''"
  "status_strings ! 3 = ''Expected '' @ [CHR 0x27] @ '']'' @ [CHR 0x27]"
  "status_strings ! 4 = ''Expected '' @ [CHR 0x27] @ '')'' @ [CHR 0x27]"
  "status_strings ! 5 =
     ''Expected a special character (one of '' @ [CHR 0x22] @ ''()*+-?[]^|'' @ [CHR 0x22] @ '')''"
  "status_strings ! 6 = ''Unexpected special character''"
  "status_strings ! 7 = ''Unexpected end of input''"
  "status_strings ! 8 = ''Range is out of order''"
  "status_strings ! 9 = ''Failed to allocate memory''"
  by (simp_all add: status_strings_def nth_Cons')

lemma rerex_strerror_texts:
  "rerex_strerror 0 = ''Success''"
  "rerex_strerror 1 = ''Expected a regular character''"
  "rerex_strerror 2 = ''Expected a character in a set''"
  "rerex_strerror 3 = ''Expected '' @ [CHR 0x27] @ '']'' @ [CHR 0x27]"
  "rerex_strerror 4 = ''Expected '' @ [CHR 0x27] @ '')'' @ [CHR 0x27]"
  "rerex_strerror 5 =
     ''Expected a special character (one of '' @ [CHR 0x22] @ ''()*+-?[]^|'' @ [CHR 0x22] @ '')''"
  "rerex_strerror 6 = ''Unexpected special character''"
  "rerex_strerror 7 = ''Unexpected end of input''"
  "rerex_strerror 8 = ''Range is out of order''"
  "rerex_strerror 9 = ''Failed to allocate memory''"
  by (simp_all add: rerex_strerror_def status_strings_nth)

lemma rerex_strerror_unknown:
  assumes "- (2 ^ 31) \<le> v" "v < 2 ^ 31" "v < 0 \<or> status_value REREX_NO_MEMORY < v"
  shows "rerex_strerror v = ''Unknown error''"
proof -
  from assms consider "v < 0" "- (2 ^ 31) \<le> v" | "9 < v" "v < 2 ^ 31"
    by auto
  then have "\<not> v mod 2 ^ 32 \<le> 9"
  proof cases
    case 1
    have "v mod 2 ^ 32 = (v + 2 ^ 32) mod 2 ^ 32"
      by simp
    also have "\<dots> = v + 2 ^ 32"
      using 1 by (intro mod_pos_pos_trivial) simp_all
    finally show ?thesis using 1 by simp
  next
    case 2
    then have "v mod 2 ^ 32 = v"
      by (intro mod_pos_pos_trivial) simp_all
    with 2 show ?thesis by simp
  qed
  then show ?thesis
    by (simp add: rerex_strerror_def)
qed

text \<open>
  C8. \<open>rerex_strerror\<close> returns a short English description for every status of the
  enumeration: the ten texts are those listed below (\<open>Success\<close> for the success status),
  no two statuses share a text, each text is non-empty, at most 51 printable bytes long
  and different from the fallback text; and it returns exactly \<open>Unknown error\<close> for every
  32-bit value outside the enumeration.
\<close>

theorem rerex_strerror_total:
  "rerex_strerror (status_value REREX_SUCCESS) = ''Success'' \<and>
   rerex_strerror (status_value REREX_EXPECTED_CHAR) = ''Expected a regular character'' \<and>
   rerex_strerror (status_value REREX_EXPECTED_ELEMENT) = ''Expected a character in a set'' \<and>
   rerex_strerror (status_value REREX_EXPECTED_RBRACKET) =
     ''Expected '' @ [CHR 0x27] @ '']'' @ [CHR 0x27] \<and>
   rerex_strerror (status_value REREX_EXPECTED_RPAREN) =
     ''Expected '' @ [CHR 0x27] @ '')'' @ [CHR 0x27] \<and>
   rerex_strerror (status_value REREX_EXPECTED_SPECIAL) =
     ''Expected a special character (one of '' @ [CHR 0x22] @ ''()*+-?[]^|'' @ [CHR 0x22] @ '')'' \<and>
   rerex_strerror (status_value REREX_UNEXPECTED_SPECIAL) = ''Unexpected special character'' \<and>
   rerex_strerror (status_value REREX_UNEXPECTED_END) = ''Unexpected end of input'' \<and>
   rerex_strerror (status_value REREX_UNORDERED_RANGE) = ''Range is out of order'' \<and>
   rerex_strerror (status_value REREX_NO_MEMORY) = ''Failed to allocate memory'' \<and>
   (\<forall>st st'. rerex_strerror (status_value st) = rerex_strerror (status_value st') \<longrightarrow> st = st') \<and>
   (\<forall>st. rerex_strerror (status_value st) = status_strings ! nat (status_value st) \<and>
         rerex_strerror (status_value st) \<noteq> ''Unknown error'' \<and>
         rerex_strerror (status_value st) \<noteq> [] \<and>
         length (rerex_strerror (status_value st)) \<le> 51 \<and>
         (\<forall>c\<in>set (rerex_strerror (status_value st)). printable c)) \<and>
   (\<forall>v. - (2 ^ 31) \<le> v \<and> v < 2 ^ 31 \<and> (v < 0 \<or> status_value REREX_NO_MEMORY < v) \<longrightarrow>
        rerex_strerror v = ''Unknown error'')"
proof -
  have inj: "st = st'"
    if "rerex_strerror (status_value st) = rerex_strerror (status_value st')" for st st'
    using that by (cases st; cases st') (simp_all add: rerex_strerror_texts)
  have each: "rerex_strerror (status_value st) = status_strings ! nat (status_value st) \<and>
         rerex_strerror (status_value st) \<noteq> ''Unknown error'' \<and>
         rerex_strerror (status_value st) \<noteq> [] \<and>
         length (rerex_strerror (status_value st)) \<le> 51 \<and>
         (\<forall>c\<in>set (rerex_strerror (status_value st)). printable c)" for st
    by (cases st)
       (simp_all add: rerex_strerror_texts status_strings_nth printable_def codepoint_def
          cmin_def cmax_def)
  have unk: "\<forall>v. - (2 ^ 31) \<le> v \<and> v < 2 ^ 31 \<and> (v < 0 \<or> status_value REREX_NO_MEMORY < v) \<longrightarrow>
        rerex_strerror v = ''Unknown error''"
    using rerex_strerror_unknown by blast
  have texts: "rerex_strerror (status_value REREX_SUCCESS) = ''Success'' \<and>
   rerex_strerror (status_value REREX_EXPECTED_CHAR) = ''Expected a regular character'' \<and>
   rerex_strerror (status_value REREX_EXPECTED_ELEMENT) = ''Expected a character in a set'' \<and>
   rerex_strerror (status_value REREX_EXPECTED_RBRACKET) =
     ''Expected '' @ [CHR 0x27] @ '']'' @ [CHR 0x27] \<and>
   rerex_strerror (status_value REREX_EXPECTED_RPAREN) =
     ''Expected '' @ [CHR 0x27] @ '')'' @ [CHR 0x27] \<and>
   rerex_strerror (status_value REREX_EXPECTED_SPECIAL) =
     ''Expected a special character (one of '' @ [CHR 0x22] @ ''()*+-?[]^|'' @ [CHR 0x22] @ '')'' \<and>
   rerex_strerror (status_value REREX_UNEXPECTED_SPECIAL) = ''Unexpected special character'' \<and>
   rerex_strerror (status_value REREX_UNEXPECTED_END) = ''Unexpected end of input'' \<and>
   rerex_strerror (status_value REREX_UNORDERED_RANGE) = ''Range is out of order'' \<and>
   rerex_strerror (status_value REREX_NO_MEMORY) = ''Failed to allocate memory''"
    by (simp add: rerex_strerror_texts)
  from texts inj each unk show ?thesis
    by blast
qed

theorem rerex_strerror_total_witness:
  "rerex_strerror 0 = ''Success'' \<and> rerex_strerror 9 = ''Failed to allocate memory'' \<and>
   rerex_strerror 10 = ''Unknown error'' \<and> rerex_strerror (- 1) = ''Unknown error'' \<and>
   rerex_strerror 2147483647 = ''Unknown error'' \<and>
   rerex_strerror 8 \<noteq> rerex_strerror 0"
  using rerex_strerror_total by simp

section \<open>The parser builds what it reads\<close>

lemma read_range_emit: "read_range inp S neg = emit S (parse_range inp neg)"
  by (simp add: read_range_def parse_range_def Let_def split: result.splits prod.splits)

lemma read_set_loop_emit:
  "build r S0 = (a, S) \<Longrightarrow> read_set_loop f inp S neg a = 
     (case parse_set_loop f inp neg r of Ok (r', inp') \<Rightarrow> (let (a', S') = build r' S0 in Ok (a', inp', S'))
       | Error st off \<Rightarrow> Error st off | OutOfFuel \<Rightarrow> OutOfFuel)"
proof (induction f arbitrary: inp S a r)
  case 0
  then show ?case by simp
next
  case (Suc f)
  show ?case
  proof (cases "peek inp \<noteq> CHR '']''")
    case False
    then show ?thesis using Suc.prems by simp
  next
    case True
    show ?thesis
    proof (cases "parse_range inp neg")
      case (Ok x)
      obtain r1 inp1 where x: "x = (r1, inp1)" by (cases x)
      obtain b S1 where b: "build r1 S = (b, S1)" by (cases "build r1 S")
      obtain a2 S2 where a2: "alternate S1 a b = (a2, S2)" by (cases "alternate S1 a b")
      have "build (Alt r r1) S0 = (a2, S2)"
        using Suc.prems b a2 by simp
      from Suc.IH [OF this] show ?thesis
        using True Ok x b a2 by (simp add: read_range_emit)
    qed (use True in \<open>simp_all add: read_range_emit\<close>)
  qed
qed

lemma read_set_emit: "read_set f inp S = emit S (parse_set f inp)"
proof -
  define neg where "neg = (peek inp = CHR ''^'')"
  define inp1 where "inp1 = (if neg then snd (eat inp) else inp)"
  show ?thesis
  proof (cases "parse_range inp1 neg")
    case (Ok x)
    obtain r inp2 where x: "x = (r, inp2)" by (cases x)
    obtain a S1 where a: "build r S = (a, S1)" by (cases "build r S")
    show ?thesis
      using Ok x a read_set_loop_emit [OF a, of f inp2 neg]
      by (simp add: read_set_def parse_set_def Let_def read_range_emit flip: neg_def inp1_def split: result.splits prod.splits)
  qed (simp_all add: read_set_def parse_set_def Let_def read_range_emit flip: neg_def inp1_def)
qed

lemma read_emit:
  "(\<forall>inp S. read_atom f inp S = emit S (parse_atom f inp)) \<and>
   (\<forall>inp S. read_factor f inp S = emit S (parse_factor f inp)) \<and>
   (\<forall>inp S. read_term f inp S = emit S (parse_term f inp)) \<and>
   (\<forall>inp S. read_expr f inp S = emit S (parse_expr f inp))"
proof (induction f)
  case 0
  show ?case by simp
next
  case (Suc f)
  have A: "read_atom (Suc f) inp S = emit S (parse_atom (Suc f) inp)" for inp S
    using Suc by (simp add: Let_def read_set_emit read_dot_def split: result.splits prod.splits)
  have F: "read_factor (Suc f) inp S = emit S (parse_factor (Suc f) inp)" for inp S
    using Suc by (cases "parse_atom f inp") (auto simp: Let_def split: prod.splits)
  have T: "read_term (Suc f) inp S = emit S (parse_term (Suc f) inp)" for inp S
  proof (cases "parse_factor f inp")
    case (Ok x)
    obtain r inp1 where x: "x = (r, inp1)" by (cases x)
    show ?thesis using Suc Ok x
      by (cases "parse_term f inp1") (auto simp: Let_def split: prod.splits)
  qed (use Suc in simp_all)
  have E: "read_expr (Suc f) inp S = emit S (parse_expr (Suc f) inp)" for inp S
  proof (cases "parse_term f inp")
    case (Ok x)
    obtain r inp1 where x: "x = (r, inp1)" by (cases x)
    show ?thesis using Suc Ok x
      by (cases "parse_expr f (snd (eat inp1))") (auto simp: Let_def split: prod.splits)
  qed (use Suc in simp_all)
  from A F T E show ?case by blast
qed

section \<open>Reading bytes\<close>

lemma peek_char_at: "peek a = char_at (str a) (offset a)"
  by (simp add: peek_def char_at_def)

lemma peekahead_char_at: "peekahead a = char_at (str a) (offset a + 1)"
  by (simp add: peekahead_def char_at_def)

lemma eat_simps [simp]:
  "str (snd (eat a)) = str a" "offset (snd (eat a)) = Suc (offset a)" "fst (eat a) = peek a"
  by (simp_all add: eat_def)

lemma peek_nonzero: "peek a \<noteq> CHR 0x00 \<Longrightarrow> offset a < length (str a)"
  by (simp add: peek_def split: if_splits)

lemma agree_at: "agree n a b \<Longrightarrow> k < n \<Longrightarrow> char_at (str b) (offset b + k) = char_at (str a) (offset a + k)"
  by (simp add: agree_def)

lemma agree_peek: "agree n a b \<Longrightarrow> 0 < n \<Longrightarrow> peek b = peek a"
  using agree_at [of n a b 0] by (simp add: peek_char_at)

lemma agree_peekahead: "agree n a b \<Longrightarrow> 1 < n \<Longrightarrow> peekahead b = peekahead a"
  using agree_at [of n a b 1] by (simp add: peekahead_char_at)

lemma agree_mono: "agree n a b \<Longrightarrow> m \<le> n \<Longrightarrow> agree m a b"
  by (simp add: agree_def)

lemma agree_adv:
  assumes "agree n a b" "str a1 = str a" "offset a \<le> offset a1" "offset a1 - offset a + m \<le> n"
  shows "agree m a1 (adv a a1 b)"
  unfolding agree_def
proof (intro allI impI)
  fix k assume "k < m"
  then have "offset a1 - offset a + k < n" using assms(4) by simp
  from agree_at [OF assms(1) this] show "char_at (str a1) (offset a1 + k) = char_at (str (adv a a1 b)) (offset (adv a a1 b) + k)"
    using assms(2,3) by (simp add: adv_def add.assoc)
qed

lemma peek_adv:
  assumes "agree n a b" "str a1 = str a" "offset a \<le> offset a1" "offset a1 - offset a < n"
  shows "peek (adv a a1 b) = peek a1"
  using agree_at [OF assms(1,4)] assms(2,3) by (simp add: peek_char_at adv_def)

lemma adv_same [simp]: "adv a a b = b"
  by (simp add: adv_def)

lemma adv_eat: "offset a \<le> offset a1 \<Longrightarrow> snd (eat (adv a a1 b)) = adv a (snd (eat a1)) b"
  by (simp add: eat_def adv_def)

lemma adv_adv:
  "offset a \<le> offset a1 \<Longrightarrow> offset a1 \<le> offset a2 \<Longrightarrow> adv a1 a2 (adv a a1 b) = adv a a2 b"
  by (simp add: adv_def)

lemma printable_simps [simp]:
  "printable (CHR '']'')" "printable (CHR ''-'')" "\<not> printable (CHR 0x00)"
  by (simp_all add: printable_def codepoint_def cmin_def cmax_def)

lemma is_special_printable: "is_special c \<Longrightarrow> printable c"
  by (auto simp: is_special_def printable_def codepoint_def cmin_def cmax_def)

text \<open>What a successful \<open>read_element\<close> or \<open>read_char\<close> returns.\<close>

lemma read_element_shape:
  assumes "read_element a = Ok (c, a1)"
  shows "(c = peek a \<and> printable c \<and> a1 = snd (eat a)) \<or>
         (peek a = CHR 0x5C \<and> c = CHR '']'' \<and> peek (snd (eat a)) = CHR '']'' \<and>
          a1 = snd (eat (snd (eat a))))"
proof (cases "peek a = CHR 0x5C")
  case True
  with assms have "peek (snd (eat a)) = CHR '']''" "a1 = snd (eat (snd (eat a)))"
    "c = peek (snd (eat a))"
    by (auto simp: read_element_def Let_def eat_def split: if_splits)
  with True show ?thesis by simp
next
  case False
  with assms show ?thesis
    by (auto simp: read_element_def Let_def eat_def printable_def split: if_splits)
qed

lemma read_element_Ok:
  assumes "read_element a = Ok (c, a1)"
  shows "str a1 = str a" "offset a < offset a1" "offset a1 \<le> length (str a)" "printable c"
proof -
  from read_element_shape [OF assms]
  have "str a1 = str a \<and> offset a < offset a1 \<and> offset a1 \<le> length (str a) \<and> printable c"
  proof (elim disjE conjE)
    assume "c = peek a" "printable c" "a1 = snd (eat a)"
    moreover from this have "peek a \<noteq> CHR 0x00" by auto
    ultimately show ?thesis using peek_nonzero [of a] by simp
  next
    assume *: "peek a = CHR 0x5C" "c = CHR '']''" "peek (snd (eat a)) = CHR '']''"
      "a1 = snd (eat (snd (eat a)))"
    then have "offset (snd (eat a)) < length (str (snd (eat a)))"
      by (intro peek_nonzero) simp
    with * show ?thesis by simp
  qed
  then show "str a1 = str a" "offset a < offset a1" "offset a1 \<le> length (str a)" "printable c"
    by simp_all
qed

lemma read_char_shape:
  assumes "read_char a = Ok (c, a1)"
  shows "(c = peek a \<and> printable c \<and> \<not> is_special c \<and> c \<noteq> CHR 0x5C \<and> a1 = snd (eat a)) \<or>
         (peek a = CHR 0x5C \<and> c = peek (snd (eat a)) \<and> (is_special c \<or> c = CHR ''-'') \<and>
          a1 = snd (eat (snd (eat a))))"
proof (cases "peek a = CHR 0x5C")
  case True
  with assms show ?thesis
    by (auto simp: read_char_def read_escape_def Let_def eat_def split: if_splits)
next
  case False
  with assms show ?thesis
    by (auto simp: read_char_def Let_def eat_def printable_def split: if_splits)
qed

lemma backslash_not_special [simp]: "\<not> is_special (CHR 0x5C)" "\<not> is_special (CHR 0x00)"
  by (simp_all add: is_special_def)

lemma read_char_Ok:
  assumes "read_char a = Ok (c, a1)"
  shows "str a1 = str a" "offset a < offset a1" "offset a1 \<le> length (str a)" "printable c"
    "\<not> is_special (peek a)" "peek a \<noteq> CHR 0x00"
proof -
  from read_char_shape [OF assms]
  consider (plain) "c = peek a" "printable c" "\<not> is_special c" "a1 = snd (eat a)"
    | (esc) "peek a = CHR 0x5C" "c = peek (snd (eat a))" "is_special c \<or> c = CHR ''-''"
        "a1 = snd (eat (snd (eat a)))"
    by blast
  then have "str a1 = str a \<and> offset a < offset a1 \<and> offset a1 \<le> length (str a) \<and> printable c \<and>
        \<not> is_special (peek a) \<and> peek a \<noteq> CHR 0x00"
  proof cases
    case plain
    moreover from this have "peek a \<noteq> CHR 0x00" by auto
    ultimately show ?thesis using peek_nonzero [of a] by simp
  next
    case esc
    then have p: "printable c" using is_special_printable by auto
    then have "peek (snd (eat a)) \<noteq> CHR 0x00" using esc by auto
    then have "offset (snd (eat a)) < length (str (snd (eat a)))"
      by (rule peek_nonzero)
    with esc p show ?thesis by simp
  qed
  then show "str a1 = str a" "offset a < offset a1" "offset a1 \<le> length (str a)" "printable c"
    "\<not> is_special (peek a)" "peek a \<noteq> CHR 0x00"
    by simp_all
qed

text \<open>Both readers depend only on the bytes they consume.\<close>

lemma read_element_reloc:
  assumes "read_element a = Ok (c, a1)" "agree (offset a1 - offset a) a b"
  shows "read_element b = Ok (c, adv a a1 b)"
  using read_element_shape [OF assms(1)]
proof (elim disjE conjE)
  assume *: "c = peek a" "printable c" "a1 = snd (eat a)"
  have "peek b = peek a" by (rule agree_peek [of 1]) (use * assms(2) in simp_all)
  moreover have "peek a \<noteq> CHR 0x5C" "peek a \<noteq> CHR '']''" "peek a \<noteq> CHR 0x00"
    using assms(1) * by (auto simp: read_element_def Let_def eat_def split: if_splits)
  ultimately show ?thesis using *
    by (simp add: read_element_def Let_def eat_def adv_def printable_def)
next
  assume *: "peek a = CHR 0x5C" "c = CHR '']''" "peek (snd (eat a)) = CHR '']''"
    "a1 = snd (eat (snd (eat a)))"
  then have ag: "agree 2 a b" using assms(2) by simp
  then have "peek b = peek a" by (rule agree_peek [of 2]) simp_all
  moreover have "peek (snd (eat b)) = peek (snd (eat a))"
    using agree_at [OF ag, of 1] by (simp add: peek_char_at)
  ultimately show ?thesis using *
    by (simp add: read_element_def Let_def eat_def adv_def)
qed

lemma read_char_reloc:
  assumes "read_char a = Ok (c, a1)" "agree (offset a1 - offset a) a b"
  shows "read_char b = Ok (c, adv a a1 b)"
proof -
  from read_char_shape [OF assms(1)]
  consider (plain) "c = peek a" "printable c" "\<not> is_special c" "c \<noteq> CHR 0x5C" "a1 = snd (eat a)"
    | (esc) "peek a = CHR 0x5C" "c = peek (snd (eat a))" "is_special c \<or> c = CHR ''-''"
        "a1 = snd (eat (snd (eat a)))"
    by blast
  then show ?thesis
  proof cases
    case plain
    have "peek b = peek a" by (rule agree_peek [of 1]) (use plain assms(2) in simp_all)
    moreover have "peek a \<noteq> CHR 0x00" using plain by auto
    ultimately show ?thesis using plain
      by (simp add: read_char_def Let_def eat_def adv_def printable_def)
  next
    case esc
    then have ag: "agree 2 a b" using assms(2) by simp
    then have "peek b = peek a" by (rule agree_peek [of 2]) simp_all
    moreover have "peek (snd (eat b)) = peek (snd (eat a))"
      using agree_at [OF ag, of 1] by (simp add: peek_char_at)
    ultimately show ?thesis using esc
      by (simp add: read_char_def read_escape_def Let_def eat_def adv_def)
  qed
qed

section \<open>Ranges and sets\<close>

lemma parse_range_shape:
  assumes "parse_range a neg = Ok (r, a1)"
  obtains (single) mn where "read_element a = Ok (mn, a1)"
      "\<not> (peek a1 = CHR ''-'' \<and> peekahead a1 \<noteq> CHR '']'')"
      "r = (if neg then NLit mn mn else Lit mn mn)"
    | (range) mn a' mx where "read_element a = Ok (mn, a')"
      "peek a' = CHR ''-''" "peekahead a' \<noteq> CHR '']''"
      "read_element (snd (eat a')) = Ok (mx, a1)" "\<not> codepoint mx < codepoint mn"
      "r = (if neg then NLit mn mx else Lit mn mx)"
proof (cases "read_element a")
  case (Ok x)
  obtain mn a' where x: "x = (mn, a')" by (cases x)
  show ?thesis
  proof (cases "peek a' = CHR ''-'' \<and> peekahead a' \<noteq> CHR '']''")
    case True
    with assms Ok x obtain mx where "read_element (snd (eat a')) = Ok (mx, a1)"
      "\<not> codepoint mx < codepoint mn" "r = (if neg then NLit mn mx else Lit mn mx)"
      by (auto simp: parse_range_def split: result.splits if_splits)
    with True Ok x show ?thesis by (auto intro: range)
  next
    case False
    with assms Ok x have "a1 = a'" "r = (if neg then NLit mn mn else Lit mn mn)"
      by (auto simp: parse_range_def split: result.splits if_splits)
    with False Ok x show ?thesis by (auto intro: single)
  qed
qed (use assms in \<open>simp_all add: parse_range_def\<close>)

lemma parse_range_Ok:
  assumes "parse_range a neg = Ok (r, a1)"
  shows "str a1 = str a" "offset a < offset a1" "offset a1 \<le> length (str a)" "wf_regex r"
proof -
  have "str a1 = str a \<and> offset a < offset a1 \<and> offset a1 \<le> length (str a) \<and> wf_regex r"
    using assms
  proof (cases rule: parse_range_shape)
    case (single mn)
    then show ?thesis using read_element_Ok [of a mn a1] by simp
  next
    case (range mn a' mx)
    then show ?thesis
      using read_element_Ok [of a mn a'] read_element_Ok [of "snd (eat a')" mx a1] by simp
  qed
  then show "str a1 = str a" "offset a < offset a1" "offset a1 \<le> length (str a)" "wf_regex r"
    by simp_all
qed

lemma parse_range_reloc:
  assumes "parse_range a neg = Ok (r, a1)"
    and ag: "agree (offset a1 - offset a + 1) a b"
    and la: "peek a1 = CHR ''-'' \<longrightarrow> peekahead (adv a a1 b) = peekahead a1"
  shows "parse_range b neg = Ok (r, adv a a1 b)"
  using assms(1)
proof (cases rule: parse_range_shape)
  case (single mn)
  note ok = read_element_Ok [OF single(1)]
  have "read_element b = Ok (mn, adv a a1 b)"
    by (rule read_element_reloc [OF single(1)]) (rule agree_mono [OF ag], simp)
  moreover have "peek (adv a a1 b) = peek a1"
    by (rule peek_adv [OF ag]) (use ok in simp_all)
  ultimately show ?thesis using single la
    by (auto simp: parse_range_def)
next
  case (range mn a' mx)
  note ok1 = read_element_Ok [OF range(1)]
  note ok2 = read_element_Ok [OF range(4)]
  have lt: "offset a' + 2 \<le> offset a1" using ok2 by simp
  have 1: "read_element b = Ok (mn, adv a a' b)"
    by (rule read_element_reloc [OF range(1)]) (rule agree_mono [OF ag], use lt in simp)
  have 2: "peek (adv a a' b) = peek a'"
    by (rule peek_adv [OF ag]) (use ok1 lt in simp_all)
  have "char_at (str b) (offset b + (offset a' - offset a + 1)) =
        char_at (str a) (offset a + (offset a' - offset a + 1))"
    by (rule agree_at [OF ag]) (use ok1 lt in simp)
  then have 3: "peekahead (adv a a' b) = peekahead a'"
    using ok1 by (simp add: peekahead_char_at adv_def add.assoc)
  have "agree (offset a1 - offset (snd (eat a'))) (snd (eat a')) (adv a (snd (eat a')) b)"
    by (rule agree_adv [OF ag]) (use ok1 ok2 in simp_all)
  from read_element_reloc [OF range(4) this]
  have 4: "read_element (snd (eat (adv a a' b))) = Ok (mx, adv a a1 b)"
    using ok1 ok2 by (simp add: adv_eat adv_adv)
  show ?thesis using 1 2 3 4 range
    by (simp add: parse_range_def)
qed

lemma parse_set_loop_Ok:
  assumes "parse_set_loop f a neg r = Ok (r', a1)"
  shows "str a1 = str a \<and> offset a \<le> offset a1 \<and> offset a1 < length (str a) \<and>
         peek a1 = CHR '']''"
  using assms
proof (induction f arbitrary: a r)
  case 0
  then show ?case by simp
next
  case (Suc f)
  show ?case
  proof (cases "peek a = CHR '']''")
    case True
    with Suc.prems have "a1 = a" "r' = r" by simp_all
    moreover have "offset a < length (str a)" using True by (intro peek_nonzero) simp
    ultimately show ?thesis using True Suc.prems by simp
  next
    case False
    with Suc.prems obtain r1 a' where pr: "parse_range a neg = Ok (r1, a')"
      and rest: "parse_set_loop f a' neg (Alt r r1) = Ok (r', a1)"
      by (auto split: result.splits)
    from Suc.IH [OF rest] parse_range_Ok [OF pr] show ?thesis by simp
  qed
qed

lemma parse_set_loop_wf:
  assumes "parse_set_loop f a neg r = Ok (r', a1)" "wf_regex r"
  shows "wf_regex r'"
  using assms
proof (induction f arbitrary: a r)
  case 0
  then show ?case by simp
next
  case (Suc f)
  show ?case
  proof (cases "peek a = CHR '']''")
    case True
    with Suc.prems show ?thesis by simp
  next
    case False
    with Suc.prems obtain r1 a' where pr: "parse_range a neg = Ok (r1, a')"
      and rest: "parse_set_loop f a' neg (Alt r r1) = Ok (r', a1)"
      by (auto split: result.splits)
    from Suc.IH [OF rest] parse_range_Ok [OF pr] Suc.prems(2) show ?thesis by simp
  qed
qed

lemma parse_set_loop_reloc:
  assumes "parse_set_loop f a neg r = Ok (r', a1)" "agree (offset a1 - offset a + 1) a b"
  shows "parse_set_loop f b neg r = Ok (r', adv a a1 b)"
  using assms
proof (induction f arbitrary: a b r)
  case 0
  then show ?case by simp
next
  case (Suc f)
  have pb: "peek b = peek a" by (rule agree_peek [OF Suc.prems(2)]) simp
  show ?case
  proof (cases "peek a = CHR '']''")
    case True
    with Suc.prems pb show ?thesis by simp
  next
    case False
    with Suc.prems obtain r1 a' where pr: "parse_range a neg = Ok (r1, a')"
      and rest: "parse_set_loop f a' neg (Alt r r1) = Ok (r', a1)"
      by (auto split: result.splits)
    note ok = parse_range_Ok [OF pr]
    have mono: "str a1 = str a'" "offset a' \<le> offset a1" "peek a1 = CHR '']''"
      using parse_set_loop_Ok [OF rest] by simp_all
    have b1: "parse_range b neg = Ok (r1, adv a a' b)"
    proof (rule parse_range_reloc [OF pr])
      show "agree (offset a' - offset a + 1) a b"
        by (rule agree_mono [OF Suc.prems(2)]) (use mono in simp)
      show "peek a' = CHR ''-'' \<longrightarrow> peekahead (adv a a' b) = peekahead a'"
      proof
        assume m: "peek a' = CHR ''-''"
        have "offset a' \<noteq> offset a1"
        proof
          assume "offset a' = offset a1"
          then have "peek a' = peek a1" using mono(1) by (simp add: peek_char_at)
          with m mono show False by simp
        qed
        with mono have "offset a' - offset a + 1 < offset a1 - offset a + 1" using ok by auto
        from agree_at [OF Suc.prems(2) this]
        show "peekahead (adv a a' b) = peekahead a'"
          using ok by (simp add: peekahead_char_at adv_def add.assoc)
      qed
    qed
    have "agree (offset a1 - offset a' + 1) a' (adv a a' b)"
      by (rule agree_adv [OF Suc.prems(2)]) (use ok mono in simp_all)
    from Suc.IH [OF rest this] have "parse_set_loop f (adv a a' b) neg (Alt r r1) = Ok (r', adv a a1 b)"
      using ok mono by (simp add: adv_adv)
    with b1 False pb show ?thesis by simp
  qed
qed

lemma parse_set_Ok:
  assumes "parse_set f a = Ok (r, a1)"
  shows "str a1 = str a \<and> offset a < offset a1 \<and> offset a1 < length (str a) \<and> wf_regex r \<and>
         peek a1 = CHR '']''"
proof -
  define neg where "neg = (peek a = CHR ''^'')"
  define a0 where "a0 = (if neg then snd (eat a) else a)"
  from assms obtain r1 a' where pr: "parse_range a0 neg = Ok (r1, a')"
    and rest: "parse_set_loop f a' neg r1 = Ok (r, a1)"
    by (auto simp: parse_set_def Let_def neg_def a0_def split: result.splits)
  have "str a0 = str a" "offset a \<le> offset a0" by (simp_all add: a0_def)
  with parse_range_Ok [OF pr] parse_set_loop_Ok [OF rest] parse_set_loop_wf [OF rest]
  show ?thesis by simp
qed

lemma parse_set_reloc:
  assumes "parse_set f a = Ok (r, a1)" "agree (offset a1 - offset a + 1) a b"
  shows "parse_set f b = Ok (r, adv a a1 b)"
proof -
  define neg where "neg = (peek a = CHR ''^'')"
  define a0 where "a0 = (if neg then snd (eat a) else a)"
  from assms obtain r1 a' where pr: "parse_range a0 neg = Ok (r1, a')"
    and rest: "parse_set_loop f a' neg r1 = Ok (r, a1)"
    by (auto simp: parse_set_def Let_def neg_def a0_def split: result.splits)
  have a0: "str a0 = str a" "offset a \<le> offset a0" "offset a0 \<le> offset a + 1"
    by (simp_all add: a0_def)
  note ok = parse_range_Ok [OF pr]
  note ok2 = parse_set_loop_Ok [OF rest]
  have pb: "peek b = peek a" by (rule agree_peek [OF assms(2)]) simp
  have b0: "adv a a0 b = (if neg then snd (eat b) else b)"
    by (simp add: a0_def adv_eat [symmetric])
  have ag0: "agree (offset a1 - offset a0 + 1) a0 (adv a a0 b)"
    by (rule agree_adv [OF assms(2)]) (use a0 ok ok2 in simp_all)
  have "parse_range (adv a a0 b) neg = Ok (r1, adv a0 a' (adv a a0 b))"
  proof (rule parse_range_reloc [OF pr])
    show "agree (offset a' - offset a0 + 1) a0 (adv a a0 b)"
      by (rule agree_mono [OF ag0]) (use ok ok2 in auto)
    show "peek a' = CHR ''-'' \<longrightarrow> peekahead (adv a0 a' (adv a a0 b)) = peekahead a'"
    proof
      assume m: "peek a' = CHR ''-''"
      have "offset a' \<noteq> offset a1"
      proof
        assume "offset a' = offset a1"
        then have "peek a' = peek a1" using ok2 by (simp add: peek_char_at)
        with m ok2 show False by simp
      qed
      with ok2 have "offset a' - offset a0 + 1 < offset a1 - offset a0 + 1" using ok by auto
      from agree_at [OF ag0 this]
      show "peekahead (adv a0 a' (adv a a0 b)) = peekahead a'"
        using ok a0 by (simp add: peekahead_char_at adv_def add.assoc)
    qed
  qed
  then have 1: "parse_range (adv a a0 b) neg = Ok (r1, adv a a' b)"
    using a0 ok by (simp add: adv_adv)
  have "agree (offset a1 - offset a' + 1) a' (adv a a' b)"
    by (rule agree_adv [OF assms(2)]) (use a0 ok ok2 in simp_all)
  from parse_set_loop_reloc [OF rest this]
  have 2: "parse_set_loop f (adv a a' b) neg r1 = Ok (r, adv a a1 b)"
    using a0 ok ok2 by (simp add: adv_adv)
  show ?thesis
    using 1 2 pb b0 by (simp add: parse_set_def Let_def flip: neg_def)
qed

section \<open>Atoms, factors, terms and expressions\<close>

lemma advanced_eat: "peek a \<noteq> CHR 0x00 \<Longrightarrow> advanced a (snd (eat a))"
  using peek_nonzero [of a] by (simp add: advanced_def)

lemma advanced_trans: "advanced a b \<Longrightarrow> advanced b c \<Longrightarrow> advanced a c"
  by (simp add: advanced_def)

lemma advanced_eat_left: "advanced (snd (eat a)) b \<Longrightarrow> advanced a b"
  by (simp add: advanced_def)

lemma advanced_eat_right: "advanced a b \<Longrightarrow> peek b \<noteq> CHR 0x00 \<Longrightarrow> advanced a (snd (eat b))"
  using peek_nonzero [of b] by (simp add: advanced_def)

lemma read_element_advanced: "read_element a = Ok (c, a1) \<Longrightarrow> advanced a a1"
  using read_element_Ok [of a c a1] by (simp add: advanced_def)

lemma read_char_advanced: "read_char a = Ok (c, a1) \<Longrightarrow> advanced a a1"
  using read_char_Ok [of a c a1] by (simp add: advanced_def)

lemma parse_set_advanced: "parse_set f a = Ok (r, a1) \<Longrightarrow> advanced a a1"
  using parse_set_Ok [of f a r a1] by (simp add: advanced_def)

lemma begins_atom_simps [simp]:
  "begins_atom (CHR ''('')" "begins_atom (CHR ''['')" "begins_atom (CHR ''.'')"
  "\<not> begins_atom (CHR 0x00)" "\<not> begins_atom (CHR '')'')" "\<not> begins_atom (CHR ''|'')"
  "\<not> begins_atom (CHR ''*'')" "\<not> begins_atom (CHR ''+'')" "\<not> begins_atom (CHR ''?'')"
  by (simp_all add: begins_atom_def stops_term_def is_operator_def)

lemma begins_atom_char: "\<not> is_special c \<Longrightarrow> c \<noteq> CHR 0x00 \<Longrightarrow> begins_atom c"
  by (auto simp: begins_atom_def stops_term_def is_operator_def is_special_def)

lemma parse_Ok:
  "(\<forall>a r a1. parse_atom f a = Ok (r, a1) \<longrightarrow>
      advanced a a1 \<and> wf_regex r \<and> begins_atom (peek a)) \<and>
   (\<forall>a r a1. parse_factor f a = Ok (r, a1) \<longrightarrow>
      advanced a a1 \<and> wf_regex r \<and> begins_atom (peek a)) \<and>
   (\<forall>a r a1. parse_term f a = Ok (r, a1) \<longrightarrow>
      advanced a a1 \<and> wf_regex r \<and> begins_atom (peek a) \<and> stops_term (peek a1)) \<and>
   (\<forall>a r a1. parse_expr f a = Ok (r, a1) \<longrightarrow>
      advanced a a1 \<and> wf_regex r \<and> begins_atom (peek a) \<and> stops_expr (peek a1))"
proof (induction f)
  case 0
  show ?case by simp
next
  case (Suc f)
  note IHa = Suc [THEN conjunct1, rule_format]
  note IHf = Suc [THEN conjunct2, THEN conjunct1, rule_format]
  note IHt = Suc [THEN conjunct2, THEN conjunct2, THEN conjunct1, rule_format]
  note IHe = Suc [THEN conjunct2, THEN conjunct2, THEN conjunct2, rule_format]
  have A: "advanced a a1 \<and> wf_regex r \<and> begins_atom (peek a)"
    if "parse_atom (Suc f) a = Ok (r, a1)" for a r a1
  proof -
    consider (paren) "peek a = CHR ''(''" | (dot) "peek a = CHR ''.''" | (set) "peek a = CHR ''[''"
      | (chr) "peek a \<noteq> CHR ''(''" "peek a \<noteq> CHR ''.''" "peek a \<noteq> CHR ''[''"
      by blast
    then show ?thesis
    proof cases
      case paren
      with that obtain a' where e: "parse_expr f (snd (eat a)) = Ok (r, a')"
        and p: "peek a' = CHR '')''" and a1: "a1 = snd (eat a')"
        by (cases "parse_expr f (snd (eat a))") (auto simp: Let_def split: if_splits)
      from IHe [OF e] have "advanced (snd (eat a)) a'" "wf_regex r" by simp_all
      moreover from this p have "advanced a (snd (eat a'))"
        by (intro advanced_eat_right advanced_eat_left [of a a']) simp_all
      ultimately show ?thesis using paren a1 by simp
    next
      case dot
      with that show ?thesis
        by (auto simp: Let_def printable_def cmin_def cmax_def codepoint_def intro!: advanced_eat)
    next
      case set
      with that obtain a' where e: "parse_set f (snd (eat a)) = Ok (r, a')"
        and a1: "a1 = snd (eat a')"
        by (cases "parse_set f (snd (eat a))") (auto simp: Let_def)
      from parse_set_Ok [OF e] show ?thesis using set a1
        by (simp add: advanced_def)
    next
      case chr
      with that obtain c where e: "read_char a = Ok (c, a1)" and r: "r = Lit c c"
        by (cases "read_char a") (auto simp: Let_def)
      from read_char_Ok [OF e] read_char_advanced [OF e] show ?thesis using r
        by (auto intro: begins_atom_char)
    qed
  qed
  have F: "advanced a a1 \<and> wf_regex r \<and> begins_atom (peek a)"
    if "parse_factor (Suc f) a = Ok (r, a1)" for a r a1
  proof -
    from that obtain r0 a' where e: "parse_atom f a = Ok (r0, a')"
      by (cases "parse_atom f a") auto
    from IHa [OF e] have *: "advanced a a'" "wf_regex r0" "begins_atom (peek a)" by simp_all
    from that e have "(a1 = a' \<or> (a1 = snd (eat a') \<and> peek a' \<noteq> CHR 0x00)) \<and>
        r \<in> {r0, Star r0, Plus r0, Quest r0}"
      by (auto simp: Let_def split: if_splits)
    with * show ?thesis by (auto intro: advanced_eat_right)
  qed
  have T: "advanced a a1 \<and> wf_regex r \<and> begins_atom (peek a) \<and> stops_term (peek a1)"
    if "parse_term (Suc f) a = Ok (r, a1)" for a r a1
  proof -
    from that obtain r0 a' where e: "parse_factor f a = Ok (r0, a')"
      by (cases "parse_factor f a") auto
    from IHf [OF e] have *: "advanced a a'" "wf_regex r0" "begins_atom (peek a)" by simp_all
    show ?thesis
    proof (cases "stops_term (peek a')")
      case True
      with that e have "a1 = a'" "r = r0" by (auto simp: stops_term_def Let_def)
      with * True show ?thesis by simp
    next
      case False
      with that e obtain r1 where t: "parse_term f a' = Ok (r1, a1)" and r: "r = Cat r0 r1"
        by (cases "parse_term f a'") (auto simp: stops_term_def Let_def)
      from IHt [OF t] have "advanced a' a1" "wf_regex r1" "stops_term (peek a1)" by simp_all
      with * r show ?thesis by (auto intro: advanced_trans)
    qed
  qed
  have E: "advanced a a1 \<and> wf_regex r \<and> begins_atom (peek a) \<and> stops_expr (peek a1)"
    if "parse_expr (Suc f) a = Ok (r, a1)" for a r a1
  proof -
    from that obtain r0 a' where e: "parse_term f a = Ok (r0, a')"
      by (cases "parse_term f a") auto
    from IHt [OF e]
    have *: "advanced a a'" "wf_regex r0" "begins_atom (peek a)" "stops_term (peek a')"
      by simp_all
    show ?thesis
    proof (cases "peek a' = CHR ''|''")
      case False
      with that e have "a1 = a'" "r = r0" by auto
      with * False show ?thesis by (auto simp: stops_term_def stops_expr_def)
    next
      case True
      with that e obtain r1 where t: "parse_expr f (snd (eat a')) = Ok (r1, a1)"
        and r: "r = Alt r0 r1"
        by (cases "parse_expr f (snd (eat a'))") auto
      from IHe [OF t] have "advanced (snd (eat a')) a1" "wf_regex r1" "stops_expr (peek a1)"
        by simp_all
      moreover from this * have "advanced a a1"
        by (intro advanced_trans [OF *(1)] advanced_eat_left [of a' a1])
      ultimately show ?thesis using * r by simp
    qed
  qed
  from A F T E show ?case by blast
qed

lemmas parse_atom_Ok = parse_Ok [THEN conjunct1, rule_format]
lemmas parse_factor_Ok = parse_Ok [THEN conjunct2, THEN conjunct1, rule_format]
lemmas parse_term_Ok = parse_Ok [THEN conjunct2, THEN conjunct2, THEN conjunct1, rule_format]
lemmas parse_expr_Ok = parse_Ok [THEN conjunct2, THEN conjunct2, THEN conjunct2, rule_format]

text \<open>
  A successful reader depends only on the bytes it consumes and on the class of the byte
  it stops at: on another input that agrees on the consumed bytes, and stops the same
  way, it returns the same tree and advances as far.
\<close>

lemma adv_eat0: "snd (eat b) = adv a (snd (eat a)) b"
  by (simp add: adv_def eat_def)

lemma stops_not_operator: "stops_term c \<Longrightarrow> \<not> is_operator c"
  by (auto simp: stops_term_def is_operator_def)

lemma stops_expr_term: "stops_expr c \<Longrightarrow> stops_term c"
  by (auto simp: stops_term_def stops_expr_def)

lemma parse_reloc:
  "(\<forall>a b r a1. parse_atom f a = Ok (r, a1) \<longrightarrow> agree (offset a1 - offset a) a b \<longrightarrow>
      parse_atom f b = Ok (r, adv a a1 b)) \<and>
   (\<forall>a b r a1. parse_factor f a = Ok (r, a1) \<longrightarrow> agree (offset a1 - offset a) a b \<longrightarrow>
      (\<not> is_operator (peek a1) \<longrightarrow> \<not> is_operator (peek (adv a a1 b))) \<longrightarrow>
      parse_factor f b = Ok (r, adv a a1 b)) \<and>
   (\<forall>a b r a1. parse_term f a = Ok (r, a1) \<longrightarrow> agree (offset a1 - offset a) a b \<longrightarrow>
      stops_term (peek (adv a a1 b)) \<longrightarrow>
      parse_term f b = Ok (r, adv a a1 b)) \<and>
   (\<forall>a b r a1. parse_expr f a = Ok (r, a1) \<longrightarrow> agree (offset a1 - offset a) a b \<longrightarrow>
      stops_expr (peek (adv a a1 b)) \<longrightarrow>
      parse_expr f b = Ok (r, adv a a1 b))"
proof (induction f)
  case 0
  show ?case by simp
next
  case (Suc f)
  note IHa = Suc [THEN conjunct1, rule_format]
  note IHf = Suc [THEN conjunct2, THEN conjunct1, rule_format]
  note IHt = Suc [THEN conjunct2, THEN conjunct2, THEN conjunct1, rule_format]
  note IHe = Suc [THEN conjunct2, THEN conjunct2, THEN conjunct2, rule_format]
  have A: "parse_atom (Suc f) b = Ok (r, adv a a1 b)"
    if p: "parse_atom (Suc f) a = Ok (r, a1)" and ag: "agree (offset a1 - offset a) a b"
    for a b r a1
  proof -
    from parse_atom_Ok [OF p] have adv1: "advanced a a1" by simp
    then have pos: "0 < offset a1 - offset a" by (simp add: advanced_def)
    have pb: "peek b = peek a" by (rule agree_peek [OF ag pos])
    consider (paren) "peek a = CHR ''(''" | (dot) "peek a = CHR ''.''" | (set) "peek a = CHR ''[''"
      | (chr) "peek a \<noteq> CHR ''(''" "peek a \<noteq> CHR ''.''" "peek a \<noteq> CHR ''[''"
      by blast
    then show ?thesis
    proof cases
      case paren
      with p obtain a' where e: "parse_expr f (snd (eat a)) = Ok (r, a')"
        and cl: "peek a' = CHR '')''" and a1: "a1 = snd (eat a')"
        by (cases "parse_expr f (snd (eat a))") (auto simp: Let_def split: if_splits)
      from parse_expr_Ok [OF e] have ad: "advanced (snd (eat a)) a'" by simp
      then have le: "str a' = str a" "offset a < offset a'" by (simp_all add: advanced_def)
      have "agree (offset a' - offset (snd (eat a))) (snd (eat a)) (adv a (snd (eat a)) b)"
        by (rule agree_adv [OF ag]) (use le a1 in simp_all)
      then have ag': "agree (offset a' - offset (snd (eat a))) (snd (eat a)) (snd (eat b))"
        by (simp add: adv_eat0 [symmetric])
      have pk: "peek (adv a a' b) = peek a'"
        by (rule peek_adv [OF ag]) (use le a1 in simp_all)
      have same: "adv (snd (eat a)) a' (snd (eat b)) = adv a a' b"
        using le by (simp add: adv_def eat_def)
      have "parse_expr f (snd (eat b)) = Ok (r, adv a a' b)"
        using IHe [OF e ag'] pk cl by (simp add: same stops_expr_def)
      moreover have "snd (eat (adv a a' b)) = adv a a1 b"
        using le a1 by (simp add: adv_eat)
      ultimately show ?thesis using paren pb pk cl by (simp add: Let_def)
    next
      case dot
      with p have "a1 = snd (eat a)" "r = Lit cmin cmax" by (auto simp: Let_def)
      with dot pb show ?thesis by (simp add: Let_def adv_eat0 [symmetric])
    next
      case set
      with p obtain a' where e: "parse_set f (snd (eat a)) = Ok (r, a')"
        and a1: "a1 = snd (eat a')"
        by (cases "parse_set f (snd (eat a))") (auto simp: Let_def)
      from parse_set_Ok [OF e] have le: "str a' = str a" "offset a + 1 < offset a'" by simp_all
      have "agree (offset a' - offset (snd (eat a)) + 1) (snd (eat a)) (adv a (snd (eat a)) b)"
        by (rule agree_adv [OF ag]) (use le a1 in simp_all)
      then have ag': "agree (offset a' - offset (snd (eat a)) + 1) (snd (eat a)) (snd (eat b))"
        by (simp add: adv_eat0 [symmetric])
      have same: "adv (snd (eat a)) a' (snd (eat b)) = adv a a' b"
        using le by (simp add: adv_def eat_def)
      have "parse_set f (snd (eat b)) = Ok (r, adv a a' b)"
        using parse_set_reloc [OF e ag'] by (simp add: same)
      moreover have "snd (eat (adv a a' b)) = adv a a1 b"
        using le a1 by (simp add: adv_eat)
      ultimately show ?thesis using set pb by (simp add: Let_def)
    next
      case chr
      with p obtain c where e: "read_char a = Ok (c, a1)" and r: "r = Lit c c"
        by (cases "read_char a") (auto simp: Let_def)
      from read_char_reloc [OF e ag] chr pb r show ?thesis by (simp add: Let_def)
    qed
  qed
  have F: "parse_factor (Suc f) b = Ok (r, adv a a1 b)"
    if p: "parse_factor (Suc f) a = Ok (r, a1)" and ag: "agree (offset a1 - offset a) a b"
      and op: "\<not> is_operator (peek a1) \<longrightarrow> \<not> is_operator (peek (adv a a1 b))"
    for a b r a1
  proof -
    from p obtain r0 a' where e: "parse_atom f a = Ok (r0, a')"
      by (cases "parse_atom f a") auto
    from parse_atom_Ok [OF e] have le: "str a' = str a" "offset a < offset a'"
      by (simp_all add: advanced_def)
    show ?thesis
    proof (cases "is_operator (peek a')")
      case True
      with p e have a1: "a1 = snd (eat a')"
        by (auto simp: is_operator_def Let_def split: if_splits)
      have "agree (offset a' - offset a) a b"
        by (rule agree_mono [OF ag]) (use a1 in simp)
      from IHa [OF e this] have 1: "parse_atom f b = Ok (r0, adv a a' b)" .
      have pk: "peek (adv a a' b) = peek a'"
        by (rule peek_adv [OF ag]) (use le a1 in simp_all)
      have "snd (eat (adv a a' b)) = adv a a1 b"
        using le a1 by (simp add: adv_eat)
      with p e 1 pk True show ?thesis
        by (auto simp: Let_def is_operator_def split: if_splits)
    next
      case False
      with p e have a1: "a1 = a'" "r = r0"
        by (auto simp: is_operator_def Let_def split: if_splits)
      from IHa [OF e] ag a1 have 1: "parse_atom f b = Ok (r0, adv a a' b)" by simp
      from op False a1 have "\<not> is_operator (peek (adv a a' b))" by simp
      with 1 a1 show ?thesis by (simp add: Let_def is_operator_def)
    qed
  qed
  have T: "parse_term (Suc f) b = Ok (r, adv a a1 b)"
    if p: "parse_term (Suc f) a = Ok (r, a1)" and ag: "agree (offset a1 - offset a) a b"
      and st: "stops_term (peek (adv a a1 b))"
    for a b r a1
  proof -
    from p obtain r0 a' where e: "parse_factor f a = Ok (r0, a')"
      by (cases "parse_factor f a") auto
    from parse_factor_Ok [OF e] have le: "str a' = str a" "offset a < offset a'"
      by (simp_all add: advanced_def)
    show ?thesis
    proof (cases "stops_term (peek a')")
      case True
      with p e have a1: "a1 = a'" "r = r0" by (auto simp: stops_term_def Let_def)
      have "parse_factor f b = Ok (r0, adv a a' b)"
        by (rule IHf [OF e]) (use ag a1 st stops_not_operator in auto)
      with st a1 show ?thesis by (simp add: Let_def stops_term_def)
    next
      case False
      with p e obtain r1 where t: "parse_term f a' = Ok (r1, a1)" and r: "r = Cat r0 r1"
        by (cases "parse_term f a'") (auto simp: stops_term_def Let_def)
      from parse_term_Ok [OF t] have le1: "str a1 = str a'" "offset a' < offset a1"
        by (simp_all add: advanced_def)
      have pk: "peek (adv a a' b) = peek a'"
        by (rule peek_adv [OF ag]) (use le le1 in simp_all)
      have 1: "parse_factor f b = Ok (r0, adv a a' b)"
      proof (rule IHf [OF e])
        show "agree (offset a' - offset a) a b"
          by (rule agree_mono [OF ag]) (use le le1 in simp)
      qed (simp add: pk)
      have "agree (offset a1 - offset a') a' (adv a a' b)"
        by (rule agree_adv [OF ag]) (use le le1 in simp_all)
      from IHt [OF t this] st have "parse_term f (adv a a' b) = Ok (r1, adv a a1 b)"
        using le le1 by (simp add: adv_adv)
      with 1 pk False r show ?thesis by (simp add: Let_def stops_term_def)
    qed
  qed
  have E: "parse_expr (Suc f) b = Ok (r, adv a a1 b)"
    if p: "parse_expr (Suc f) a = Ok (r, a1)" and ag: "agree (offset a1 - offset a) a b"
      and st: "stops_expr (peek (adv a a1 b))"
    for a b r a1
  proof -
    from p obtain r0 a' where e: "parse_term f a = Ok (r0, a')"
      by (cases "parse_term f a") auto
    from parse_term_Ok [OF e] have le: "str a' = str a" "offset a < offset a'"
      by (simp_all add: advanced_def)
    show ?thesis
    proof (cases "peek a' = CHR ''|''")
      case False
      with p e have a1: "a1 = a'" "r = r0" by auto
      have "parse_term f b = Ok (r0, adv a a' b)"
        by (rule IHt [OF e]) (use ag a1 st stops_expr_term in auto)
      with st a1 show ?thesis by (auto simp: stops_expr_def)
    next
      case True
      with p e obtain r1 where t: "parse_expr f (snd (eat a')) = Ok (r1, a1)"
        and r: "r = Alt r0 r1"
        by (cases "parse_expr f (snd (eat a'))") auto
      from parse_expr_Ok [OF t] have le1: "str a1 = str a'" "offset a' + 1 < offset a1"
        by (simp_all add: advanced_def)
      have pk: "peek (adv a a' b) = peek a'"
        by (rule peek_adv [OF ag]) (use le le1 in simp_all)
      have 1: "parse_term f b = Ok (r0, adv a a' b)"
      proof (rule IHt [OF e])
        show "agree (offset a' - offset a) a b"
          by (rule agree_mono [OF ag]) (use le le1 in simp)
      qed (simp add: pk True stops_term_def)
      have "agree (offset a1 - offset (snd (eat a'))) (snd (eat a')) (adv a (snd (eat a')) b)"
        by (rule agree_adv [OF ag]) (use le le1 in simp_all)
      moreover have "adv (snd (eat a')) a1 (adv a (snd (eat a')) b) = adv a a1 b"
        using le le1 by (simp add: adv_def)
      ultimately have "parse_expr f (adv a (snd (eat a')) b) = Ok (r1, adv a a1 b)"
        using IHe [OF t, of "adv a (snd (eat a')) b"] st by simp
      then have "parse_expr f (snd (eat (adv a a' b))) = Ok (r1, adv a a1 b)"
        using le by (simp add: adv_eat)
      with 1 pk True r show ?thesis by simp
    qed
  qed
  from A F T E show ?case by blast
qed

lemmas parse_atom_reloc = parse_reloc [THEN conjunct1, rule_format]
lemmas parse_factor_reloc = parse_reloc [THEN conjunct2, THEN conjunct1, rule_format]
lemmas parse_term_reloc = parse_reloc [THEN conjunct2, THEN conjunct2, THEN conjunct1, rule_format]
lemmas parse_expr_reloc = parse_reloc [THEN conjunct2, THEN conjunct2, THEN conjunct2, rule_format]

section \<open>Fuel\<close>

lemmas parse_atom_Suc = parse_atom.simps(2)
lemmas parse_factor_Suc = parse_factor.simps(2)
lemmas parse_term_Suc = parse_term.simps(2)
lemmas parse_expr_Suc = parse_expr.simps(2)

lemma read_element_fuel [simp]: "read_element a \<noteq> OutOfFuel"
  by (simp add: read_element_def Let_def)

lemma read_char_fuel [simp]: "read_char a \<noteq> OutOfFuel"
  by (simp add: read_char_def read_escape_def Let_def)

lemma parse_range_fuel [simp]: "parse_range a neg \<noteq> OutOfFuel"
  by (simp add: parse_range_def split: result.splits)

text \<open>More fuel never changes a result that less fuel has reached.\<close>

lemma parse_set_loop_fuel_Suc:
  "parse_set_loop f a neg r \<noteq> OutOfFuel \<Longrightarrow>
   parse_set_loop (Suc f) a neg r = parse_set_loop f a neg r"
proof (induction f arbitrary: a r)
  case 0
  then show ?case by simp
next
  case (Suc f)
  show ?case
  proof (cases "peek a = CHR '']''")
    case True
    then show ?thesis by simp
  next
    case False
    show ?thesis
    proof (cases "parse_range a neg")
      case (Ok x)
      obtain r1 a' where x: "x = (r1, a')" by (cases x)
      from Suc.prems False Ok x have "parse_set_loop f a' neg (Alt r r1) \<noteq> OutOfFuel" by simp
      from Suc.IH [OF this] show ?thesis
        using False Ok x by simp
    qed (use False in simp_all)
  qed
qed

lemma parse_set_fuel_Suc:
  "parse_set f a \<noteq> OutOfFuel \<Longrightarrow> parse_set (Suc f) a = parse_set f a"
  unfolding parse_set_def Let_def
  by (cases "parse_range (if peek a = CHR ''^'' then snd (eat a) else a) (peek a = CHR ''^'')")
     (auto simp del: parse_set_loop.simps intro: parse_set_loop_fuel_Suc)

lemma parse_fuel_Suc:
  "(\<forall>a. parse_atom f a \<noteq> OutOfFuel \<longrightarrow> parse_atom (Suc f) a = parse_atom f a) \<and>
   (\<forall>a. parse_factor f a \<noteq> OutOfFuel \<longrightarrow> parse_factor (Suc f) a = parse_factor f a) \<and>
   (\<forall>a. parse_term f a \<noteq> OutOfFuel \<longrightarrow> parse_term (Suc f) a = parse_term f a) \<and>
   (\<forall>a. parse_expr f a \<noteq> OutOfFuel \<longrightarrow> parse_expr (Suc f) a = parse_expr f a)"
proof (induction f)
  case 0
  show ?case by simp
next
  case (Suc f)
  note IHa = Suc [THEN conjunct1, rule_format]
  note IHf = Suc [THEN conjunct2, THEN conjunct1, rule_format]
  note IHt = Suc [THEN conjunct2, THEN conjunct2, THEN conjunct1, rule_format]
  note IHe = Suc [THEN conjunct2, THEN conjunct2, THEN conjunct2, rule_format]
  have A: "parse_atom (Suc (Suc f)) a = parse_atom (Suc f) a"
    if "parse_atom (Suc f) a \<noteq> OutOfFuel" for a
  proof -
    have 1: "parse_expr (Suc f) (snd (eat a)) = parse_expr f (snd (eat a))"
      if "peek a = CHR ''(''"
      using that \<open>parse_atom (Suc f) a \<noteq> OutOfFuel\<close>
      by (intro IHe) (auto simp: Let_def split: result.splits)
    have 2: "parse_set (Suc f) (snd (eat a)) = parse_set f (snd (eat a))"
      if "peek a = CHR ''[''"
      using that \<open>parse_atom (Suc f) a \<noteq> OutOfFuel\<close>
      by (intro parse_set_fuel_Suc) (auto simp: Let_def split: result.splits)
    show ?thesis using 1 2
      by (simp add: Let_def del: parse_expr_Suc parse_set_loop.simps)
  qed
  have F: "parse_factor (Suc (Suc f)) a = parse_factor (Suc f) a"
    if "parse_factor (Suc f) a \<noteq> OutOfFuel" for a
  proof -
    have "parse_atom f a \<noteq> OutOfFuel" using that by (auto split: result.splits)
    from IHa [OF this] show ?thesis
      by (simp del: parse_atom_Suc)
  qed
  have T: "parse_term (Suc (Suc f)) a = parse_term (Suc f) a"
    if "parse_term (Suc f) a \<noteq> OutOfFuel" for a
  proof -
    have 0: "parse_factor f a \<noteq> OutOfFuel" using that by (auto split: result.splits)
    have 1: "parse_term (Suc f) a' = parse_term f a'"
      if "parse_factor f a = Ok (r, a')" "\<not> stops_term (peek a')" for r a'
      using that \<open>parse_term (Suc f) a \<noteq> OutOfFuel\<close>
      by (intro IHt) (auto simp: Let_def stops_term_def split: result.splits)
    show ?thesis
      unfolding parse_term_Suc [of "Suc f" a] parse_term_Suc [of f a] IHf [OF 0]
      by (auto simp: Let_def stops_term_def 1 simp del: parse_term_Suc split: result.splits)
  qed
  have E: "parse_expr (Suc (Suc f)) a = parse_expr (Suc f) a"
    if "parse_expr (Suc f) a \<noteq> OutOfFuel" for a
  proof -
    have 0: "parse_term f a \<noteq> OutOfFuel" using that by (auto split: result.splits)
    have 1: "parse_expr (Suc f) (snd (eat a')) = parse_expr f (snd (eat a'))"
      if "parse_term f a = Ok (r, a')" "peek a' = CHR ''|''" for r a'
      using that \<open>parse_expr (Suc f) a \<noteq> OutOfFuel\<close>
      by (intro IHe) (auto simp: Let_def split: result.splits)
    show ?thesis
      unfolding parse_expr_Suc [of "Suc f" a] parse_expr_Suc [of f a] IHt [OF 0]
      by (auto simp: Let_def 1 simp del: parse_expr_Suc split: result.splits)
  qed
  from A F T E show ?case by blast
qed

lemma parse_expr_fuel:
  assumes "parse_expr f a \<noteq> OutOfFuel" "f \<le> f'"
  shows "parse_expr f' a = parse_expr f a"
  using assms(2,1)
proof (induction rule: dec_induct)
  case base
  show ?case by simp
next
  case (step n)
  then have "parse_expr n a \<noteq> OutOfFuel" by simp
  with parse_fuel_Suc [of n] step show ?case by simp
qed

lemma parse_term_fuel:
  assumes "parse_term f a \<noteq> OutOfFuel" "f \<le> f'"
  shows "parse_term f' a = parse_term f a"
  using assms(2,1)
proof (induction rule: dec_induct)
  case base
  show ?case by simp
next
  case (step n)
  then have "parse_term n a \<noteq> OutOfFuel" by simp
  with parse_fuel_Suc [of n] step show ?case by simp
qed

text \<open>Four units of fuel for each remaining byte are enough.\<close>

lemma parse_set_loop_enough:
  "length (str a) - offset a < f \<Longrightarrow> parse_set_loop f a neg r \<noteq> OutOfFuel"
proof (induction f arbitrary: a r)
  case 0
  then show ?case by simp
next
  case (Suc f)
  show ?case
  proof (cases "parse_range a neg")
    case (Ok x)
    obtain r1 a' where x: "x = (r1, a')" by (cases x)
    from parse_range_Ok [of a neg r1 a'] Ok x Suc.prems
    have "length (str a') - offset a' < f" by simp
    from Suc.IH [OF this] show ?thesis using Ok x by simp
  qed simp_all
qed

lemma parse_set_enough:
  "length (str a) - offset a \<le> f \<Longrightarrow> parse_set f a \<noteq> OutOfFuel"
proof -
  assume le: "length (str a) - offset a \<le> f"
  define neg where "neg = (peek a = CHR ''^'')"
  define a0 where "a0 = (if neg then snd (eat a) else a)"
  have a0: "str a0 = str a" "offset a \<le> offset a0" by (simp_all add: a0_def)
  show ?thesis
  proof (cases "parse_range a0 neg")
    case (Ok x)
    obtain r1 a' where x: "x = (r1, a')" by (cases x)
    from parse_range_Ok [of a0 neg r1 a'] Ok x le a0
    have "length (str a') - offset a' < f" by simp
    from parse_set_loop_enough [OF this] show ?thesis
      using Ok x by (simp add: parse_set_def Let_def flip: neg_def a0_def)
  qed (simp_all add: parse_set_def Let_def flip: neg_def a0_def)
qed

lemma parse_enough:
  "(\<forall>a. 4 * (length (str a) - offset a) + 1 \<le> f \<longrightarrow> parse_atom f a \<noteq> OutOfFuel) \<and>
   (\<forall>a. 4 * (length (str a) - offset a) + 2 \<le> f \<longrightarrow> parse_factor f a \<noteq> OutOfFuel) \<and>
   (\<forall>a. 4 * (length (str a) - offset a) + 3 \<le> f \<longrightarrow> parse_term f a \<noteq> OutOfFuel) \<and>
   (\<forall>a. 4 * (length (str a) - offset a) + 4 \<le> f \<longrightarrow> parse_expr f a \<noteq> OutOfFuel)"
proof (induction f)
  case 0
  show ?case by simp
next
  case (Suc f)
  note IHa = Suc [THEN conjunct1, rule_format]
  note IHf = Suc [THEN conjunct2, THEN conjunct1, rule_format]
  note IHt = Suc [THEN conjunct2, THEN conjunct2, THEN conjunct1, rule_format]
  note IHe = Suc [THEN conjunct2, THEN conjunct2, THEN conjunct2, rule_format]
  have A: "parse_atom (Suc f) a \<noteq> OutOfFuel"
    if le: "4 * (length (str a) - offset a) + 1 \<le> Suc f" for a
  proof -
    have 1: "parse_expr f (snd (eat a)) \<noteq> OutOfFuel" if "peek a = CHR ''(''"
    proof (rule IHe)
      from that have "offset a < length (str a)" by (intro peek_nonzero) simp
      with le show "4 * (length (str (snd (eat a))) - offset (snd (eat a))) + 4 \<le> f" by simp
    qed
    have 2: "parse_set f (snd (eat a)) \<noteq> OutOfFuel"
      by (rule parse_set_enough) (use le in simp)
    show ?thesis using 1 2
      by (cases "read_char a") (auto simp: Let_def split: result.splits)
  qed
  have F: "parse_factor (Suc f) a \<noteq> OutOfFuel"
    if le: "4 * (length (str a) - offset a) + 2 \<le> Suc f" for a
  proof -
    have "parse_atom f a \<noteq> OutOfFuel" by (rule IHa) (use le in simp)
    then show ?thesis by (auto simp: Let_def split: result.splits)
  qed
  have T: "parse_term (Suc f) a \<noteq> OutOfFuel"
    if le: "4 * (length (str a) - offset a) + 3 \<le> Suc f" for a
  proof -
    have 0: "parse_factor f a \<noteq> OutOfFuel" by (rule IHf) (use le in simp)
    have 1: "parse_term f a' \<noteq> OutOfFuel" if "parse_factor f a = Ok (r, a')" for r a'
    proof (rule IHt)
      from parse_factor_Ok [OF that]
      have "length (str a') - offset a' < length (str a) - offset a"
        by (auto simp: advanced_def)
      with le show "4 * (length (str a') - offset a') + 3 \<le> f" by simp
    qed
    show ?thesis using 0 1 by (auto simp: Let_def split: result.splits)
  qed
  have E: "parse_expr (Suc f) a \<noteq> OutOfFuel"
    if le: "4 * (length (str a) - offset a) + 4 \<le> Suc f" for a
  proof -
    have 0: "parse_term f a \<noteq> OutOfFuel" by (rule IHt) (use le in simp)
    have 1: "parse_expr f (snd (eat a')) \<noteq> OutOfFuel" if "parse_term f a = Ok (r, a')" for r a'
    proof (rule IHe)
      from parse_term_Ok [OF that]
      have "length (str a') - offset a' < length (str a) - offset a"
        by (auto simp: advanced_def)
      with le show "4 * (length (str (snd (eat a'))) - offset (snd (eat a'))) + 4 \<le> f"
        by simp
    qed
    show ?thesis using 0 1 by (auto simp: Let_def split: result.splits)
  qed
  from A F T E show ?case by blast
qed

lemma parse_expr_enough: "parse_expr (compile_fuel p) \<lparr>str = p, offset = 0\<rparr> \<noteq> OutOfFuel"
  using parse_enough [of "compile_fuel p"] by (simp add: compile_fuel_def)

section \<open>Compilation\<close>

lemmas read_expr_emit = read_emit [THEN conjunct2, THEN conjunct2, THEN conjunct2, rule_format]
lemmas read_term_emit = read_emit [THEN conjunct2, THEN conjunct2, THEN conjunct1, rule_format]

lemma rerex_compile_parse:
  "rerex_compile p =
     (case parse_expr (compile_fuel p) \<lparr>str = p, offset = 0\<rparr> of
        Ok (r, a1) \<Rightarrow>
          (case build r [split_state NO_STATE NO_STATE] of
             (nfa, s1) \<Rightarrow> Ok (offset a1, \<lparr>states = s1, start = nfa_start nfa\<rparr>))
      | Error st e \<Rightarrow> Error st e
      | OutOfFuel \<Rightarrow> OutOfFuel)"
  by (simp add: rerex_compile_def add_state_def read_expr_emit Let_def
      split: result.splits prod.splits)

lemma rerex_compile_fuel: "rerex_compile p \<noteq> OutOfFuel"
  using parse_expr_enough [of p]
  by (simp add: rerex_compile_parse split: result.splits prod.splits)

lemma rerex_compile_OkD:
  assumes "rerex_compile p = Ok (n, re)"
  obtains r a1 nfa where
    "parse_expr (compile_fuel p) \<lparr>str = p, offset = 0\<rparr> = Ok (r, a1)" "offset a1 = n"
    "build r [split_state NO_STATE NO_STATE] = (nfa, states re)" "start re = nfa_start nfa"
  using assms
  by (auto simp: rerex_compile_parse split: result.splits prod.splits)

lemma rerex_compile_OkI:
  assumes "parse_expr f \<lparr>str = p, offset = 0\<rparr> = Ok (r, a1)"
    "build r [split_state NO_STATE NO_STATE] = (nfa, s1)"
  shows "rerex_compile p = Ok (offset a1, \<lparr>states = s1, start = nfa_start nfa\<rparr>)"
proof -
  have "parse_expr (compile_fuel p) \<lparr>str = p, offset = 0\<rparr> = Ok (r, a1)"
  proof (cases "f \<le> compile_fuel p")
    case True
    from parse_expr_fuel [OF _ True, of "\<lparr>str = p, offset = 0\<rparr>"] assms(1)
    show ?thesis by simp
  next
    case False
    then have "compile_fuel p \<le> f" by simp
    from parse_expr_fuel [OF parse_expr_enough this] assms(1) show ?thesis by simp
  qed
  with assms(2) show ?thesis by (simp add: rerex_compile_parse)
qed

lemma char_at_append1: "i < length xs \<Longrightarrow> char_at (xs @ ys) i = char_at xs i"
  by (simp add: char_at_def nth_append)

lemma char_at_append2: "char_at (xs @ ys) (length xs + i) = char_at ys i"
  by (simp add: char_at_def nth_append)

lemma agree_prefix: "agree (length xs) \<lparr>str = xs, offset = 0\<rparr> \<lparr>str = xs @ ys, offset = 0\<rparr>"
  by (simp add: agree_def char_at_append1)

lemma agree_suffix:
  "agree n \<lparr>str = ys, offset = 0\<rparr> \<lparr>str = xs @ ys, offset = length xs\<rparr>"
  by (simp add: agree_def char_at_append2)

section \<open>Errors and their offsets\<close>

lemma read_char_Error:
  assumes "read_char a = Error st e" "offset a \<le> length (str a)"
  shows "reported st (str a) e"
proof (cases "peek a = CHR 0x5C")
  case True
  then have lt: "offset a < length (str a)" by (intro peek_nonzero) simp
  from assms True have "st = REREX_EXPECTED_SPECIAL" "e = Suc (offset a)"
    "\<not> is_special (peek (snd (eat a)))" "peek (snd (eat a)) \<noteq> CHR ''-''"
    by (auto simp: read_char_def read_escape_def Let_def split: if_splits)
  with True lt show ?thesis
    by (simp add: reported_def peek_char_at)
next
  case False
  with assms show ?thesis
    by (auto simp: read_char_def Let_def reported_def peek_char_at printable_def
        split: if_splits)
qed

lemma read_element_Error:
  assumes "read_element a = Error st e" "offset a \<le> length (str a)"
  shows "reported st (str a) e"
proof (cases "peek a = CHR 0x5C")
  case True
  then have lt: "offset a < length (str a)" by (intro peek_nonzero) simp
  from assms True have "st = REREX_EXPECTED_RBRACKET" "e = Suc (offset a)"
    "peek (snd (eat a)) \<noteq> CHR '']''"
    by (auto simp: read_element_def Let_def split: if_splits)
  with True lt show ?thesis
    by (simp add: reported_def peek_char_at)
next
  case False
  with assms show ?thesis
    by (auto simp: read_element_def Let_def reported_def peek_char_at printable_def
        is_special_def split: if_splits)
qed

lemma read_element_last:
  assumes "read_element a = Ok (c, a1)"
  shows "c = char_at (str a) (offset a1 - 1) \<and>
         (offset a1 = offset a + 1 \<or>
          (offset a1 = offset a + 2 \<and> char_at (str a) (offset a) = CHR 0x5C))"
  using read_element_shape [OF assms] by (auto simp: peek_char_at)

lemma read_element_not_unordered: "read_element a \<noteq> Error REREX_UNORDERED_RANGE e"
  by (auto simp: read_element_def Let_def)

lemma parse_range_unordered:
  "parse_range a neg = Error REREX_UNORDERED_RANGE e \<longleftrightarrow>
     (\<exists>mn a' mx a1. read_element a = Ok (mn, a') \<and> peek a' = CHR ''-'' \<and>
        peekahead a' \<noteq> CHR '']'' \<and> read_element (snd (eat a')) = Ok (mx, a1) \<and>
        codepoint mx < codepoint mn \<and> e = offset a1)"
proof (cases "read_element a")
  case (Ok x)
  obtain mn a' where x: "x = (mn, a')" by (cases x)
  show ?thesis
  proof (cases "peek a' = CHR ''-'' \<and> peekahead a' \<noteq> CHR '']''")
    case True
    show ?thesis
    proof (cases "read_element (snd (eat a'))")
      case (Ok y)
      obtain mx a1 where y: "y = (mx, a1)" by (cases y)
      show ?thesis
        using \<open>read_element a = Ok x\<close> x True Ok y by (auto simp: parse_range_def)
    next
      case (Error st' e')
      then show ?thesis
        using \<open>read_element a = Ok x\<close> x True read_element_not_unordered [of "snd (eat a')"]
        by (auto simp: parse_range_def)
    next
      case OutOfFuel
      then show ?thesis by simp
    qed
  next
    case False
    with Ok x show ?thesis by (auto simp: parse_range_def)
  qed
next
  case (Error st' e')
  then show ?thesis using read_element_not_unordered [of a] by (auto simp: parse_range_def)
next
  case OutOfFuel
  then show ?thesis by simp
qed

lemma parse_range_Error:
  assumes "parse_range a neg = Error st e" "offset a \<le> length (str a)"
  shows "reported st (str a) e"
proof (cases "read_element a")
  case (Ok x)
  obtain mn a' where x: "x = (mn, a')" by (cases x)
  note ok = read_element_Ok [of a mn a'] read_element_last [of a mn a']
  show ?thesis
  proof (cases "peek a' = CHR ''-'' \<and> peekahead a' \<noteq> CHR '']''")
    case True
    then have lt: "offset a' < length (str a')" by (intro peek_nonzero) simp
    show ?thesis
    proof (cases "read_element (snd (eat a'))")
      case (Ok y)
      obtain mx a1 where y: "y = (mx, a1)" by (cases y)
      note ok2 = read_element_Ok [of "snd (eat a')" mx a1] read_element_last [of "snd (eat a')" mx a1]
      from assms \<open>read_element a = Ok x\<close> x True Ok y
      have st: "st = REREX_UNORDERED_RANGE" "e = offset a1" "codepoint mx < codepoint mn"
        by (auto simp: parse_range_def split: if_splits)
      have "offending REREX_UNORDERED_RANGE (str a) (offset a1 - 1)"
        unfolding offending.simps
      proof (intro exI [of _ "offset a' - 1"] conjI)
        show "offset a' - 1 < offset a1 - 1"
          using ok ok2 \<open>read_element a = Ok x\<close> x Ok y by auto
        show "char_at (str a) (offset a' - 1 + 1) = CHR ''-''"
          using ok \<open>read_element a = Ok x\<close> x True by (auto simp: peek_char_at)
        show "codepoint (char_at (str a) (offset a1 - 1)) < codepoint (char_at (str a) (offset a' - 1))"
          using ok ok2 \<open>read_element a = Ok x\<close> x Ok y st by auto
        show "offset a1 - 1 = offset a' - 1 + 2 \<or>
              offset a1 - 1 = offset a' - 1 + 3 \<and> char_at (str a) (offset a' - 1 + 2) = CHR 0x5C"
          using ok ok2 \<open>read_element a = Ok x\<close> x Ok y by auto
      qed
      moreover have "0 < offset a1" "offset a1 \<le> length (str a)"
        using ok ok2 \<open>read_element a = Ok x\<close> x Ok y by auto
      ultimately show ?thesis using st by (simp add: reported_def)
    next
      case (Error st' e')
      with assms \<open>read_element a = Ok x\<close> x True have "st' = st" "e' = e"
        by (auto simp: parse_range_def)
      with read_element_Error [of "snd (eat a')" st e] Error lt ok \<open>read_element a = Ok x\<close> x
      show ?thesis by simp
    next
      case OutOfFuel
      then show ?thesis by simp
    qed
  next
    case False
    with assms Ok x show ?thesis by (auto simp: parse_range_def split: if_splits)
  qed
next
  case (Error st' e')
  with assms have "st' = st" "e' = e" by (auto simp: parse_range_def)
  with read_element_Error [of a st e] Error assms(2) show ?thesis by simp
next
  case OutOfFuel
  then show ?thesis by simp
qed

lemma parse_set_loop_Error:
  assumes "parse_set_loop f a neg r = Error st e" "offset a \<le> length (str a)"
  shows "reported st (str a) e"
  using assms
proof (induction f arbitrary: a r)
  case 0
  then show ?case by simp
next
  case (Suc f)
  show ?case
  proof (cases "peek a = CHR '']''")
    case True
    with Suc.prems show ?thesis by simp
  next
    case False
    show ?thesis
    proof (cases "parse_range a neg")
      case (Ok x)
      obtain r1 a' where x: "x = (r1, a')" by (cases x)
      from Suc.prems False Ok x have "parse_set_loop f a' neg (Alt r r1) = Error st e" by simp
      from Suc.IH [OF this] parse_range_Ok [of a neg r1 a'] Ok x show ?thesis by simp
    next
      case (Error st' e')
      with Suc.prems False have "st' = st" "e' = e" by simp_all
      with parse_range_Error [of a neg st e] Error Suc.prems(2) show ?thesis by simp
    next
      case OutOfFuel
      then show ?thesis by simp
    qed
  qed
qed

lemma parse_set_Error:
  assumes "parse_set f a = Error st e" "offset a \<le> length (str a)"
  shows "reported st (str a) e"
proof -
  define neg where "neg = (peek a = CHR ''^'')"
  define a0 where "a0 = (if neg then snd (eat a) else a)"
  have "neg \<Longrightarrow> offset a < length (str a)"
    unfolding neg_def by (intro peek_nonzero) simp
  then have a0: "str a0 = str a" "offset a0 \<le> length (str a)"
    using assms(2) by (auto simp: a0_def)
  show ?thesis
  proof (cases "parse_range a0 neg")
    case (Ok x)
    obtain r1 a' where x: "x = (r1, a')" by (cases x)
    from assms Ok x have "parse_set_loop f a' neg r1 = Error st e"
      by (simp add: parse_set_def Let_def flip: neg_def a0_def)
    from parse_set_loop_Error [OF this] parse_range_Ok [of a0 neg r1 a'] Ok x a0
    show ?thesis by simp
  next
    case (Error st' e')
    with assms have "st' = st" "e' = e"
      by (simp_all add: parse_set_def Let_def flip: neg_def a0_def)
    with parse_range_Error [of a0 neg st e] Error a0 show ?thesis by simp
  next
    case OutOfFuel
    then show ?thesis by simp
  qed
qed

lemma parse_Error:
  "(\<forall>a st e. parse_atom f a = Error st e \<longrightarrow> offset a \<le> length (str a) \<longrightarrow>
      reported st (str a) e) \<and>
   (\<forall>a st e. parse_factor f a = Error st e \<longrightarrow> offset a \<le> length (str a) \<longrightarrow>
      reported st (str a) e) \<and>
   (\<forall>a st e. parse_term f a = Error st e \<longrightarrow> offset a \<le> length (str a) \<longrightarrow>
      reported st (str a) e) \<and>
   (\<forall>a st e. parse_expr f a = Error st e \<longrightarrow> offset a \<le> length (str a) \<longrightarrow>
      reported st (str a) e)"
proof (induction f)
  case 0
  show ?case by simp
next
  case (Suc f)
  note IHa = Suc [THEN conjunct1, rule_format]
  note IHf = Suc [THEN conjunct2, THEN conjunct1, rule_format]
  note IHt = Suc [THEN conjunct2, THEN conjunct2, THEN conjunct1, rule_format]
  note IHe = Suc [THEN conjunct2, THEN conjunct2, THEN conjunct2, rule_format]
  have A: "reported st (str a) e"
    if p: "parse_atom (Suc f) a = Error st e" and le: "offset a \<le> length (str a)" for a st e
  proof -
    consider (paren) "peek a = CHR ''(''" | (dot) "peek a = CHR ''.''" | (set) "peek a = CHR ''[''"
      | (chr) "peek a \<noteq> CHR ''(''" "peek a \<noteq> CHR ''.''" "peek a \<noteq> CHR ''[''"
      by blast
    then show ?thesis
    proof cases
      case paren
      then have lt: "offset (snd (eat a)) \<le> length (str (snd (eat a)))"
        using peek_nonzero [of a] by simp
      show ?thesis
      proof (cases "parse_expr f (snd (eat a))")
        case (Ok x)
        obtain r a' where x: "x = (r, a')" by (cases x)
        from p paren Ok x have "st = REREX_EXPECTED_RPAREN" "e = offset a'"
          "peek a' \<noteq> CHR '')''"
          by (auto simp: Let_def split: if_splits)
        with parse_expr_Ok [of f "snd (eat a)" r a'] Ok x show ?thesis
          by (simp add: reported_def advanced_def peek_char_at)
      next
        case (Error st' e')
        with p paren have "st' = st" "e' = e" by (simp_all add: Let_def)
        with IHe [of "snd (eat a)" st e] Error lt show ?thesis by simp
      next
        case OutOfFuel
        with p paren show ?thesis by (simp add: Let_def)
      qed
    next
      case dot
      with p show ?thesis by (simp add: Let_def)
    next
      case set
      then have lt: "offset (snd (eat a)) \<le> length (str (snd (eat a)))"
        using peek_nonzero [of a] by simp
      from p set have "parse_set f (snd (eat a)) = Error st e"
        by (cases "parse_set f (snd (eat a))") (auto simp: Let_def)
      from parse_set_Error [OF this lt] show ?thesis by simp
    next
      case chr
      with p have "read_char a = Error st e"
        by (cases "read_char a") (auto simp: Let_def)
      from read_char_Error [OF this le] show ?thesis .
    qed
  qed
  have F: "reported st (str a) e"
    if p: "parse_factor (Suc f) a = Error st e" and le: "offset a \<le> length (str a)" for a st e
  proof -
    from p have "parse_atom f a = Error st e"
      by (cases "parse_atom f a") (auto simp: Let_def split: if_splits)
    from IHa [OF this le] show ?thesis .
  qed
  have T: "reported st (str a) e"
    if p: "parse_term (Suc f) a = Error st e" and le: "offset a \<le> length (str a)" for a st e
  proof (cases "parse_factor f a")
    case (Ok x)
    obtain r a' where x: "x = (r, a')" by (cases x)
    from p Ok x have "parse_term f a' = Error st e"
      by (cases "parse_term f a'") (auto simp: Let_def split: if_splits)
    from IHt [OF this] parse_factor_Ok [of f a r a'] Ok x show ?thesis
      by (simp add: advanced_def)
  next
    case (Error st' e')
    with p have "st' = st" "e' = e" by simp_all
    with IHf [of a st e] Error le show ?thesis by simp
  next
    case OutOfFuel
    with p show ?thesis by simp
  qed
  have E: "reported st (str a) e"
    if p: "parse_expr (Suc f) a = Error st e" and le: "offset a \<le> length (str a)" for a st e
  proof (cases "parse_term f a")
    case (Ok x)
    obtain r a' where x: "x = (r, a')" by (cases x)
    from p Ok x have bar: "peek a' = CHR ''|''" and
      "parse_expr f (snd (eat a')) = Error st e"
      by (cases "parse_expr f (snd (eat a'))"; auto split: if_splits)+
    moreover from bar have "offset a' < length (str a')" by (intro peek_nonzero) simp
    ultimately show ?thesis
      using IHe [of "snd (eat a')" st e] parse_term_Ok [of f a r a'] Ok x
      by (simp add: advanced_def)
  next
    case (Error st' e')
    with p have "st' = st" "e' = e" by simp_all
    with IHt [of a st e] Error le show ?thesis by simp
  next
    case OutOfFuel
    with p show ?thesis by simp
  qed
  from A F T E show ?case by blast
qed

lemma rerex_compile_Error:
  "rerex_compile p = Error st e \<longleftrightarrow>
   parse_expr (compile_fuel p) \<lparr>str = p, offset = 0\<rparr> = Error st e"
  by (auto simp: rerex_compile_parse split: result.splits prod.splits)

text \<open>An error is raised at or after the cursor, and depends only on the bytes up to it.\<close>

lemma same_upto_peek:
  "same_upto (str a) q d \<Longrightarrow> offset a \<le> d \<Longrightarrow> peek (a\<lparr>str := q\<rparr>) = peek a"
  by (simp add: same_upto_def peek_char_at)

lemma same_upto_peekahead:
  "same_upto (str a) q d \<Longrightarrow> offset a < d \<Longrightarrow> peekahead (a\<lparr>str := q\<rparr>) = peekahead a"
  by (simp add: same_upto_def peekahead_char_at)

lemma same_upto_agree:
  "same_upto (str a) q d \<Longrightarrow> offset a + n \<le> Suc d \<Longrightarrow> agree n a (a\<lparr>str := q\<rparr>)"
  by (simp add: same_upto_def agree_def)

lemma adv_str: "str a1 = str a \<Longrightarrow> offset a \<le> offset a1 \<Longrightarrow> adv a a1 (a\<lparr>str := q\<rparr>) = a1\<lparr>str := q\<rparr>"
  by (simp add: adv_def)

lemma eat_str: "snd (eat (a\<lparr>str := q\<rparr>)) = (snd (eat a))\<lparr>str := q\<rparr>"
  by (simp add: eat_def)

lemma dpos_simps [simp]:
  "st \<noteq> REREX_UNORDERED_RANGE \<Longrightarrow> dpos st e = e"
  "dpos REREX_UNORDERED_RANGE e = e - 1"
  by (simp_all add: dpos_def)

lemma read_char_local:
  assumes "read_char a = Error st e"
  shows "st \<noteq> REREX_UNORDERED_RANGE" "offset a \<le> e"
    "same_upto (str a) q e \<Longrightarrow> read_char (a\<lparr>str := q\<rparr>) = Error st e"
proof -
  show "st \<noteq> REREX_UNORDERED_RANGE" "offset a \<le> e"
    using assms by (auto simp: read_char_def read_escape_def Let_def split: if_splits)
  assume s: "same_upto (str a) q e"
  show "read_char (a\<lparr>str := q\<rparr>) = Error st e"
  proof (cases "peek a = CHR 0x5C")
    case True
    with assms have e: "e = Suc (offset a)"
      by (auto simp: read_char_def read_escape_def Let_def split: if_splits)
    have "peek (a\<lparr>str := q\<rparr>) = peek a"
      by (rule same_upto_peek [OF s]) (simp add: e)
    moreover have "peek (snd (eat (a\<lparr>str := q\<rparr>))) = peek (snd (eat a))"
      using same_upto_peek [of "snd (eat a)" q e] s e by (simp add: eat_str)
    ultimately show ?thesis using assms True
      by (auto simp: read_char_def read_escape_def Let_def split: if_splits)
  next
    case False
    with assms have e: "e = offset a"
      by (auto simp: read_char_def Let_def split: if_splits)
    have "peek (a\<lparr>str := q\<rparr>) = peek a"
      by (rule same_upto_peek [OF s]) (simp add: e)
    then show ?thesis using assms False
      by (auto simp: read_char_def Let_def split: if_splits)
  qed
qed

lemma read_element_local:
  assumes "read_element a = Error st e"
  shows "st \<noteq> REREX_UNORDERED_RANGE" "offset a \<le> e"
    "same_upto (str a) q e \<Longrightarrow> read_element (a\<lparr>str := q\<rparr>) = Error st e"
proof -
  show "st \<noteq> REREX_UNORDERED_RANGE" "offset a \<le> e"
    using assms by (auto simp: read_element_def Let_def split: if_splits)
  assume s: "same_upto (str a) q e"
  show "read_element (a\<lparr>str := q\<rparr>) = Error st e"
  proof (cases "peek a = CHR 0x5C")
    case True
    with assms have e: "e = Suc (offset a)"
      by (auto simp: read_element_def Let_def split: if_splits)
    have "peek (a\<lparr>str := q\<rparr>) = peek a"
      by (rule same_upto_peek [OF s]) (simp add: e)
    moreover have "peek (snd (eat (a\<lparr>str := q\<rparr>))) = peek (snd (eat a))"
      using same_upto_peek [of "snd (eat a)" q e] s e by (simp add: eat_str)
    ultimately show ?thesis using assms True
      by (auto simp: read_element_def Let_def split: if_splits)
  next
    case False
    with assms have e: "e = offset a"
      by (auto simp: read_element_def Let_def split: if_splits)
    have "peek (a\<lparr>str := q\<rparr>) = peek a"
      by (rule same_upto_peek [OF s]) (simp add: e)
    then show ?thesis using assms False
      by (auto simp: read_element_def Let_def split: if_splits)
  qed
qed

lemma read_element_str:
  assumes "read_element a = Ok (c, a1)" "same_upto (str a) q d" "offset a1 \<le> Suc d"
  shows "read_element (a\<lparr>str := q\<rparr>) = Ok (c, a1\<lparr>str := q\<rparr>)"
proof -
  note ok = read_element_Ok [OF assms(1)]
  have "agree (offset a1 - offset a) a (a\<lparr>str := q\<rparr>)"
    by (rule same_upto_agree [OF assms(2)]) (use ok assms(3) in simp)
  from read_element_reloc [OF assms(1) this] show ?thesis
    using ok by (simp add: adv_str)
qed

lemma parse_range_local:
  assumes "parse_range a neg = Error st e"
  shows "offset a \<le> dpos st e"
    "read_element a = Ok (c, a1) \<Longrightarrow> offset a1 < dpos st e"
    "same_upto (str a) q (dpos st e) \<Longrightarrow> parse_range (a\<lparr>str := q\<rparr>) neg = Error st e"
proof -
  have "offset a \<le> dpos st e \<and> (read_element a = Ok (c, a1) \<longrightarrow> offset a1 < dpos st e) \<and>
    (same_upto (str a) q (dpos st e) \<longrightarrow> parse_range (a\<lparr>str := q\<rparr>) neg = Error st e)"
  proof (cases "read_element a")
    case (Error st' e')
    with assms have eq: "st' = st" "e' = e" by (auto simp: parse_range_def)
    note l = read_element_local [OF Error [unfolded eq]]
    from l(1,2) l(3) [of q] Error show ?thesis
      by (auto simp: parse_range_def)
  next
    case OutOfFuel
    then show ?thesis by simp
  next
    case (Ok x)
    obtain mn a' where x: "x = (mn, a')" by (cases x)
    note ok = read_element_Ok [of a mn a'] 
    from Ok x ok have ok1: "str a' = str a" "offset a < offset a'" by simp_all
    show ?thesis
    proof (cases "peek a' = CHR ''-'' \<and> peekahead a' \<noteq> CHR '']''")
      case False
      with assms Ok x show ?thesis by (auto simp: parse_range_def split: if_splits)
    next
      case True
      show ?thesis
      proof (cases "read_element (snd (eat a'))")
        case OutOfFuel
        then show ?thesis by simp
      next
        case (Error st' e')
        with assms Ok x True have eq: "st' = st" "e' = e" by (auto simp: parse_range_def)
        note l = read_element_local [OF Error [unfolded eq]]
        from l(1,2) have d: "dpos st e = e" "offset a' < e" by simp_all
        have "parse_range (a\<lparr>str := q\<rparr>) neg = Error st e" if s: "same_upto (str a) q e"
        proof -
          have 1: "read_element (a\<lparr>str := q\<rparr>) = Ok (mn, a'\<lparr>str := q\<rparr>)"
            by (rule read_element_str [OF _ s]) (use Ok x d in simp_all)
          have 2: "peek (a'\<lparr>str := q\<rparr>) = peek a'"
            using same_upto_peek [of a' q e] s ok1 d by simp
          have 3: "peekahead (a'\<lparr>str := q\<rparr>) = peekahead a'"
            using same_upto_peekahead [of a' q e] s ok1 d by simp
          have 4: "read_element (snd (eat (a'\<lparr>str := q\<rparr>))) = Error st e"
            using l(3) [of q] s ok1 by (simp add: eat_str)
          show ?thesis using 1 2 3 4 True by (simp add: parse_range_def)
        qed
        with d \<open>read_element a = Ok x\<close> x ok1 show ?thesis by auto
      next
        case (Ok y)
        obtain mx a2 where y: "y = (mx, a2)" by (cases y)
        note ok' = read_element_Ok [of "snd (eat a')" mx a2]
        from Ok y ok' have ok2: "str a2 = str a" "Suc (offset a') < offset a2"
          using ok1 by simp_all
        from assms \<open>read_element a = Ok x\<close> x True Ok y
        have st: "st = REREX_UNORDERED_RANGE" "e = offset a2" "codepoint mx < codepoint mn"
          by (auto simp: parse_range_def split: if_splits)
        then have d: "dpos st e = offset a2 - 1" by simp
        have "parse_range (a\<lparr>str := q\<rparr>) neg = Error st e"
          if s: "same_upto (str a) q (offset a2 - 1)"
        proof -
          have 1: "read_element (a\<lparr>str := q\<rparr>) = Ok (mn, a'\<lparr>str := q\<rparr>)"
            by (rule read_element_str [OF _ s]) (use \<open>read_element a = Ok x\<close> x ok2 in simp_all)
          have 2: "peek (a'\<lparr>str := q\<rparr>) = peek a'"
            using same_upto_peek [of a' q "offset a2 - 1"] s ok1 ok2 by simp
          have 3: "peekahead (a'\<lparr>str := q\<rparr>) = peekahead a'"
            using same_upto_peekahead [of a' q "offset a2 - 1"] s ok1 ok2 by simp
          have 4: "read_element (snd (eat (a'\<lparr>str := q\<rparr>))) = Ok (mx, a2\<lparr>str := q\<rparr>)"
            using read_element_str [of "snd (eat a')" mx a2 q "offset a2 - 1"] Ok y s ok1 ok2
            by (simp add: eat_str)
          show ?thesis using 1 2 3 4 True st by (simp add: parse_range_def)
        qed
        with d \<open>read_element a = Ok x\<close> x ok1 ok2 show ?thesis by auto
      qed
    qed
  qed
  then show "offset a \<le> dpos st e"
    "read_element a = Ok (c, a1) \<Longrightarrow> offset a1 < dpos st e"
    "same_upto (str a) q (dpos st e) \<Longrightarrow> parse_range (a\<lparr>str := q\<rparr>) neg = Error st e"
    by simp_all
qed

lemma parse_range_str:
  assumes "parse_range a neg = Ok (r, a1)" "same_upto (str a) q d" "offset a1 \<le> d"
    "peek a1 = CHR ''-'' \<longrightarrow> offset a1 < d"
  shows "parse_range (a\<lparr>str := q\<rparr>) neg = Ok (r, a1\<lparr>str := q\<rparr>)"
proof -
  note ok = parse_range_Ok [OF assms(1)]
  have ad: "adv a a1 (a\<lparr>str := q\<rparr>) = a1\<lparr>str := q\<rparr>"
    by (rule adv_str) (use ok in simp_all)
  have "parse_range (a\<lparr>str := q\<rparr>) neg = Ok (r, adv a a1 (a\<lparr>str := q\<rparr>))"
  proof (rule parse_range_reloc [OF assms(1)])
    show "agree (offset a1 - offset a + 1) a (a\<lparr>str := q\<rparr>)"
      by (rule same_upto_agree [OF assms(2)]) (use ok assms(3) in simp)
    show "peek a1 = CHR ''-'' \<longrightarrow> peekahead (adv a a1 (a\<lparr>str := q\<rparr>)) = peekahead a1"
      unfolding ad using same_upto_peekahead [of a1 q d] assms(2,4) ok by simp
  qed
  then show ?thesis by (simp only: ad)
qed

lemma read_element_dash: "peek a = CHR ''-'' \<Longrightarrow> read_element a = Ok (CHR ''-'', snd (eat a))"
  by (simp add: read_element_def Let_def eat_def codepoint_def cmin_def cmax_def)

lemma parse_set_loop_local:
  assumes "parse_set_loop f a neg r = Error st e"
  shows "offset a \<le> dpos st e \<and> (peek a = CHR ''-'' \<longrightarrow> offset a < dpos st e) \<and>
    (same_upto (str a) q (dpos st e) \<longrightarrow> parse_set_loop f (a\<lparr>str := q\<rparr>) neg r = Error st e)"
  using assms
proof (induction f arbitrary: a r)
  case 0
  then show ?case by simp
next
  case (Suc f)
  from Suc.prems have nb: "peek a \<noteq> CHR '']''" by (auto split: if_splits)
  show ?case
  proof (cases "parse_range a neg")
    case OutOfFuel
    then show ?thesis by simp
  next
    case (Error st' e')
    with Suc.prems nb have eq: "st' = st" "e' = e" by simp_all
    note l = parse_range_local [OF Error [unfolded eq]]
    have 1: "offset a < dpos st e" if "peek a = CHR ''-''"
      using l(2) [OF read_element_dash [OF that]] by simp
    have "parse_set_loop (Suc f) (a\<lparr>str := q\<rparr>) neg r = Error st e"
      if s: "same_upto (str a) q (dpos st e)"
    proof -
      have "peek (a\<lparr>str := q\<rparr>) = peek a" by (rule same_upto_peek [OF s l(1)])
      with nb l(3) [OF s] show ?thesis by simp
    qed
    with l(1) 1 show ?thesis by blast
  next
    case (Ok x)
    obtain r1 a' where x: "x = (r1, a')" by (cases x)
    from Suc.prems nb Ok x have rest: "parse_set_loop f a' neg (Alt r r1) = Error st e" by simp
    note ok = parse_range_Ok [of a neg r1 a']
    from Ok x ok have ok1: "str a' = str a" "offset a < offset a'" by simp_all
    note IH = Suc.IH [OF rest]
    have "parse_set_loop (Suc f) (a\<lparr>str := q\<rparr>) neg r = Error st e"
      if s: "same_upto (str a) q (dpos st e)"
    proof -
      have "peek (a\<lparr>str := q\<rparr>) = peek a"
        by (rule same_upto_peek [OF s]) (use IH ok1 in simp)
      moreover have "parse_range (a\<lparr>str := q\<rparr>) neg = Ok (r1, a'\<lparr>str := q\<rparr>)"
        by (rule parse_range_str [OF _ s]) (use Ok x IH in simp_all)
      moreover have "parse_set_loop f (a'\<lparr>str := q\<rparr>) neg (Alt r r1) = Error st e"
        using IH s ok1 by simp
      ultimately show ?thesis using nb by simp
    qed
    with IH ok1 show ?thesis by auto
  qed
qed

lemma parse_set_local:
  assumes "parse_set f a = Error st e"
  shows "offset a \<le> dpos st e \<and>
    (same_upto (str a) q (dpos st e) \<longrightarrow> parse_set f (a\<lparr>str := q\<rparr>) = Error st e)"
proof -
  define neg where "neg = (peek a = CHR ''^'')"
  define a0 where "a0 = (if neg then snd (eat a) else a)"
  have a0: "str a0 = str a" "offset a \<le> offset a0" by (simp_all add: a0_def)
  have b0: "(if neg then snd (eat (a\<lparr>str := q\<rparr>)) else a\<lparr>str := q\<rparr>) = a0\<lparr>str := q\<rparr>"
    by (simp add: a0_def eat_str)
  show ?thesis
  proof (cases "parse_range a0 neg")
    case OutOfFuel
    then show ?thesis by simp
  next
    case (Error st' e')
    with assms have eq: "st' = st" "e' = e"
      by (simp_all add: parse_set_def Let_def flip: neg_def a0_def)
    note l = parse_range_local [OF Error [unfolded eq]]
    have "parse_set f (a\<lparr>str := q\<rparr>) = Error st e" if s: "same_upto (str a) q (dpos st e)"
    proof -
      have "peek (a\<lparr>str := q\<rparr>) = peek a"
        by (rule same_upto_peek [OF s]) (use l(1) a0 in simp)
      moreover have "parse_range (a0\<lparr>str := q\<rparr>) neg = Error st e"
        using l(3) [of q] s a0 by simp
      ultimately show ?thesis
        by (simp add: parse_set_def Let_def b0 flip: neg_def)
    qed
    with l(1) a0 show ?thesis by auto
  next
    case (Ok x)
    obtain r1 a' where x: "x = (r1, a')" by (cases x)
    from assms Ok x have rest: "parse_set_loop f a' neg r1 = Error st e"
      by (simp add: parse_set_def Let_def flip: neg_def a0_def)
    note ok = parse_range_Ok [of a0 neg r1 a']
    from Ok x ok a0 have ok1: "str a' = str a" "offset a0 < offset a'" by simp_all
    note l = parse_set_loop_local [OF rest, of q]
    have "parse_set f (a\<lparr>str := q\<rparr>) = Error st e" if s: "same_upto (str a) q (dpos st e)"
    proof -
      have "peek (a\<lparr>str := q\<rparr>) = peek a"
        by (rule same_upto_peek [OF s]) (use l ok1 a0 in simp)
      moreover have "parse_range (a0\<lparr>str := q\<rparr>) neg = Ok (r1, a'\<lparr>str := q\<rparr>)"
        by (rule parse_range_str [where d = "dpos st e"]) (use Ok x l s a0 in simp_all)
      moreover have "parse_set_loop f (a'\<lparr>str := q\<rparr>) neg r1 = Error st e"
        using l s ok1 by simp
      ultimately show ?thesis
        by (simp add: parse_set_def Let_def b0 flip: neg_def)
    qed
    with l ok1 a0 show ?thesis by auto
  qed
qed

lemma parse_factor_str:
  assumes "parse_factor f a = Ok (r, a1)" "same_upto (str a) q d" "offset a1 \<le> d"
  shows "parse_factor f (a\<lparr>str := q\<rparr>) = Ok (r, a1\<lparr>str := q\<rparr>)"
proof -
  from parse_factor_Ok [OF assms(1)] have ok: "str a1 = str a" "offset a < offset a1"
    by (simp_all add: advanced_def)
  have ad: "adv a a1 (a\<lparr>str := q\<rparr>) = a1\<lparr>str := q\<rparr>"
    by (rule adv_str) (use ok in simp_all)
  have ag: "agree (offset a1 - offset a) a (a\<lparr>str := q\<rparr>)"
    by (rule same_upto_agree [OF assms(2)]) (use ok assms(3) in simp)
  have pk: "peek (a1\<lparr>str := q\<rparr>) = peek a1"
    using same_upto_peek [of a1 q d] assms(2,3) ok by simp
  have "parse_factor f (a\<lparr>str := q\<rparr>) = Ok (r, adv a a1 (a\<lparr>str := q\<rparr>))"
    by (rule parse_factor_reloc [OF assms(1) ag]) (simp add: ad pk)
  then show ?thesis by (simp only: ad)
qed

lemma parse_term_str:
  assumes "parse_term f a = Ok (r, a1)" "same_upto (str a) q d" "offset a1 \<le> d"
  shows "parse_term f (a\<lparr>str := q\<rparr>) = Ok (r, a1\<lparr>str := q\<rparr>)"
proof -
  from parse_term_Ok [OF assms(1)]
  have ok: "str a1 = str a" "offset a < offset a1" "stops_term (peek a1)"
    by (simp_all add: advanced_def)
  have ad: "adv a a1 (a\<lparr>str := q\<rparr>) = a1\<lparr>str := q\<rparr>"
    by (rule adv_str) (use ok in simp_all)
  have "parse_term f (a\<lparr>str := q\<rparr>) = Ok (r, adv a a1 (a\<lparr>str := q\<rparr>))"
  proof (rule parse_term_reloc [OF assms(1)])
    show "agree (offset a1 - offset a) a (a\<lparr>str := q\<rparr>)"
      by (rule same_upto_agree [OF assms(2)]) (use ok assms(3) in simp)
    show "stops_term (peek (adv a a1 (a\<lparr>str := q\<rparr>)))"
      unfolding ad using same_upto_peek [of a1 q d] assms(2,3) ok by simp
  qed
  then show ?thesis by (simp only: ad)
qed

lemma parse_expr_str:
  assumes "parse_expr f a = Ok (r, a1)" "same_upto (str a) q d" "offset a1 \<le> d"
  shows "parse_expr f (a\<lparr>str := q\<rparr>) = Ok (r, a1\<lparr>str := q\<rparr>)"
proof -
  from parse_expr_Ok [OF assms(1)]
  have ok: "str a1 = str a" "offset a < offset a1" "stops_expr (peek a1)"
    by (simp_all add: advanced_def)
  have ad: "adv a a1 (a\<lparr>str := q\<rparr>) = a1\<lparr>str := q\<rparr>"
    by (rule adv_str) (use ok in simp_all)
  have "parse_expr f (a\<lparr>str := q\<rparr>) = Ok (r, adv a a1 (a\<lparr>str := q\<rparr>))"
  proof (rule parse_expr_reloc [OF assms(1)])
    show "agree (offset a1 - offset a) a (a\<lparr>str := q\<rparr>)"
      by (rule same_upto_agree [OF assms(2)]) (use ok assms(3) in simp)
    show "stops_expr (peek (adv a a1 (a\<lparr>str := q\<rparr>)))"
      unfolding ad using same_upto_peek [of a1 q d] assms(2,3) ok by simp
  qed
  then show ?thesis by (simp only: ad)
qed

lemma parse_local:
  "(\<forall>a st e. parse_atom f a = Error st e \<longrightarrow> offset a \<le> dpos st e \<and>
      (\<forall>q. same_upto (str a) q (dpos st e) \<longrightarrow> parse_atom f (a\<lparr>str := q\<rparr>) = Error st e)) \<and>
   (\<forall>a st e. parse_factor f a = Error st e \<longrightarrow> offset a \<le> dpos st e \<and>
      (\<forall>q. same_upto (str a) q (dpos st e) \<longrightarrow> parse_factor f (a\<lparr>str := q\<rparr>) = Error st e)) \<and>
   (\<forall>a st e. parse_term f a = Error st e \<longrightarrow> offset a \<le> dpos st e \<and>
      (\<forall>q. same_upto (str a) q (dpos st e) \<longrightarrow> parse_term f (a\<lparr>str := q\<rparr>) = Error st e)) \<and>
   (\<forall>a st e. parse_expr f a = Error st e \<longrightarrow> offset a \<le> dpos st e \<and>
      (\<forall>q. same_upto (str a) q (dpos st e) \<longrightarrow> parse_expr f (a\<lparr>str := q\<rparr>) = Error st e))"
proof (induction f)
  case 0
  show ?case by simp
next
  case (Suc f)
  note IHa = Suc [THEN conjunct1, rule_format]
  note IHf = Suc [THEN conjunct2, THEN conjunct1, rule_format]
  note IHt = Suc [THEN conjunct2, THEN conjunct2, THEN conjunct1, rule_format]
  note IHe = Suc [THEN conjunct2, THEN conjunct2, THEN conjunct2, rule_format]
  have A: "offset a \<le> dpos st e \<and>
      (\<forall>q. same_upto (str a) q (dpos st e) \<longrightarrow> parse_atom (Suc f) (a\<lparr>str := q\<rparr>) = Error st e)"
    if p: "parse_atom (Suc f) a = Error st e" for a st e
  proof -
    consider (paren) "peek a = CHR ''(''" | (dot) "peek a = CHR ''.''" | (set) "peek a = CHR ''[''"
      | (chr) "peek a \<noteq> CHR ''(''" "peek a \<noteq> CHR ''.''" "peek a \<noteq> CHR ''[''"
      by blast
    then show ?thesis
    proof cases
      case paren
      show ?thesis
      proof (cases "parse_expr f (snd (eat a))")
        case (Ok x)
        obtain r a' where x: "x = (r, a')" by (cases x)
        from p paren Ok x have st: "st = REREX_EXPECTED_RPAREN" "e = offset a'"
          "peek a' \<noteq> CHR '')''"
          by (auto simp: Let_def split: if_splits)
        from parse_expr_Ok [of f "snd (eat a)" r a'] Ok x
        have ok: "str a' = str a" "offset a < offset a'" by (simp_all add: advanced_def)
        have "parse_atom (Suc f) (a\<lparr>str := q\<rparr>) = Error st e" if s: "same_upto (str a) q e" for q
        proof -
          have 1: "peek (a\<lparr>str := q\<rparr>) = peek a"
            by (rule same_upto_peek [OF s]) (use ok st in simp)
          have 2: "parse_expr f (snd (eat (a\<lparr>str := q\<rparr>))) = Ok (r, a'\<lparr>str := q\<rparr>)"
            using parse_expr_str [of f "snd (eat a)" r a' q e] Ok x s st by (simp add: eat_str)
          have 3: "peek (a'\<lparr>str := q\<rparr>) = peek a'"
            using same_upto_peek [of a' q e] s ok st by simp
          from 1 2 3 paren st show ?thesis by (simp add: Let_def)
        qed
        with st ok show ?thesis by simp
      next
        case (Error st' e')
        with p paren have eq: "st' = st" "e' = e" by (simp_all add: Let_def)
        note l = IHe [OF Error [unfolded eq]]
        have "parse_atom (Suc f) (a\<lparr>str := q\<rparr>) = Error st e"
          if s: "same_upto (str a) q (dpos st e)" for q
        proof -
          have 1: "peek (a\<lparr>str := q\<rparr>) = peek a"
            by (rule same_upto_peek [OF s]) (use l in simp)
          have 2: "parse_expr f (snd (eat (a\<lparr>str := q\<rparr>))) = Error st e"
            using l s by (simp add: eat_str)
          from 1 2 paren show ?thesis by (simp add: Let_def)
        qed
        with l show ?thesis by simp
      next
        case OutOfFuel
        with p paren show ?thesis by (simp add: Let_def)
      qed
    next
      case dot
      with p show ?thesis by (simp add: Let_def)
    next
      case set
      from p set have ps: "parse_set f (snd (eat a)) = Error st e"
        by (cases "parse_set f (snd (eat a))") (auto simp: Let_def)
      note l = parse_set_local [OF ps]
      have "parse_atom (Suc f) (a\<lparr>str := q\<rparr>) = Error st e"
        if s: "same_upto (str a) q (dpos st e)" for q
      proof -
        have 1: "peek (a\<lparr>str := q\<rparr>) = peek a"
          by (rule same_upto_peek [OF s]) (use l [of q] in simp)
        have 2: "parse_set f (snd (eat (a\<lparr>str := q\<rparr>))) = Error st e"
          using l [of q] s by (simp add: eat_str)
        from 1 2 set show ?thesis by (simp add: Let_def)
      qed
      with l [of "str a"] show ?thesis by simp
    next
      case chr
      with p have rc: "read_char a = Error st e"
        by (cases "read_char a") (auto simp: Let_def)
      note l = read_char_local [OF rc]
      have "parse_atom (Suc f) (a\<lparr>str := q\<rparr>) = Error st e" if s: "same_upto (str a) q e" for q
      proof -
        have 1: "peek (a\<lparr>str := q\<rparr>) = peek a"
          by (rule same_upto_peek [OF s l(2)])
        from 1 l(3) [OF s] chr show ?thesis by (simp add: Let_def)
      qed
      with l(1,2) show ?thesis by simp
    qed
  qed
  have F: "offset a \<le> dpos st e \<and>
      (\<forall>q. same_upto (str a) q (dpos st e) \<longrightarrow> parse_factor (Suc f) (a\<lparr>str := q\<rparr>) = Error st e)"
    if p: "parse_factor (Suc f) a = Error st e" for a st e
  proof -
    from p have "parse_atom f a = Error st e"
      by (cases "parse_atom f a") (auto simp: Let_def split: if_splits)
    from IHa [OF this] show ?thesis by simp
  qed
  have T: "offset a \<le> dpos st e \<and>
      (\<forall>q. same_upto (str a) q (dpos st e) \<longrightarrow> parse_term (Suc f) (a\<lparr>str := q\<rparr>) = Error st e)"
    if p: "parse_term (Suc f) a = Error st e" for a st e
  proof (cases "parse_factor f a")
    case (Ok x)
    obtain r a' where x: "x = (r, a')" by (cases x)
    from p Ok x have ns: "\<not> stops_term (peek a')" and rest: "parse_term f a' = Error st e"
      by (cases "parse_term f a'"; auto simp: Let_def stops_term_def split: if_splits)+
    from parse_factor_Ok [of f a r a'] Ok x
    have ok: "str a' = str a" "offset a < offset a'" by (simp_all add: advanced_def)
    note l = IHt [OF rest]
    have "parse_term (Suc f) (a\<lparr>str := q\<rparr>) = Error st e"
      if s: "same_upto (str a) q (dpos st e)" for q
    proof -
      have 1: "parse_factor f (a\<lparr>str := q\<rparr>) = Ok (r, a'\<lparr>str := q\<rparr>)"
        by (rule parse_factor_str [OF _ s]) (use Ok x l in simp_all)
      have 2: "peek (a'\<lparr>str := q\<rparr>) = peek a'"
        using same_upto_peek [of a' q "dpos st e"] s ok l by simp
      have 3: "parse_term f (a'\<lparr>str := q\<rparr>) = Error st e"
        using l s ok by simp
      from 1 2 3 ns show ?thesis by (simp add: Let_def stops_term_def)
    qed
    with l ok show ?thesis by simp
  next
    case (Error st' e')
    with p have eq: "st' = st" "e' = e" by simp_all
    from IHf [OF Error [unfolded eq]] show ?thesis by simp
  next
    case OutOfFuel
    with p show ?thesis by simp
  qed
  have E: "offset a \<le> dpos st e \<and>
      (\<forall>q. same_upto (str a) q (dpos st e) \<longrightarrow> parse_expr (Suc f) (a\<lparr>str := q\<rparr>) = Error st e)"
    if p: "parse_expr (Suc f) a = Error st e" for a st e
  proof (cases "parse_term f a")
    case (Ok x)
    obtain r a' where x: "x = (r, a')" by (cases x)
    from p Ok x have bar: "peek a' = CHR ''|''" and
      rest: "parse_expr f (snd (eat a')) = Error st e"
      by (cases "parse_expr f (snd (eat a'))"; auto split: if_splits)+
    from parse_term_Ok [of f a r a'] Ok x
    have ok: "str a' = str a" "offset a < offset a'" by (simp_all add: advanced_def)
    note l = IHe [OF rest]
    have "parse_expr (Suc f) (a\<lparr>str := q\<rparr>) = Error st e"
      if s: "same_upto (str a) q (dpos st e)" for q
    proof -
      have 1: "parse_term f (a\<lparr>str := q\<rparr>) = Ok (r, a'\<lparr>str := q\<rparr>)"
        by (rule parse_term_str [OF _ s]) (use Ok x l in simp_all)
      have 2: "peek (a'\<lparr>str := q\<rparr>) = peek a'"
        using same_upto_peek [of a' q "dpos st e"] s ok l by simp
      have 3: "parse_expr f (snd (eat (a'\<lparr>str := q\<rparr>))) = Error st e"
        using l s ok by (simp add: eat_str)
      from 1 2 3 bar show ?thesis by simp
    qed
    with l ok show ?thesis by simp
  next
    case (Error st' e')
    with p have eq: "st' = st" "e' = e" by simp_all
    from IHt [OF Error [unfolded eq]] show ?thesis by simp
  next
    case OutOfFuel
    with p show ?thesis by simp
  qed
  from A F T E show ?case by blast
qed

lemma rerex_compile_ErrorI:
  assumes "parse_expr f \<lparr>str = p, offset = 0\<rparr> = Error st e"
  shows "rerex_compile p = Error st e"
proof -
  have "parse_expr (compile_fuel p) \<lparr>str = p, offset = 0\<rparr> = Error st e"
  proof (cases "f \<le> compile_fuel p")
    case True
    from parse_expr_fuel [OF _ True, of "\<lparr>str = p, offset = 0\<rparr>"] assms
    show ?thesis by simp
  next
    case False
    then have "compile_fuel p \<le> f" by simp
    from parse_expr_fuel [OF parse_expr_enough this] assms show ?thesis by simp
  qed
  then show ?thesis by (simp add: rerex_compile_Error)
qed

lemma rerex_compile_decides:
  assumes "rerex_compile p = Error st e"
  shows "decides p (dpos st e)"
  unfolding decides_def
proof (intro allI impI)
  fix q assume s: "same_upto p q (dpos st e)"
  from assms have "parse_expr (compile_fuel p) \<lparr>str = p, offset = 0\<rparr> = Error st e"
    by (simp add: rerex_compile_Error)
  from parse_local [THEN conjunct2, THEN conjunct2, THEN conjunct2, rule_format, OF this]
  have "parse_expr (compile_fuel p) (\<lparr>str = p, offset = 0\<rparr>\<lparr>str := q\<rparr>) = Error st e"
    using s by simp
  then have "parse_expr (compile_fuel p) \<lparr>str = q, offset = 0\<rparr> = Error st e" by simp
  from rerex_compile_ErrorI [OF this] assms show "rerex_compile q = rerex_compile p" by simp
qed

lemma rerex_compile_reported:
  "rerex_compile p = Error st e \<Longrightarrow> reported st p e"
  using parse_Error [THEN conjunct2, THEN conjunct2, THEN conjunct2, rule_format,
      of "compile_fuel p" "\<lparr>str = p, offset = 0\<rparr>" st e]
  by (simp add: rerex_compile_Error)

lemma same_upto_take:
  "k < n \<Longrightarrow> n \<le> length p \<Longrightarrow> same_upto p (take n p @ z) k"
  by (auto simp: same_upto_def char_at_def nth_append)

lemma char_at_take_append: "n \<le> length p \<Longrightarrow> char_at (take n p @ [c]) n = c"
  by (simp add: char_at_def nth_append)

lemma char_at_take: "char_at (take n p) n = CHR 0x00"
  by (simp add: char_at_def)

lemma same_upto_mono: "same_upto p q d \<Longrightarrow> k \<le> d \<Longrightarrow> same_upto p q k"
  by (simp add: same_upto_def)

lemma rerex_compile_undecided:
  assumes c: "rerex_compile p = Error st e" and k: "k < dpos st e"
  shows "\<not> decides p k"
proof -
  from rerex_compile_reported [OF c] have rp: "reported st p e" .
  then have le: "e \<le> length p" by (simp add: reported_def)
  have "\<exists>q. same_upto p q k \<and> rerex_compile q \<noteq> Error st e"
  proof (cases st)
    case REREX_SUCCESS
    with rp show ?thesis by (simp add: reported_def)
  next
    case REREX_NO_MEMORY
    with rp show ?thesis by (simp add: reported_def)
  next
    case REREX_UNORDERED_RANGE
    let ?q = "take (e - 1) p"
    have "same_upto p ?q k"
      using same_upto_take [of k "e - 1" p "[]"] k REREX_UNORDERED_RANGE le by simp
    moreover have "rerex_compile ?q \<noteq> Error st e"
    proof
      assume "rerex_compile ?q = Error st e"
      from rerex_compile_reported [OF this] have "e \<le> length ?q" by (simp add: reported_def)
      with k REREX_UNORDERED_RANGE show False by auto
    qed
    ultimately show ?thesis by blast
  next
    case REREX_EXPECTED_CHAR
    let ?q = "take e p"
    have "same_upto p ?q k"
      using same_upto_take [of k e p "[]"] k REREX_EXPECTED_CHAR le by simp
    moreover have "rerex_compile ?q \<noteq> Error st e"
    proof
      assume "rerex_compile ?q = Error st e"
      from rerex_compile_reported [OF this] show False
        using REREX_EXPECTED_CHAR by (simp add: reported_def char_at_take)
    qed
    ultimately show ?thesis by blast
  next
    case REREX_EXPECTED_ELEMENT
    let ?q = "take e p"
    have "same_upto p ?q k"
      using same_upto_take [of k e p "[]"] k REREX_EXPECTED_ELEMENT le by simp
    moreover have "rerex_compile ?q \<noteq> Error st e"
    proof
      assume "rerex_compile ?q = Error st e"
      from rerex_compile_reported [OF this] show False
        using REREX_EXPECTED_ELEMENT by (simp add: reported_def char_at_take)
    qed
    ultimately show ?thesis by blast
  next
    case REREX_UNEXPECTED_SPECIAL
    let ?q = "take e p"
    have "same_upto p ?q k"
      using same_upto_take [of k e p "[]"] k REREX_UNEXPECTED_SPECIAL le by simp
    moreover have "rerex_compile ?q \<noteq> Error st e"
    proof
      assume "rerex_compile ?q = Error st e"
      from rerex_compile_reported [OF this] show False
        using REREX_UNEXPECTED_SPECIAL by (simp add: reported_def char_at_take)
    qed
    ultimately show ?thesis by blast
  next
    case REREX_UNEXPECTED_END
    let ?q = "take e p @ ''a''"
    have "same_upto p ?q k"
      using same_upto_take [of k e p] k REREX_UNEXPECTED_END le by simp
    moreover have "rerex_compile ?q \<noteq> Error st e"
    proof
      assume "rerex_compile ?q = Error st e"
      from rerex_compile_reported [OF this] show False
        using REREX_UNEXPECTED_END le by (simp add: reported_def char_at_take_append)
    qed
    ultimately show ?thesis by blast
  next
    case REREX_EXPECTED_RPAREN
    let ?q = "take e p @ '')''"
    have "same_upto p ?q k"
      using same_upto_take [of k e p] k REREX_EXPECTED_RPAREN le by simp
    moreover have "rerex_compile ?q \<noteq> Error st e"
    proof
      assume "rerex_compile ?q = Error st e"
      from rerex_compile_reported [OF this] show False
        using REREX_EXPECTED_RPAREN le by (simp add: reported_def char_at_take_append)
    qed
    ultimately show ?thesis by blast
  next
    case REREX_EXPECTED_SPECIAL
    let ?q = "take e p @ ''.''"
    have "same_upto p ?q k"
      using same_upto_take [of k e p] k REREX_EXPECTED_SPECIAL le by simp
    moreover have "rerex_compile ?q \<noteq> Error st e"
    proof
      assume "rerex_compile ?q = Error st e"
      from rerex_compile_reported [OF this] show False
        using REREX_EXPECTED_SPECIAL le
        by (simp add: reported_def char_at_take_append is_special_def)
    qed
    ultimately show ?thesis by blast
  next
    case REREX_EXPECTED_RBRACKET
    let ?q = "take e p @ '']''"
    have "same_upto p ?q k"
      using same_upto_take [of k e p] k REREX_EXPECTED_RBRACKET le by simp
    moreover have "rerex_compile ?q \<noteq> Error st e"
    proof
      assume "rerex_compile ?q = Error st e"
      from rerex_compile_reported [OF this] show False
        using REREX_EXPECTED_RBRACKET le by (simp add: reported_def char_at_take_append)
    qed
    ultimately show ?thesis by blast
  qed
  with c show ?thesis by (auto simp: decides_def)
qed

lemma decisive_unique: "decisive p d \<Longrightarrow> decisive p d' \<Longrightarrow> d = d'"
  by (metis decisive_def nat_neq_iff)

lemma rerex_compile_decisive:
  "rerex_compile p = Error st e \<Longrightarrow> decisive p (dpos st e)"
  unfolding decisive_def using rerex_compile_decides rerex_compile_undecided by blast

text \<open>
  C6, as stated: the end offset of every failed compilation is the position of the byte
  whose reading raised the status. It fails for an unordered range: in \<open>[z-a]\<close> the
  failure is decided by the upper endpoint at position 3, which has been consumed, and
  the offset reported is 4.
\<close>

theorem error_offset_counterexample:
  "rerex_compile ''[z-a]'' = Error REREX_UNORDERED_RANGE 4 \<and>
   \<not> offending REREX_UNORDERED_RANGE ''[z-a]'' 4 \<and>
   offending REREX_UNORDERED_RANGE ''[z-a]'' 3 \<and>
   decisive ''[z-a]'' 3 \<and> \<not> decisive ''[z-a]'' 4"
proof (intro conjI)
  show c: "rerex_compile ''[z-a]'' = Error REREX_UNORDERED_RANGE 4"
    by code_simp
  show "\<not> offending REREX_UNORDERED_RANGE ''[z-a]'' 4"
    by (auto simp: char_at_def nth_Cons' less_Suc_eq numeral_eq_Suc)
  show "offending REREX_UNORDERED_RANGE ''[z-a]'' 3"
    unfolding offending.simps
    by (rule exI [of _ 1]) (simp add: char_at_def codepoint_def)
  from rerex_compile_decisive [OF c] show d: "decisive ''[z-a]'' 3" by simp
  show "\<not> decisive ''[z-a]'' 4"
    using decisive_unique [OF d, of 4] by auto
qed

text \<open>
  C6, amended: the end offset of every failed compilation lies within the pattern
  (terminator included) and, for every status but the unordered range, is the position
  of the byte whose reading raised the status: a byte of the kind the status names, and
  the decisive one, that is, every pattern with the same bytes up to and including it
  fails with the same status and offset, and the bytes before it do not decide that.
  For an unordered range the decisive byte is the upper endpoint, which has been
  consumed, and the offset is one past it.
\<close>

theorem error_offset:
  assumes "rerex_compile p = Error st e"
  shows "e \<le> length p \<and>
         (if st = REREX_UNORDERED_RANGE
          then 0 < e \<and> offending st p (e - 1) \<and> decisive p (e - 1)
          else offending st p e \<and> decisive p e)"
proof -
  from rerex_compile_reported [OF assms] have "reported st p e" .
  then have "e \<le> length p \<and>
     (if st = REREX_UNORDERED_RANGE then 0 < e \<and> offending st p (e - 1) else offending st p e)"
    unfolding reported_def .
  moreover from rerex_compile_decisive [OF assms] have "decisive p (dpos st e)" .
  ultimately show ?thesis by (simp add: dpos_def split: if_splits)
qed

theorem error_offset_witness:
  "rerex_compile ''(a'' = Error REREX_EXPECTED_RPAREN 2 \<and>
   rerex_compile ''('' = Error REREX_UNEXPECTED_END 1 \<and>
   rerex_compile ''?'' = Error REREX_UNEXPECTED_SPECIAL 0 \<and>
   rerex_compile ''(a|?)'' = Error REREX_UNEXPECTED_SPECIAL 3 \<and>
   offending REREX_EXPECTED_RPAREN ''(a'' 2 \<and> decisive ''(a'' 2 \<and>
   offending REREX_UNEXPECTED_END ''('' 1 \<and> decisive ''('' 1 \<and>
   offending REREX_UNEXPECTED_SPECIAL ''?'' 0 \<and> decisive ''?'' 0 \<and>
   offending REREX_UNEXPECTED_SPECIAL ''(a|?)'' 3 \<and> decisive ''(a|?)'' 3 \<and>
   \<not> decisive ''(a|?)'' 0 \<and> \<not> decisive ''(a|?)'' 2 \<and> \<not> decisive ''(a|?)'' 4"
proof -
  have 1: "rerex_compile ''(a'' = Error REREX_EXPECTED_RPAREN 2" by code_simp
  have 2: "rerex_compile ''('' = Error REREX_UNEXPECTED_END 1" by code_simp
  have 3: "rerex_compile ''?'' = Error REREX_UNEXPECTED_SPECIAL 0" by code_simp
  have 4: "rerex_compile ''(a|?)'' = Error REREX_UNEXPECTED_SPECIAL 3" by code_simp
  from error_offset [OF 4] have d: "decisive ''(a|?)'' 3" by simp
  have "\<not> decisive ''(a|?)'' 0" "\<not> decisive ''(a|?)'' 2" "\<not> decisive ''(a|?)'' 4"
    using decisive_unique [OF d, of 0] decisive_unique [OF d, of 2] decisive_unique [OF d, of 4]
    by auto
  with error_offset [OF 1] error_offset [OF 2] error_offset [OF 3] error_offset [OF 4] 1 2 3 4
  show ?thesis by simp
qed

section \<open>The parser accepts the pattern language\<close>

lemma parse_atom_fuel:
  assumes "parse_atom f a \<noteq> OutOfFuel" "f \<le> f'"
  shows "parse_atom f' a = parse_atom f a"
  using assms(2,1)
proof (induction rule: dec_induct)
  case base
  show ?case by simp
next
  case (step n)
  then have "parse_atom n a \<noteq> OutOfFuel" by simp
  with parse_fuel_Suc [of n] step show ?case by simp
qed

lemma parse_factor_fuel:
  assumes "parse_factor f a \<noteq> OutOfFuel" "f \<le> f'"
  shows "parse_factor f' a = parse_factor f a"
  using assms(2,1)
proof (induction rule: dec_induct)
  case base
  show ?case by simp
next
  case (step n)
  then have "parse_factor n a \<noteq> OutOfFuel" by simp
  with parse_fuel_Suc [of n] step show ?case by simp
qed

lemma parse_set_loop_fuel:
  assumes "parse_set_loop f a neg r \<noteq> OutOfFuel" "f \<le> f'"
  shows "parse_set_loop f' a neg r = parse_set_loop f a neg r"
  using assms(2,1)
proof (induction rule: dec_induct)
  case base
  show ?case by simp
next
  case (step n)
  then have "parse_set_loop n a neg r \<noteq> OutOfFuel" by simp
  with parse_set_loop_fuel_Suc [of n a neg r] step show ?case by simp
qed

lemma parse_set_fuel:
  assumes "parse_set f a \<noteq> OutOfFuel" "f \<le> f'"
  shows "parse_set f' a = parse_set f a"
  using assms(2,1)
proof (induction rule: dec_induct)
  case base
  show ?case by simp
next
  case (step n)
  then have "parse_set n a \<noteq> OutOfFuel" by simp
  with parse_set_fuel_Suc [of n a] step show ?case by simp
qed

text \<open>Reading at the position \<open>length pre\<close> of a string \<open>pre @ s @ w\<close>.\<close>

lemma peek_at:
  "str a = pre @ s \<Longrightarrow> offset a = length pre \<Longrightarrow> peek a = char_at s 0"
  using char_at_append2 [of pre s 0] by (simp add: peek_char_at)

lemma peekahead_at:
  "str a = pre @ s \<Longrightarrow> offset a = length pre \<Longrightarrow> peekahead a = char_at s 1"
  using char_at_append2 [of pre s 1] by (simp add: peekahead_char_at)

lemma char_at_Cons [simp]: "char_at (c # s) 0 = c" "char_at (c # s) (Suc n) = char_at s n"
  by (simp_all add: char_at_def)

lemma char_at_Nil [simp]: "char_at [] n = CHR 0x00"
  by (simp add: char_at_def)

lemma printable_nonzero: "printable c \<Longrightarrow> c \<noteq> CHR 0x00"
  by auto

lemma read_element_wf:
  assumes "wf_element c e" "str a = pre @ e @ w" "offset a = length pre"
  shows "read_element a = Ok (c, a\<lparr>offset := offset a + length e\<rparr>)"
proof -
  from assms(1) consider (plain) "e = [c]" "printable c" "c \<noteq> CHR '']''" "c \<noteq> CHR 0x5C"
    | (esc) "e = [CHR 0x5C, CHR '']'']" "c = CHR '']''"
    by (auto simp: wf_element_def)
  then show ?thesis
  proof cases
    case plain
    have "peek a = c" using peek_at [OF assms(2,3)] plain by simp
    with plain printable_nonzero [of c] show ?thesis
      by (simp add: read_element_def Let_def eat_def printable_def)
  next
    case esc
    have 1: "peek a = CHR 0x5C" using peek_at [OF assms(2,3)] esc by simp
    have "peek (snd (eat a)) = char_at (CHR '']'' # w) 0"
      by (rule peek_at [of _ "pre @ [CHR 0x5C]"]) (use assms esc in simp_all)
    then have 2: "peek (snd (eat a)) = CHR '']''" by simp
    from 1 2 esc show ?thesis
      by (simp add: read_element_def Let_def eat_def)
  qed
qed

lemma wf_element_first:
  "wf_element c e \<Longrightarrow> e \<noteq> [] \<and> char_at (e @ w) 0 \<noteq> CHR '']'' \<and> char_at (e @ w) 0 \<noteq> CHR 0x00"
  by (auto simp: wf_element_def)

text \<open>One range.\<close>

lemma parse_range_single:
  assumes "wf_element x e" "str a = pre @ e @ w" "offset a = length pre"
    "\<not> (char_at w 0 = CHR ''-'' \<and> char_at w 1 \<noteq> CHR '']'')"
  shows "parse_range a neg =
     Ok (if neg then NLit x x else Lit x x, a\<lparr>offset := offset a + length e\<rparr>)"
proof -
  let ?a1 = "a\<lparr>offset := offset a + length e\<rparr>"
  have 1: "read_element a = Ok (x, ?a1)" by (rule read_element_wf [OF assms(1-3)])
  have "peek ?a1 = char_at w 0"
    by (rule peek_at [of _ "pre @ e"]) (use assms in simp_all)
  moreover have "peekahead ?a1 = char_at w 1"
    by (rule peekahead_at [of _ "pre @ e"]) (use assms in simp_all)
  ultimately show ?thesis using 1 assms(4)
    by (auto simp: parse_range_def)
qed

lemma parse_range_pair:
  assumes "wf_element x e1" "wf_element y e2"
    "str a = pre @ e1 @ CHR ''-'' # e2 @ w" "offset a = length pre"
  shows "parse_range a neg =
     (if codepoint y < codepoint x
      then Error REREX_UNORDERED_RANGE (offset a + length e1 + 1 + length e2)
      else Ok (if neg then NLit x y else Lit x y,
               a\<lparr>offset := offset a + length e1 + 1 + length e2\<rparr>))"
proof -
  let ?a1 = "a\<lparr>offset := offset a + length e1\<rparr>"
  have 1: "read_element a = Ok (x, ?a1)"
    by (rule read_element_wf [OF assms(1)]) (use assms in simp_all)
  have 2: "peek ?a1 = CHR ''-''"
    using peek_at [of ?a1 "pre @ e1" "CHR ''-'' # e2 @ w"] assms by simp
  have "peekahead ?a1 = char_at (e2 @ w) 0"
    using peekahead_at [of ?a1 "pre @ e1" "CHR ''-'' # e2 @ w"] assms by simp
  then have 3: "peekahead ?a1 \<noteq> CHR '']''"
    using wf_element_first [OF assms(2), of w] by simp
  have 4: "read_element (snd (eat ?a1)) =
      Ok (y, (snd (eat ?a1))\<lparr>offset := offset (snd (eat ?a1)) + length e2\<rparr>)"
    by (rule read_element_wf [OF assms(2), of _ "pre @ e1 @ ''-''"]) (use assms in simp_all)
  have 5: "(snd (eat ?a1))\<lparr>offset := offset (snd (eat ?a1)) + length e2\<rparr> =
      a\<lparr>offset := offset a + length e1 + 1 + length e2\<rparr>"
    by (simp add: eat_def)
  show ?thesis using 1 2 3 4 unfolding 5
    by (simp add: parse_range_def)
qed

text \<open>The loop over the ranges of a class.\<close>

lemma parse_set_loop_ranges:
  assumes "wf_ranges s w"
  shows "\<exists>r'. \<forall>f res. parse_set_loop f (a\<lparr>offset := offset a + length s\<rparr>) neg r' = res \<longrightarrow>
     res \<noteq> OutOfFuel \<longrightarrow> str a = pre @ s @ w \<longrightarrow> offset a = length pre \<longrightarrow>
     (\<exists>f'. parse_set_loop f' a neg r = res)"
  using assms
proof (induction arbitrary: a pre r rule: wf_ranges.induct)
  case (ranges_none w)
  show ?case by auto
next
  case (ranges_single x e s w)
  let ?a1 = "a\<lparr>offset := offset a + length e\<rparr>"
  let ?r1 = "Alt r (if neg then NLit x x else Lit x x)"
  from ranges_single.IH [of ?a1 "pre @ e" ?r1] obtain r' where
    r': "\<And>f res. parse_set_loop f (?a1\<lparr>offset := offset ?a1 + length s\<rparr>) neg r' = res \<Longrightarrow>
       res \<noteq> OutOfFuel \<Longrightarrow> str ?a1 = (pre @ e) @ s @ w \<Longrightarrow> offset ?a1 = length (pre @ e) \<Longrightarrow>
       \<exists>f'. parse_set_loop f' ?a1 neg ?r1 = res"
    by blast
  show ?case
  proof (intro exI [of _ r'] allI impI)
    fix f res
    assume res: "parse_set_loop f (a\<lparr>offset := offset a + length (e @ s)\<rparr>) neg r' = res"
      "res \<noteq> OutOfFuel" and a: "str a = pre @ (e @ s) @ w" "offset a = length pre"
    from r' [of f res] res a obtain f' where f': "parse_set_loop f' ?a1 neg ?r1 = res"
      by (auto simp: add.assoc)
    have pk: "peek a \<noteq> CHR '']''"
      using peek_at [of a pre "e @ s @ w"] a wf_element_first [OF ranges_single.hyps(1), of "s @ w"]
      by simp
    have "parse_range a neg = Ok (if neg then NLit x x else Lit x x, ?a1)"
      by (rule parse_range_single [OF ranges_single.hyps(1), of _ pre "s @ w"])
         (use a ranges_single.hyps(3) in simp_all)
    with pk f' have "parse_set_loop (Suc f') a neg r = res" by simp
    then show "\<exists>f'. parse_set_loop f' a neg r = res" ..
  qed
next
  case (ranges_range x e1 y e2 s w)
  let ?n = "length e1 + 1 + length e2"
  let ?a1 = "a\<lparr>offset := offset a + ?n\<rparr>"
  let ?r1 = "Alt r (if neg then NLit x y else Lit x y)"
  from ranges_range.IH [of ?a1 "pre @ e1 @ CHR ''-'' # e2" ?r1] obtain r' where
    r': "\<And>f res. parse_set_loop f (?a1\<lparr>offset := offset ?a1 + length s\<rparr>) neg r' = res \<Longrightarrow>
       res \<noteq> OutOfFuel \<Longrightarrow> str ?a1 = (pre @ e1 @ CHR ''-'' # e2) @ s @ w \<Longrightarrow>
       offset ?a1 = length (pre @ e1 @ CHR ''-'' # e2) \<Longrightarrow>
       \<exists>f'. parse_set_loop f' ?a1 neg ?r1 = res"
    by blast
  show ?case
  proof (intro exI [of _ r'] allI impI)
    fix f res
    assume res: "parse_set_loop f (a\<lparr>offset := offset a + length (e1 @ CHR ''-'' # e2 @ s)\<rparr>) neg r' = res"
      "res \<noteq> OutOfFuel" and a: "str a = pre @ (e1 @ CHR ''-'' # e2 @ s) @ w" "offset a = length pre"
    from r' [of f res] res a obtain f' where f': "parse_set_loop f' ?a1 neg ?r1 = res"
      by (auto simp: add.assoc)
    have pk: "peek a \<noteq> CHR '']''"
      using peek_at [of a pre "e1 @ CHR ''-'' # e2 @ s @ w"] a
        wf_element_first [OF ranges_range.hyps(1), of "CHR ''-'' # e2 @ s @ w"]
      by simp
    have "parse_range a neg = Ok (if neg then NLit x y else Lit x y, ?a1)"
      using parse_range_pair [OF ranges_range.hyps(1,2), of a pre "s @ w" neg] a
        ranges_range.hyps(3)
      by (simp add: add.assoc)
    with pk f' have "parse_set_loop (Suc f') a neg r = res" by simp
    then show "\<exists>f'. parse_set_loop f' a neg r = res" ..
  qed
qed

lemma wf_ranges_cont:
  assumes "wf_ranges s w" "char_at w 0 = CHR '']''" "char_at w' 0 = CHR '']''"
  shows "wf_ranges s w'"
  using assms
proof (induction rule: wf_ranges.induct)
  case (ranges_none w)
  show ?case by (rule wf_ranges.ranges_none)
next
  case (ranges_single x e s w)
  have "\<not> (char_at (s @ w') 0 = CHR ''-'' \<and> char_at (s @ w') 1 \<noteq> CHR '']'')"
  proof (cases s)
    case Nil
    with ranges_single.prems show ?thesis by simp
  next
    case (Cons c t)
    show ?thesis
    proof (cases t)
      case Nil
      with Cons ranges_single.prems show ?thesis by simp
    next
      case (Cons d t')
      with \<open>s = c # t\<close> ranges_single.hyps(3) show ?thesis by simp
    qed
  qed
  with ranges_single show ?case by (intro wf_ranges.ranges_single) simp_all
next
  case (ranges_range x e1 y e2 s w)
  then show ?case by (intro wf_ranges.ranges_range) simp_all
qed

lemma wf_ranges_first:
  assumes "wf_ranges s w" "s \<noteq> []"
  shows "char_at (s @ w) 0 \<noteq> CHR '']'' \<and> char_at (s @ w) 0 = hd s"
  using assms
proof (cases rule: wf_ranges.cases)
  case (ranges_single x e s')
  with wf_element_first [of x e "s' @ w"] show ?thesis
    by (cases e) (auto simp: wf_element_def)
next
  case (ranges_range x e1 y e2 s')
  with wf_element_first [of x e1 "CHR ''-'' # e2 @ s' @ w"] show ?thesis
    by (cases e1) (auto simp: wf_element_def)
qed simp

text \<open>The first range and the loop: a whole class.\<close>

lemma parse_set_ranges:
  assumes r: "wf_ranges s w" and ne: "s \<noteq> []"
    and a: "str a = pre @ s @ w" "offset a = length pre"
  shows "\<exists>r1 a1 r'. parse_range a neg = Ok (r1, a1) \<and>
     (\<forall>f res. parse_set_loop f (a\<lparr>offset := offset a + length s\<rparr>) neg r' = res \<longrightarrow>
        res \<noteq> OutOfFuel \<longrightarrow> (\<exists>f'. parse_set_loop f' a1 neg r1 = res))"
  using r ne a
proof (cases rule: wf_ranges.cases)
  case ranges_none
  with ne show ?thesis by simp
next
  case (ranges_single x e s')
  let ?a1 = "a\<lparr>offset := offset a + length e\<rparr>"
  let ?r1 = "if neg then NLit x x else Lit x x"
  have 1: "parse_range a neg = Ok (?r1, ?a1)"
    by (rule parse_range_single [OF ranges_single(2), of _ pre "s' @ w"])
       (use a ranges_single in simp_all)
  from parse_set_loop_ranges [OF ranges_single(3), of ?a1 neg "pre @ e" ?r1] obtain r' where
    "\<forall>f res. parse_set_loop f (?a1\<lparr>offset := offset ?a1 + length s'\<rparr>) neg r' = res \<longrightarrow>
     res \<noteq> OutOfFuel \<longrightarrow> str ?a1 = (pre @ e) @ s' @ w \<longrightarrow> offset ?a1 = length (pre @ e) \<longrightarrow>
     (\<exists>f'. parse_set_loop f' ?a1 neg ?r1 = res)"
    by blast
  then have "\<forall>f res. parse_set_loop f (a\<lparr>offset := offset a + length s\<rparr>) neg r' = res \<longrightarrow>
        res \<noteq> OutOfFuel \<longrightarrow> (\<exists>f'. parse_set_loop f' ?a1 neg ?r1 = res)"
    using a ranges_single(1) by (simp add: add.assoc)
  with 1 show ?thesis by blast
next
  case (ranges_range x e1 y e2 s')
  let ?a1 = "a\<lparr>offset := offset a + (length e1 + 1 + length e2)\<rparr>"
  let ?r1 = "if neg then NLit x y else Lit x y"
  have 1: "parse_range a neg = Ok (?r1, ?a1)"
    using parse_range_pair [OF ranges_range(2,3), of a pre "s' @ w" neg] a ranges_range
    by (simp add: add.assoc)
  from parse_set_loop_ranges [OF ranges_range(5), of ?a1 neg "pre @ e1 @ CHR ''-'' # e2" ?r1]
  obtain r' where
    "\<forall>f res. parse_set_loop f (?a1\<lparr>offset := offset ?a1 + length s'\<rparr>) neg r' = res \<longrightarrow>
     res \<noteq> OutOfFuel \<longrightarrow> str ?a1 = (pre @ e1 @ CHR ''-'' # e2) @ s' @ w \<longrightarrow>
     offset ?a1 = length (pre @ e1 @ CHR ''-'' # e2) \<longrightarrow>
     (\<exists>f'. parse_set_loop f' ?a1 neg ?r1 = res)"
    by blast
  then have "\<forall>f res. parse_set_loop f (a\<lparr>offset := offset a + length s\<rparr>) neg r' = res \<longrightarrow>
        res \<noteq> OutOfFuel \<longrightarrow> (\<exists>f'. parse_set_loop f' ?a1 neg ?r1 = res)"
    using a ranges_range(1) by (simp add: add.assoc)
  with 1 show ?thesis by blast
qed


lemma parse_set_wf:
  assumes "wf_set s" "str a = pre @ s @ CHR '']'' # w" "offset a = length pre"
  shows "\<exists>r f. parse_set f a = Ok (r, a\<lparr>offset := offset a + length s\<rparr>)"
proof -
  from assms(1) obtain rr where ne: "rr \<noteq> []" and wr0: "wf_ranges rr '']''"
    and s: "s = CHR ''^'' # rr \<or> (s = rr \<and> hd rr \<noteq> CHR ''^'')"
    by (auto simp: wf_set_def)
  have wr: "wf_ranges rr (CHR '']'' # w)"
    by (rule wf_ranges_cont [OF wr0]) simp_all
  define neg where "neg = (peek a = CHR ''^'')"
  define a0 where "a0 = (if neg then snd (eat a) else a)"
  define pre0 where "pre0 = (if neg then pre @ ''^'' else pre)"
  have pk: "peek a = char_at (s @ CHR '']'' # w) 0"
    by (rule peek_at [OF assms(2,3)])
  have neg: "neg \<longleftrightarrow> s = CHR ''^'' # rr"
  proof (cases "s = CHR ''^'' # rr")
    case True
    with pk show ?thesis by (simp add: neg_def)
  next
    case False
    with s have "s = rr" "hd rr \<noteq> CHR ''^''" by simp_all
    with pk wf_ranges_first [OF wr ne] False show ?thesis by (simp add: neg_def)
  qed
  have a0: "str a0 = pre0 @ rr @ CHR '']'' # w" "offset a0 = length pre0"
    "a0\<lparr>offset := offset a0 + length rr\<rparr> = a\<lparr>offset := offset a + length s\<rparr>"
    using assms(2,3) s neg by (auto simp: a0_def pre0_def eat_def)
  let ?end = "a\<lparr>offset := offset a + length s\<rparr>"
  from parse_set_ranges [OF wr ne a0(1,2), of neg] obtain r1 a1 r' where
    1: "parse_range a0 neg = Ok (r1, a1)" and
    2: "\<And>f res. parse_set_loop f ?end neg r' = res \<Longrightarrow> res \<noteq> OutOfFuel \<Longrightarrow>
          \<exists>f'. parse_set_loop f' a1 neg r1 = res"
    unfolding a0(3) by blast
  have "peek ?end = char_at (CHR '']'' # w) 0"
    by (rule peek_at [of _ "pre @ s"]) (use assms in simp_all)
  then have "parse_set_loop (Suc 0) ?end neg r' = Ok (r', ?end)" by simp
  from 2 [OF this] obtain f' where "parse_set_loop f' a1 neg r1 = Ok (r', ?end)" by auto
  with 1 have "parse_set f' a = Ok (r', ?end)"
    by (simp add: parse_set_def Let_def flip: neg_def a0_def)
  then show ?thesis by blast
qed

text \<open>A well-formed atom, factor, term or expression begins with a byte that begins an atom.\<close>

lemma plain_char_begins: "plain_char c \<Longrightarrow> begins_atom c"
  by (auto simp: plain_char_def intro: begins_atom_char)

lemma backslash_begins [simp]: "begins_atom (CHR 0x5C)"
  by (simp add: begins_atom_def stops_term_def is_operator_def)

lemma wf_first:
  shows "wf_atom s \<Longrightarrow> s \<noteq> [] \<and> begins_atom (hd s)"
    and "wf_factor s \<Longrightarrow> s \<noteq> [] \<and> begins_atom (hd s)"
    and "wf_term s \<Longrightarrow> s \<noteq> [] \<and> begins_atom (hd s)"
    and "wf_expr s \<Longrightarrow> s \<noteq> [] \<and> begins_atom (hd s)"
  by (induction rule: wf_atom_wf_factor_wf_term_wf_expr.inducts)
     (auto simp: plain_char_begins)

lemma char_at_hd: "s \<noteq> [] \<Longrightarrow> char_at (s @ w) 0 = hd s"
  by (cases s) simp_all

lemma begins_atom_D: "begins_atom c \<Longrightarrow> \<not> is_operator c \<and> \<not> stops_term c"
  by (simp add: begins_atom_def)

lemma input_offset_add [simp]:
  "(a\<lparr>offset := n\<rparr>)\<lparr>offset := m\<rparr> = a\<lparr>offset := m\<rparr>"
  by simp

lemma eat_offset: "snd (eat a) = a\<lparr>offset := Suc (offset a)\<rparr>"
  by (simp add: eat_def)

lemma parse_wf:
  shows "wf_atom s \<Longrightarrow>
      (\<forall>a pre w. str a = pre @ s @ w \<longrightarrow> offset a = length pre \<longrightarrow>
         (\<exists>r f. parse_atom f a = Ok (r, a\<lparr>offset := offset a + length s\<rparr>)))"
    and "wf_factor s \<Longrightarrow>
      (\<forall>a pre w. str a = pre @ s @ w \<longrightarrow> offset a = length pre \<longrightarrow>
         \<not> is_operator (char_at w 0) \<longrightarrow>
         (\<exists>r f. parse_factor f a = Ok (r, a\<lparr>offset := offset a + length s\<rparr>)))"
    and "wf_term s \<Longrightarrow>
      (\<forall>a pre w. str a = pre @ s @ w \<longrightarrow> offset a = length pre \<longrightarrow>
         stops_term (char_at w 0) \<longrightarrow>
         (\<exists>r f. parse_term f a = Ok (r, a\<lparr>offset := offset a + length s\<rparr>)))"
    and "wf_expr s \<Longrightarrow>
      (\<forall>a pre w. str a = pre @ s @ w \<longrightarrow> offset a = length pre \<longrightarrow>
         stops_expr (char_at w 0) \<longrightarrow>
         (\<exists>r f. parse_expr f a = Ok (r, a\<lparr>offset := offset a + length s\<rparr>)))"
proof (induction rule: wf_atom_wf_factor_wf_term_wf_expr.inducts)
  case (atom_char c)
  show ?case
  proof (intro allI impI)
    fix a :: Input and pre w
    assume a: "str a = pre @ [c] @ w" "offset a = length pre"
    have pk: "peek a = c" using peek_at [OF a] by simp
    from atom_char have c: "printable c" "\<not> is_special c" "c \<noteq> CHR 0x5C" "c \<noteq> CHR 0x00"
      by (auto simp: plain_char_def)
    then have nc: "c \<noteq> CHR ''(''" "c \<noteq> CHR ''.''" "c \<noteq> CHR ''[''"
      by (auto simp: is_special_def)
    have "read_char a = Ok (c, a\<lparr>offset := offset a + 1\<rparr>)"
      using pk c by (simp add: read_char_def Let_def eat_def printable_def)
    with pk nc have "parse_atom (Suc 0) a = Ok (Lit c c, a\<lparr>offset := offset a + length [c]\<rparr>)"
      by (simp add: Let_def)
    then show "\<exists>r f. parse_atom f a = Ok (r, a\<lparr>offset := offset a + length [c]\<rparr>)" by blast
  qed
next
  case (atom_escape c)
  show ?case
  proof (intro allI impI)
    fix a :: Input and pre w
    assume a: "str a = pre @ [CHR 0x5C, c] @ w" "offset a = length pre"
    have pk: "peek a = CHR 0x5C" using peek_at [OF a] by simp
    have "peek (snd (eat a)) = char_at (c # w) 0"
      by (rule peek_at [of _ "pre @ [CHR 0x5C]"]) (use a in simp_all)
    then have pk2: "peek (snd (eat a)) = c" by simp
    have "read_char a = Ok (c, a\<lparr>offset := offset a + 2\<rparr>)"
      using pk pk2 atom_escape by (simp add: read_char_def read_escape_def Let_def eat_def)
    with pk have "parse_atom (Suc 0) a = Ok (Lit c c, a\<lparr>offset := offset a + length [CHR 0x5C, c]\<rparr>)"
      by (simp add: Let_def)
    then show "\<exists>r f. parse_atom f a = Ok (r, a\<lparr>offset := offset a + length [CHR 0x5C, c]\<rparr>)"
      by blast
  qed
next
  case atom_dot
  show ?case
  proof (intro allI impI)
    fix a :: Input and pre w
    assume a: "str a = pre @ ''.'' @ w" "offset a = length pre"
    have pk: "peek a = CHR ''.''" using peek_at [OF a] by simp
    then have "parse_atom (Suc 0) a = Ok (Lit cmin cmax, a\<lparr>offset := offset a + length ''.''\<rparr>)"
      by (simp add: Let_def eat_def)
    then show "\<exists>r f. parse_atom f a = Ok (r, a\<lparr>offset := offset a + length ''.''\<rparr>)" by blast
  qed
next
  case (atom_group e)
  show ?case
  proof (intro allI impI)
    fix a :: Input and pre w
    assume a: "str a = pre @ (CHR ''('' # e @ '')'') @ w" "offset a = length pre"
    have pk: "peek a = CHR ''(''" using peek_at [OF a] by simp
    let ?a0 = "snd (eat a)"
    let ?a1 = "?a0\<lparr>offset := offset ?a0 + length e\<rparr>"
    from atom_group.IH [rule_format, of ?a0 "pre @ ''(''" "CHR '')'' # w"] a
    obtain r f where p: "parse_expr f ?a0 = Ok (r, ?a1)"
      by (auto simp: stops_expr_def)
    have "peek ?a1 = char_at (CHR '')'' # w) 0"
      by (rule peek_at [of _ "pre @ CHR ''('' # e"]) (use a in simp_all)
    then have pk1: "peek ?a1 = CHR '')''" by simp
    have "snd (eat ?a1) = a\<lparr>offset := offset a + length (CHR ''('' # e @ '')'')\<rparr>"
      by (simp add: eat_def)
    with pk p pk1
    have "parse_atom (Suc f) a = Ok (r, a\<lparr>offset := offset a + length (CHR ''('' # e @ '')'')\<rparr>)"
      by (simp add: Let_def)
    then show "\<exists>r f. parse_atom f a = Ok (r, a\<lparr>offset := offset a + length (CHR ''('' # e @ '')'')\<rparr>)"
      by blast
  qed
next
  case (atom_set s)
  show ?case
  proof (intro allI impI)
    fix a :: Input and pre w
    assume a: "str a = pre @ (CHR ''['' # s @ '']'') @ w" "offset a = length pre"
    have pk: "peek a = CHR ''[''" using peek_at [OF a] by simp
    let ?a0 = "snd (eat a)"
    let ?a1 = "?a0\<lparr>offset := offset ?a0 + length s\<rparr>"
    from parse_set_wf [OF atom_set, of ?a0 "pre @ ''[''" w] a
    obtain r f where p: "parse_set f ?a0 = Ok (r, ?a1)"
      by auto
    have "snd (eat ?a1) = a\<lparr>offset := offset a + length (CHR ''['' # s @ '']'')\<rparr>"
      by (simp add: eat_def)
    with pk p
    have "parse_atom (Suc f) a = Ok (r, a\<lparr>offset := offset a + length (CHR ''['' # s @ '']'')\<rparr>)"
      by (simp add: Let_def)
    then show "\<exists>r f. parse_atom f a = Ok (r, a\<lparr>offset := offset a + length (CHR ''['' # s @ '']'')\<rparr>)"
      by blast
  qed
next
  case (factor_atom s)
  show ?case
  proof (intro allI impI)
    fix a :: Input and pre w
    assume a: "str a = pre @ s @ w" "offset a = length pre" and op: "\<not> is_operator (char_at w 0)"
    let ?a1 = "a\<lparr>offset := offset a + length s\<rparr>"
    from factor_atom.IH [rule_format, OF a] obtain r f where p: "parse_atom f a = Ok (r, ?a1)"
      by blast
    have "peek ?a1 = char_at w 0"
      by (rule peek_at [of _ "pre @ s"]) (use a in simp_all)
    with op p have "parse_factor (Suc f) a = Ok (r, ?a1)"
      by (simp add: Let_def is_operator_def)
    then show "\<exists>r f. parse_factor f a = Ok (r, ?a1)" by blast
  qed
next
  case (factor_postfix s c)
  show ?case
  proof (intro allI impI)
    fix a :: Input and pre w
    assume a: "str a = pre @ (s @ [c]) @ w" "offset a = length pre"
    let ?a1 = "a\<lparr>offset := offset a + length s\<rparr>"
    from factor_postfix.IH [rule_format, of a pre "c # w"] a
    obtain r f where p: "parse_atom f a = Ok (r, ?a1)"
      by auto
    have "peek ?a1 = char_at (c # w) 0"
      by (rule peek_at [of _ "pre @ s"]) (use a in simp_all)
    then have pk: "peek ?a1 = c" by simp
    have e: "snd (eat ?a1) = a\<lparr>offset := offset a + length (s @ [c])\<rparr>"
      by (simp add: eat_def)
    from factor_postfix.hyps(2) pk p
    have "\<exists>r'. parse_factor (Suc f) a = Ok (r', snd (eat ?a1))"
      by (auto simp: Let_def is_operator_def)
    then show "\<exists>r f. parse_factor f a = Ok (r, a\<lparr>offset := offset a + length (s @ [c])\<rparr>)"
      unfolding e by blast
  qed
next
  case (term_factor s)
  show ?case
  proof (intro allI impI)
    fix a :: Input and pre w
    assume a: "str a = pre @ s @ w" "offset a = length pre" and st: "stops_term (char_at w 0)"
    let ?a1 = "a\<lparr>offset := offset a + length s\<rparr>"
    from term_factor.IH [rule_format, OF a] st stops_not_operator
    obtain r f where p: "parse_factor f a = Ok (r, ?a1)"
      by blast
    have "peek ?a1 = char_at w 0"
      by (rule peek_at [of _ "pre @ s"]) (use a in simp_all)
    with st p have "parse_term (Suc f) a = Ok (r, ?a1)"
      by (simp add: Let_def stops_term_def)
    then show "\<exists>r f. parse_term f a = Ok (r, ?a1)" by blast
  qed
next
  case (term_concat s t)
  show ?case
  proof (intro allI impI)
    fix a :: Input and pre w
    assume a: "str a = pre @ (s @ t) @ w" "offset a = length pre" and st: "stops_term (char_at w 0)"
    let ?a1 = "a\<lparr>offset := offset a + length s\<rparr>"
    let ?a2 = "a\<lparr>offset := offset a + length (s @ t)\<rparr>"
    from wf_first(3) [OF term_concat.hyps(2)] have t: "t \<noteq> []" "begins_atom (hd t)" by simp_all
    then have hd: "char_at (t @ w) 0 = hd t" by (simp add: char_at_hd)
    from term_concat.IH(1) [rule_format, of a pre "t @ w"] a hd begins_atom_D [OF t(2)]
    obtain r1 f1 where p1: "parse_factor f1 a = Ok (r1, ?a1)"
      by auto
    from term_concat.IH(2) [rule_format, of ?a1 "pre @ s" w] a st
    obtain r2 f2 where p2: "parse_term f2 ?a1 = Ok (r2, ?a2)"
      by (auto simp: add.assoc)
    have "peek ?a1 = char_at (t @ w) 0"
      by (rule peek_at [of _ "pre @ s"]) (use a in simp_all)
    then have pk: "\<not> stops_term (peek ?a1)" using hd begins_atom_D [OF t(2)] by simp
    let ?f = "max f1 f2"
    have "parse_factor ?f a = Ok (r1, ?a1)"
      using parse_factor_fuel [of f1 a ?f] p1 by simp
    moreover have "parse_term ?f ?a1 = Ok (r2, ?a2)"
      using parse_term_fuel [of f2 ?a1 ?f] p2 by simp
    ultimately have "parse_term (Suc ?f) a = Ok (Cat r1 r2, ?a2)"
      using pk by (simp add: Let_def stops_term_def)
    then show "\<exists>r f. parse_term f a = Ok (r, ?a2)" by blast
  qed
next
  case (expr_term s)
  show ?case
  proof (intro allI impI)
    fix a :: Input and pre w
    assume a: "str a = pre @ s @ w" "offset a = length pre" and st: "stops_expr (char_at w 0)"
    let ?a1 = "a\<lparr>offset := offset a + length s\<rparr>"
    from expr_term.IH [rule_format, OF a] st stops_expr_term
    obtain r f where p: "parse_term f a = Ok (r, ?a1)"
      by blast
    have "peek ?a1 = char_at w 0"
      by (rule peek_at [of _ "pre @ s"]) (use a in simp_all)
    with st p have "parse_expr (Suc f) a = Ok (r, ?a1)"
      by (auto simp: stops_expr_def)
    then show "\<exists>r f. parse_expr f a = Ok (r, ?a1)" by blast
  qed
next
  case (expr_alt s e)
  show ?case
  proof (intro allI impI)
    fix a :: Input and pre w
    assume a: "str a = pre @ (s @ CHR ''|'' # e) @ w" "offset a = length pre"
      and st: "stops_expr (char_at w 0)"
    let ?a1 = "a\<lparr>offset := offset a + length s\<rparr>"
    let ?a2 = "a\<lparr>offset := offset a + length (s @ CHR ''|'' # e)\<rparr>"
    from expr_alt.IH(1) [rule_format, of a pre "CHR ''|'' # e @ w"] a
    obtain r1 f1 where p1: "parse_term f1 a = Ok (r1, ?a1)"
      by (auto simp: stops_term_def)
    from expr_alt.IH(2) [rule_format, of "snd (eat ?a1)" "pre @ s @ ''|''" w] a st
    obtain r2 f2 where p2: "parse_expr f2 (snd (eat ?a1)) = Ok (r2, ?a2)"
      by (auto simp: add.assoc eat_def)
    have "peek ?a1 = char_at (CHR ''|'' # e @ w) 0"
      by (rule peek_at [of _ "pre @ s"]) (use a in simp_all)
    then have pk: "peek ?a1 = CHR ''|''" by simp
    let ?f = "max f1 f2"
    have "parse_term ?f a = Ok (r1, ?a1)"
      using parse_term_fuel [of f1 a ?f] p1 by simp
    moreover have "parse_expr ?f (snd (eat ?a1)) = Ok (r2, ?a2)"
      using parse_expr_fuel [of f2 "snd (eat ?a1)" ?f] p2 by simp
    ultimately have "parse_expr (Suc ?f) a = Ok (Alt r1 r2, ?a2)"
      using pk by simp
    then show "\<exists>r f. parse_expr f a = Ok (r, ?a2)" by blast
  qed
qed

section \<open>Trailing input\<close>

lemma rerex_compile_wf:
  assumes "wf_expr A"
  shows "\<exists>re. rerex_compile A = Ok (length A, re)"
proof -
  let ?a = "\<lparr>str = A, offset = 0\<rparr>"
  from parse_wf(4) [OF assms, rule_format, of ?a "[]" "[]"]
  obtain r f where p: "parse_expr f ?a = Ok (r, ?a\<lparr>offset := offset ?a + length A\<rparr>)"
    by (auto simp: stops_expr_def)
  obtain nfa s1 where b: "build r [split_state NO_STATE NO_STATE] = (nfa, s1)"
    by (cases "build r [split_state NO_STATE NO_STATE]")
  from rerex_compile_OkI [OF p b] show ?thesis by simp
qed

lemma rerex_compile_trailing:
  assumes "rerex_compile A = Ok (length A, re)"
  shows "rerex_compile (A @ CHR '')'' # J) = Ok (length A, re)"
proof -
  let ?a = "\<lparr>str = A, offset = 0\<rparr>" and ?b = "\<lparr>str = A @ CHR '')'' # J, offset = 0\<rparr>"
  from assms obtain r a1 nfa where
    p: "parse_expr (compile_fuel A) ?a = Ok (r, a1)" and n: "offset a1 = length A"
    and b: "build r [split_state NO_STATE NO_STATE] = (nfa, states re)"
    and s: "start re = nfa_start nfa"
    by (rule rerex_compile_OkD)
  have "agree (offset a1 - offset ?a) ?a ?b"
    using agree_prefix [of A "CHR '')'' # J"] n by simp
  moreover have "peek (adv ?a a1 ?b) = CHR '')''"
    using n char_at_append2 [of A "CHR '')'' # J" 0]
    by (simp add: peek_char_at adv_def char_at_def)
  ultimately have "parse_expr (compile_fuel A) ?b = Ok (r, adv ?a a1 ?b)"
    using parse_expr_reloc [OF p, of ?b] by (simp add: stops_expr_def)
  from rerex_compile_OkI [OF this b] show ?thesis
    using n s by (simp add: adv_def)
qed

lemma rerex_compile_consumed:
  assumes "rerex_compile p = Ok (e, re)"
  shows "e \<le> length p" "e < length p \<Longrightarrow> p ! e = CHR '')'' \<or> p ! e = CHR 0x00"
    "rerex_compile (take e p) = Ok (e, re)"
proof -
  let ?a = "\<lparr>str = p, offset = 0\<rparr>" and ?b = "\<lparr>str = take e p, offset = 0\<rparr>"
  from assms obtain r a1 nfa where
    p: "parse_expr (compile_fuel p) ?a = Ok (r, a1)" and n: "offset a1 = e"
    and b: "build r [split_state NO_STATE NO_STATE] = (nfa, states re)"
    and s: "start re = nfa_start nfa"
    by (rule rerex_compile_OkD)
  from parse_expr_Ok [OF p] have ok: "str a1 = p" "e \<le> length p" "stops_expr (peek a1)"
    using n by (simp_all add: advanced_def)
  show "e \<le> length p" by (rule ok(2))
  show "p ! e = CHR '')'' \<or> p ! e = CHR 0x00" if "e < length p"
    using ok that n by (auto simp: stops_expr_def peek_def)
  have "agree (offset a1 - offset ?a) ?a ?b"
    using n by (simp add: agree_def char_at_def)
  moreover have "peek (adv ?a a1 ?b) = CHR 0x00"
    using n by (simp add: peek_char_at adv_def char_at_def)
  ultimately have "parse_expr (compile_fuel p) ?b = Ok (r, adv ?a a1 ?b)"
    using parse_expr_reloc [OF p, of ?b] by (simp add: stops_expr_def)
  from rerex_compile_OkI [OF this b] show "rerex_compile (take e p) = Ok (e, re)"
    using n s by (simp add: adv_def)
qed

text \<open>
  C7, as stated: a well-formed expression followed by trailing bytes that no enclosing
  production accepts compiles with success and a partial end offset. It fails when the
  trailing byte is not a closing parenthesis: \<open>a\<close> is a well-formed expression and
  nothing accepts the \<open>]\<close> or the \<open>}\<close> after it, but \<open>a]\<close> and \<open>a}\<close> are rejected with
  the unexpected-special status at offset 1.
\<close>

theorem trailing_input_counterexample:
  "wf_expr ''a'' \<and>
   rerex_compile ''a]'' = Error REREX_UNEXPECTED_SPECIAL 1 \<and>
   rerex_compile ''a}'' = Error REREX_UNEXPECTED_SPECIAL 1"
proof (intro conjI)
  have "plain_char CHR ''a''"
    by (simp add: plain_char_def printable_def is_special_def codepoint_def cmin_def cmax_def)
  then show "wf_expr ''a''"
    by (intro expr_term term_factor factor_atom atom_char)
  show "rerex_compile ''a]'' = Error REREX_UNEXPECTED_SPECIAL 1" by code_simp
  show "rerex_compile ''a}'' = Error REREX_UNEXPECTED_SPECIAL 1" by code_simp
qed

text \<open>
  C7, amended: the trailing byte that is left unconsumed is a closing parenthesis.
  Every well-formed expression \<open>A\<close> of the pattern language compiles and is consumed
  whole, and \<open>A\<close> followed by a closing parenthesis and any further bytes compiles with
  success to the same pattern, with the end offset \<open>length A\<close>: the trailing bytes are
  left unconsumed and no error is raised. In general, a successful compilation has
  consumed the \<open>e\<close> bytes before its end offset, the pattern it returns is the one of
  these bytes alone, and the byte it has left at \<open>e\<close>, if any, is a closing parenthesis
  (or a terminator inside the list).
\<close>

theorem trailing_input_ignored:
  "(\<forall>A. wf_expr A \<longrightarrow>
      (\<exists>re. rerex_compile A = Ok (length A, re) \<and>
            (\<forall>J. rerex_compile (A @ CHR '')'' # J) = Ok (length A, re)))) \<and>
   (\<forall>p e re. rerex_compile p = Ok (e, re) \<longrightarrow>
      e \<le> length p \<and> (e < length p \<longrightarrow> p ! e = CHR '')'' \<or> p ! e = CHR 0x00) \<and>
      rerex_compile (take e p) = Ok (e, re))"
proof (intro conjI allI impI)
  fix A assume "wf_expr A"
  from rerex_compile_wf [OF this] obtain re where re: "rerex_compile A = Ok (length A, re)" ..
  with rerex_compile_trailing [OF re]
  show "\<exists>re. rerex_compile A = Ok (length A, re) \<and>
            (\<forall>J. rerex_compile (A @ CHR '')'' # J) = Ok (length A, re))"
    by blast
next
  fix p e re assume c: "rerex_compile p = Ok (e, re)"
  show "e \<le> length p" by (rule rerex_compile_consumed(1) [OF c])
  show "rerex_compile (take e p) = Ok (e, re)" by (rule rerex_compile_consumed(3) [OF c])
  assume "e < length p"
  then show "p ! e = CHR '')'' \<or> p ! e = CHR 0x00" by (rule rerex_compile_consumed(2) [OF c])
qed

theorem trailing_input_ignored_witness:
  "wf_expr ''a'' \<and>
   rerex_compile ''a'' = Ok (1, \<lparr>states = [split_state 0 0, match_state, range_state CHR ''a'' CHR ''a'' 1], start = 2\<rparr>) \<and>
   rerex_compile ''a)b'' = Ok (1, \<lparr>states = [split_state 0 0, match_state, range_state CHR ''a'' CHR ''a'' 1], start = 2\<rparr>) \<and>
   rerex_compile ''a)'' = Ok (1, \<lparr>states = [split_state 0 0, match_state, range_state CHR ''a'' CHR ''a'' 1], start = 2\<rparr>)"
proof -
  have "plain_char CHR ''a''"
    by (simp add: plain_char_def printable_def is_special_def codepoint_def cmin_def cmax_def)
  then have w: "wf_expr ''a''"
    by (intro expr_term term_factor factor_atom atom_char)
  have h: "rerex_compile ''a'' = Ok (1, \<lparr>states = [split_state 0 0, match_state, range_state CHR ''a'' CHR ''a'' 1], start = 2\<rparr>)"
    by code_simp
  from trailing_input_ignored [THEN conjunct1, rule_format, OF w] h
  have 1: "rerex_compile (''a'' @ CHR '')'' # J) = Ok (1, \<lparr>states = [split_state 0 0, match_state, range_state CHR ''a'' CHR ''a'' 1], start = 2\<rparr>)" for J
    by auto
  from 1 [of "''b''"] 1 [of "[]"] w h show ?thesis by simp
qed

section \<open>Unordered ranges\<close>

lemma char_at_append_cong:
  assumes "\<forall>k<n. char_at w' k = char_at w k" "k < n"
  shows "char_at (s @ w') k = char_at (s @ w) k"
proof (cases "k < length s")
  case True
  then show ?thesis by (simp add: char_at_append1)
next
  case False
  then obtain j where k: "k = length s + j" using le_Suc_ex [of "length s" k] by auto
  with assms have "char_at w' j = char_at w j" by simp
  then show ?thesis unfolding k by (simp only: char_at_append2)
qed

lemma wf_ranges_cont2:
  assumes "wf_ranges s w" "\<forall>k<2. char_at w' k = char_at w k"
  shows "wf_ranges s w'"
  using assms
proof (induction rule: wf_ranges.induct)
  case (ranges_none w)
  show ?case by (rule wf_ranges.ranges_none)
next
  case (ranges_single x e s w)
  have "char_at (s @ w') 0 = char_at (s @ w) 0" "char_at (s @ w') 1 = char_at (s @ w) 1"
    using char_at_append_cong [OF ranges_single.prems, of 0 s]
      char_at_append_cong [OF ranges_single.prems, of 1 s] by simp_all
  with ranges_single show ?case by (intro wf_ranges.ranges_single) simp_all
next
  case (ranges_range x e1 y e2 s w)
  then show ?case by (intro wf_ranges.ranges_range) simp_all
qed

lemma wf_element_length: "wf_element c e \<Longrightarrow> 0 < length e"
  by (auto simp: wf_element_def)

lemma parse_set_unordered:
  assumes n: "n = [] \<or> n = ''^''"
    and rs: "wf_ranges rs (e1 @ CHR ''-'' # e2)"
    and hat: "n = [] \<longrightarrow> hd (rs @ e1) \<noteq> CHR ''^''"
    and e1: "wf_element x e1" and e2: "wf_element y e2" and lt: "codepoint y < codepoint x"
    and a: "str a = pre @ n @ rs @ e1 @ CHR ''-'' # e2 @ v" "offset a = length pre"
  shows "\<exists>f. parse_set f a =
     Error REREX_UNORDERED_RANGE (length (pre @ n @ rs @ e1 @ CHR ''-'' # e2))"
proof -
  let ?w = "e1 @ CHR ''-'' # e2 @ v"
  let ?E = "length (pre @ n @ rs @ e1 @ CHR ''-'' # e2)"
  have "\<forall>k<2. char_at ?w k = char_at (e1 @ CHR ''-'' # e2) k"
  proof (intro allI impI)
    fix k :: nat assume "k < 2"
    then have "k < length (e1 @ CHR ''-'' # e2)"
      using wf_element_length [OF e1] wf_element_length [OF e2] by (cases e1; cases e2) auto
    from char_at_append1 [OF this, of v] show "char_at ?w k = char_at (e1 @ CHR ''-'' # e2) k"
      by simp
  qed
  with rs have wr: "wf_ranges rs ?w" by (rule wf_ranges_cont2)
  define neg where "neg = (peek a = CHR ''^'')"
  define a0 where "a0 = (if neg then snd (eat a) else a)"
  have e1ne: "e1 \<noteq> []" using wf_element_length [OF e1] by auto
  have pk: "peek a = char_at (n @ rs @ ?w) 0"
    by (rule peek_at [OF a])
  have neg: "neg \<longleftrightarrow> n = ''^''"
  proof (cases "n = []")
    case True
    have "char_at ((rs @ e1) @ CHR ''-'' # e2 @ v) 0 = hd (rs @ e1)"
      by (rule char_at_hd) (use e1ne in simp)
    with True hat pk show ?thesis by (simp add: neg_def)
  next
    case False
    with n pk show ?thesis by (simp add: neg_def)
  qed
  have a0: "str a0 = (pre @ n) @ rs @ ?w" "offset a0 = length (pre @ n)"
    using a n neg by (auto simp: a0_def eat_def)
  let ?aE = "a0\<lparr>offset := offset a0 + length rs\<rparr>"
  have aE: "str ?aE = (pre @ n @ rs) @ e1 @ CHR ''-'' # e2 @ v" "offset ?aE = length (pre @ n @ rs)"
    using a0 by simp_all
  have last: "parse_range ?aE neg = Error REREX_UNORDERED_RANGE ?E"
    using parse_range_pair [OF e1 e2 aE, of neg] lt aE(2) by (simp add: add.assoc)
  show ?thesis
  proof (cases "rs = []")
    case True
    with last have "parse_range a0 neg = Error REREX_UNORDERED_RANGE ?E" by simp
    then have "parse_set 0 a = Error REREX_UNORDERED_RANGE ?E"
      by (simp add: parse_set_def Let_def flip: neg_def a0_def)
    then show ?thesis ..
  next
    case False
    from parse_set_ranges [OF wr False a0, of neg] obtain r1 a1 r' where
      1: "parse_range a0 neg = Ok (r1, a1)" and
      2: "\<And>f res. parse_set_loop f ?aE neg r' = res \<Longrightarrow> res \<noteq> OutOfFuel \<Longrightarrow>
            \<exists>f'. parse_set_loop f' a1 neg r1 = res"
      by blast
    have "peek ?aE = char_at (e1 @ CHR ''-'' # e2 @ v) 0"
      by (rule peek_at [OF aE])
    then have "peek ?aE \<noteq> CHR '']''"
      using wf_element_first [OF e1, of "CHR ''-'' # e2 @ v"] by simp
    with last have "parse_set_loop (Suc 0) ?aE neg r' = Error REREX_UNORDERED_RANGE ?E"
      by simp
    from 2 [OF this] obtain f' where
      "parse_set_loop f' a1 neg r1 = Error REREX_UNORDERED_RANGE ?E" by auto
    with 1 have "parse_set f' a = Error REREX_UNORDERED_RANGE ?E"
      by (simp add: parse_set_def Let_def flip: neg_def a0_def)
    then show ?thesis ..
  qed
qed

lemma parse_term_set_error:
  assumes "parse_set f (snd (eat a)) = Error st e" "peek a = CHR ''[''"
  shows "parse_term (Suc (Suc (Suc f))) a = Error st e"
  using assms by (simp add: Let_def)

text \<open>
  An error raised where an expression or a term begins is the result of the whole
  parse.
\<close>

lemma pos_propagates:
  shows "expr_pos u \<Longrightarrow>
      (\<forall>w st e. (\<exists>f. parse_expr f \<lparr>str = u @ w, offset = length u\<rparr> = Error st e) \<longrightarrow>
         (\<exists>f. parse_expr f \<lparr>str = u @ w, offset = 0\<rparr> = Error st e))"
    and "term_pos u \<Longrightarrow>
      (\<forall>w st e. begins_atom (char_at w 0) \<longrightarrow>
         (\<exists>f. parse_term f \<lparr>str = u @ w, offset = length u\<rparr> = Error st e) \<longrightarrow>
         (\<exists>f. parse_expr f \<lparr>str = u @ w, offset = 0\<rparr> = Error st e))"
proof (induction rule: expr_pos_term_pos.inducts)
  case pos_start
  show ?case by simp
next
  case (pos_group u)
  show ?case
  proof (intro allI impI)
    fix w st e
    assume "\<exists>f. parse_expr f \<lparr>str = (u @ ''('') @ w, offset = length (u @ ''('')\<rparr> = Error st e"
    then obtain f where
      f: "parse_expr f \<lparr>str = u @ CHR ''('' # w, offset = Suc (length u)\<rparr> = Error st e"
      by auto
    let ?a = "\<lparr>str = u @ CHR ''('' # w, offset = length u\<rparr>"
    have pk: "peek ?a = CHR ''(''" using peek_at [of ?a u "CHR ''('' # w"] by simp
    from f pk have "parse_term (Suc (Suc (Suc f))) ?a = Error st e"
      by (simp add: Let_def eat_def)
    then have "\<exists>f. parse_term f ?a = Error st e" ..
    with pos_group.IH [rule_format, of "CHR ''('' # w" st e]
    show "\<exists>f. parse_expr f \<lparr>str = (u @ ''('') @ w, offset = 0\<rparr> = Error st e"
      by simp
  qed
next
  case (pos_alt u t)
  show ?case
  proof (intro allI impI)
    fix w st e
    assume "\<exists>f. parse_expr f \<lparr>str = (u @ t @ ''|'') @ w, offset = length (u @ t @ ''|'')\<rparr> =
      Error st e"
    then obtain f where
      f: "parse_expr f \<lparr>str = u @ t @ CHR ''|'' # w, offset = Suc (length u + length t)\<rparr> =
        Error st e"
      by auto
    let ?a = "\<lparr>str = u @ t @ CHR ''|'' # w, offset = length u\<rparr>"
    let ?a1 = "?a\<lparr>offset := offset ?a + length t\<rparr>"
    from parse_wf(3) [OF pos_alt.hyps(2), rule_format, of ?a u "CHR ''|'' # w"]
    obtain r f1 where p1: "parse_term f1 ?a = Ok (r, ?a1)"
      by (auto simp: stops_term_def)
    have pk: "peek ?a1 = CHR ''|''" using peek_at [of ?a1 "u @ t" "CHR ''|'' # w"] by simp
    have ea: "snd (eat ?a1) = \<lparr>str = u @ t @ CHR ''|'' # w, offset = Suc (length u + length t)\<rparr>"
      by (simp add: eat_def)
    let ?f = "max f1 f"
    have "parse_term ?f ?a = Ok (r, ?a1)"
      using parse_term_fuel [of f1 ?a ?f] p1 by simp
    moreover have "parse_expr ?f (snd (eat ?a1)) = Error st e"
      using parse_expr_fuel [of f "snd (eat ?a1)" ?f] f unfolding ea by simp
    ultimately have "parse_expr (Suc ?f) ?a = Error st e"
      using pk by simp
    then have "\<exists>f. parse_expr f ?a = Error st e" ..
    with pos_alt.IH [rule_format, of "t @ CHR ''|'' # w" st e]
    show "\<exists>f. parse_expr f \<lparr>str = (u @ t @ ''|'') @ w, offset = 0\<rparr> = Error st e"
      by simp
  qed
next
  case (pos_expr u)
  show ?case
  proof (intro allI impI)
    fix w st e
    assume "\<exists>f. parse_term f \<lparr>str = u @ w, offset = length u\<rparr> = Error st e"
    then obtain f where "parse_term f \<lparr>str = u @ w, offset = length u\<rparr> = Error st e" ..
    then have "parse_expr (Suc f) \<lparr>str = u @ w, offset = length u\<rparr> = Error st e" by simp
    then have "\<exists>f. parse_expr f \<lparr>str = u @ w, offset = length u\<rparr> = Error st e" ..
    with pos_expr.IH show "\<exists>f. parse_expr f \<lparr>str = u @ w, offset = 0\<rparr> = Error st e"
      by blast
  qed
next
  case (pos_factor u t)
  show ?case
  proof (intro allI impI)
    fix w st e
    assume b: "begins_atom (char_at w 0)"
      and "\<exists>f. parse_term f \<lparr>str = (u @ t) @ w, offset = length (u @ t)\<rparr> = Error st e"
    then obtain f where
      f: "parse_term f \<lparr>str = u @ t @ w, offset = length u + length t\<rparr> = Error st e"
      by auto
    let ?a = "\<lparr>str = u @ t @ w, offset = length u\<rparr>"
    let ?a1 = "?a\<lparr>offset := offset ?a + length t\<rparr>"
    from parse_wf(2) [OF pos_factor.hyps(2), rule_format, of ?a u w] begins_atom_D [OF b]
    obtain r f1 where p1: "parse_factor f1 ?a = Ok (r, ?a1)"
      by auto
    have "peek ?a1 = char_at w 0" using peek_at [of ?a1 "u @ t" w] by simp
    then have pk: "\<not> stops_term (peek ?a1)" using begins_atom_D [OF b] by simp
    have ea: "?a1 = \<lparr>str = u @ t @ w, offset = length u + length t\<rparr>" by simp
    let ?f = "max f1 f"
    have "parse_factor ?f ?a = Ok (r, ?a1)"
      using parse_factor_fuel [of f1 ?a ?f] p1 by simp
    moreover have "parse_term ?f ?a1 = Error st e"
      using parse_term_fuel [of f ?a1 ?f] f ea by simp
    ultimately have "parse_term (Suc ?f) ?a = Error st e"
      using pk by (simp add: Let_def stops_term_def)
    then have 1: "\<exists>f. parse_term f ?a = Error st e" ..
    from wf_first(2) [OF pos_factor.hyps(2)] have "begins_atom (char_at (t @ w) 0)"
      by (simp add: char_at_hd)
    with pos_factor.IH [rule_format, of "t @ w" st e] 1
    show "\<exists>f. parse_expr f \<lparr>str = (u @ t) @ w, offset = 0\<rparr> = Error st e"
      by simp
  qed
qed

lemma rerex_compile_unordered:
  assumes u: "term_pos u" and n: "n = [] \<or> n = ''^''"
    and rs: "wf_ranges rs (e1 @ CHR ''-'' # e2)"
    and hat: "n = [] \<longrightarrow> hd (rs @ e1) \<noteq> CHR ''^''"
    and e1: "wf_element x e1" and e2: "wf_element y e2" and lt: "codepoint y < codepoint x"
  shows "rerex_compile (u @ CHR ''['' # n @ rs @ e1 @ CHR ''-'' # e2 @ v) =
     Error REREX_UNORDERED_RANGE (length (u @ CHR ''['' # n @ rs @ e1 @ CHR ''-'' # e2))"
proof -
  let ?w = "CHR ''['' # n @ rs @ e1 @ CHR ''-'' # e2 @ v"
  let ?a = "\<lparr>str = u @ ?w, offset = length u\<rparr>"
  let ?E = "length (u @ CHR ''['' # n @ rs @ e1 @ CHR ''-'' # e2)"
  have "str (snd (eat ?a)) = (u @ ''['') @ n @ rs @ e1 @ CHR ''-'' # e2 @ v"
    "offset (snd (eat ?a)) = length (u @ ''['')"
    by simp_all
  from parse_set_unordered [OF n rs hat e1 e2 lt this]
  obtain f where "parse_set f (snd (eat ?a)) = Error REREX_UNORDERED_RANGE ?E"
    by auto
  moreover have "peek ?a = CHR ''[''" using peek_at [of ?a u ?w] by simp
  ultimately have "parse_term (Suc (Suc (Suc f))) ?a = Error REREX_UNORDERED_RANGE ?E"
    by (rule parse_term_set_error)
  then have "\<exists>f. parse_term f ?a = Error REREX_UNORDERED_RANGE ?E" ..
  with pos_propagates(2) [OF u, rule_format, of ?w REREX_UNORDERED_RANGE ?E]
  obtain f' where "parse_expr f' \<lparr>str = u @ ?w, offset = 0\<rparr> = Error REREX_UNORDERED_RANGE ?E"
    by auto
  then show ?thesis by (rule rerex_compile_ErrorI)
qed

lemma read_range_unordered:
  "read_range input sts negated = Error REREX_UNORDERED_RANGE e \<longleftrightarrow>
      (\<exists>mn input1 mx input2.
          read_element input = Ok (mn, input1) \<and> peek input1 = CHR ''-'' \<and>
          peekahead input1 \<noteq> CHR '']'' \<and>
          read_element (snd (eat input1)) = Ok (mx, input2) \<and>
          codepoint mx < codepoint mn \<and> e = offset input2)"
proof -
  have "read_range input sts negated = Error REREX_UNORDERED_RANGE e \<longleftrightarrow>
        parse_range input negated = Error REREX_UNORDERED_RANGE e"
    by (cases "parse_range input negated") (auto simp: read_range_emit split: prod.splits)
  then show ?thesis
    by (simp only: parse_range_unordered)
qed

lemma rerex_compile_class:
  assumes a: "printable x \<and> printable y \<and> x \<notin> {CHR '']'', CHR 0x5C, CHR ''^''} \<and>
    y \<notin> {CHR '']'', CHR 0x5C}"
  shows "rerex_compile [CHR ''['', x, CHR ''-'', y, CHR '']''] =
        (if codepoint y < codepoint x then Error REREX_UNORDERED_RANGE 4
         else Ok (5, \<lparr>states = [split_state NO_STATE NO_STATE, match_state, range_state x y 1],
                      start = 2\<rparr>))"
proof -
  from a have nz: "x \<noteq> CHR 0x00" "y \<noteq> CHR 0x00" by auto
  let ?p = "[CHR ''['', x, CHR ''-'', y, CHR '']'']"
  let ?a = "\<lambda>n. \<lparr>str = ?p, offset = n\<rparr>"
  have e1: "read_element (?a (Suc 0)) = Ok (x, ?a 2)"
    using a nz by (simp add: read_element_def Let_def peek_def eat_def printable_def)
  have e2: "read_element (?a 3) = Ok (y, ?a 4)"
    using a nz by (simp add: read_element_def Let_def peek_def eat_def printable_def)
  have r: "parse_range (?a (Suc 0)) False =
      (if codepoint y < codepoint x then Error REREX_UNORDERED_RANGE 4 else Ok (Lit x y, ?a 4))"
    using a e1 e2 by (simp add: parse_range_def peek_def peekahead_def eat_def)
  have s: "parse_set f (?a (Suc 0)) =
      (if codepoint y < codepoint x then Error REREX_UNORDERED_RANGE 4
       else parse_set_loop f (?a 4) False (Lit x y))" for f
    using a r by (simp add: parse_set_def Let_def peek_def)
  have l: "parse_set_loop (Suc f) (?a 4) False (Lit x y) = Ok (Lit x y, ?a 4)" for f
    by (simp add: peek_def)
  have at: "parse_atom (Suc (Suc f)) (?a 0) =
      (if codepoint y < codepoint x then Error REREX_UNORDERED_RANGE 4
       else Ok (Lit x y, ?a 5))" for f
    by (simp add: Let_def peek_def eat_def s l del: parse_set_loop.simps)
  have ex: "parse_expr (Suc (Suc (Suc (Suc (Suc f))))) (?a 0) =
      (if codepoint y < codepoint x then Error REREX_UNORDERED_RANGE 4
       else Ok (Lit x y, ?a 5))" for f
    by (simp add: at Let_def peek_def del: parse_atom_Suc)
  have "compile_fuel ?p = Suc (Suc (Suc (Suc (Suc 19))))"
    by (simp add: compile_fuel_def)
  then have pe: "parse_expr (compile_fuel ?p) (?a 0) =
      (if codepoint y < codepoint x then Error REREX_UNORDERED_RANGE 4
       else Ok (Lit x y, ?a 5))"
    by (simp only: ex)
  show ?thesis
    by (simp add: rerex_compile_parse pe add_state_def make_automata_def Let_def)
qed

text \<open>
  C5. Wherever a class stands in a pattern (after any prefix \<open>u\<close> at which the parser
  begins a term), negated or not, and whatever ranges \<open>rs\<close> of the class come first: if
  its next range has the endpoints \<open>x\<close> and \<open>y\<close> (plain, or the escaped bracket) and
  \<open>y\<close> is below \<open>x\<close>, the compilation fails with the unordered-range status, at the
  offset after the upper endpoint, whatever follows; so when such a pattern is accepted,
  \<open>x \<le> y\<close>. \<open>read_range\<close> itself returns this status exactly when it has read both
  endpoints and the upper is below the lower. A class \<open>[x-y]\<close> of two plain bytes
  compiles exactly when \<open>x \<le> y\<close>, to the single range state from \<open>x\<close> to \<open>y\<close>, and
  \<open>[z-a]\<close> fails with the unordered-range status and the end offset 4.
\<close>

theorem unordered_range:
  "(\<forall>u n rs e1 e2 x y v.
      term_pos u \<and> (n = [] \<or> n = ''^'') \<and> wf_ranges rs (e1 @ CHR ''-'' # e2) \<and>
      (n = [] \<longrightarrow> hd (rs @ e1) \<noteq> CHR ''^'') \<and> wf_element x e1 \<and> wf_element y e2 \<longrightarrow>
      (codepoint y < codepoint x \<longrightarrow>
         rerex_compile (u @ CHR ''['' # n @ rs @ e1 @ CHR ''-'' # e2 @ v) =
           Error REREX_UNORDERED_RANGE (length (u @ CHR ''['' # n @ rs @ e1 @ CHR ''-'' # e2))) \<and>
      (\<forall>k re. rerex_compile (u @ CHR ''['' # n @ rs @ e1 @ CHR ''-'' # e2 @ v) = Ok (k, re) \<longrightarrow>
         codepoint x \<le> codepoint y)) \<and>
   (\<forall>input sts negated e.
      read_range input sts negated = Error REREX_UNORDERED_RANGE e \<longleftrightarrow>
      (\<exists>mn input1 mx input2.
          read_element input = Ok (mn, input1) \<and> peek input1 = CHR ''-'' \<and>
          peekahead input1 \<noteq> CHR '']'' \<and>
          read_element (snd (eat input1)) = Ok (mx, input2) \<and>
          codepoint mx < codepoint mn \<and> e = offset input2)) \<and>
   (\<forall>x y. printable x \<and> printable y \<and> x \<notin> {CHR '']'', CHR 0x5C, CHR ''^''} \<and>
      y \<notin> {CHR '']'', CHR 0x5C} \<longrightarrow>
      rerex_compile [CHR ''['', x, CHR ''-'', y, CHR '']''] =
        (if codepoint y < codepoint x then Error REREX_UNORDERED_RANGE 4
         else Ok (5, \<lparr>states = [split_state NO_STATE NO_STATE, match_state, range_state x y 1],
                      start = 2\<rparr>))) \<and>
   rerex_compile ''[z-a]'' = Error REREX_UNORDERED_RANGE 4"
proof (intro conjI allI impI)
  fix u n rs e1 e2 x y v
  assume h: "term_pos u \<and> (n = [] \<or> n = ''^'') \<and> wf_ranges rs (e1 @ CHR ''-'' # e2) \<and>
      (n = [] \<longrightarrow> hd (rs @ e1) \<noteq> CHR ''^'') \<and> wf_element x e1 \<and> wf_element y e2"
  let ?p = "u @ CHR ''['' # n @ rs @ e1 @ CHR ''-'' # e2 @ v"
  have *: "rerex_compile ?p =
      Error REREX_UNORDERED_RANGE (length (u @ CHR ''['' # n @ rs @ e1 @ CHR ''-'' # e2))"
    if "codepoint y < codepoint x"
    by (rule rerex_compile_unordered) (use h that in simp_all)
  {
    assume "codepoint y < codepoint x"
    then show "rerex_compile ?p =
      Error REREX_UNORDERED_RANGE (length (u @ CHR ''['' # n @ rs @ e1 @ CHR ''-'' # e2))"
      by (rule *)
  }
  {
    fix k re assume "rerex_compile ?p = Ok (k, re)"
    with * show "codepoint x \<le> codepoint y" by (cases "codepoint y < codepoint x") simp_all
  }
next
  fix input sts negated e
  show "read_range input sts negated = Error REREX_UNORDERED_RANGE e \<longleftrightarrow>
      (\<exists>mn input1 mx input2.
          read_element input = Ok (mn, input1) \<and> peek input1 = CHR ''-'' \<and>
          peekahead input1 \<noteq> CHR '']'' \<and>
          read_element (snd (eat input1)) = Ok (mx, input2) \<and>
          codepoint mx < codepoint mn \<and> e = offset input2)"
    by (rule read_range_unordered)
next
  fix x y
  assume "printable x \<and> printable y \<and> x \<notin> {CHR '']'', CHR 0x5C, CHR ''^''} \<and>
      y \<notin> {CHR '']'', CHR 0x5C}"
  then show "rerex_compile [CHR ''['', x, CHR ''-'', y, CHR '']''] =
        (if codepoint y < codepoint x then Error REREX_UNORDERED_RANGE 4
         else Ok (5, \<lparr>states = [split_state NO_STATE NO_STATE, match_state, range_state x y 1],
                      start = 2\<rparr>))"
    by (rule rerex_compile_class)
next
  show "rerex_compile ''[z-a]'' = Error REREX_UNORDERED_RANGE 4"
    by code_simp
qed

theorem unordered_range_witness:
  "term_pos ''x('' \<and> wf_ranges ''a-c'' ''z-a'' \<and>
   wf_element CHR ''z'' ''z'' \<and> wf_element CHR ''a'' ''a'' \<and>
   rerex_compile ''x([^a-cz-a])'' = Error REREX_UNORDERED_RANGE 10 \<and>
   rerex_compile ''[a-cz-a]'' = Error REREX_UNORDERED_RANGE 7 \<and>
   rerex_compile ''[^z-a]'' = Error REREX_UNORDERED_RANGE 5 \<and>
   rerex_compile ''x([z-a])'' = Error REREX_UNORDERED_RANGE 6 \<and>
   rerex_compile ''[z-a]'' = Error REREX_UNORDERED_RANGE 4 \<and>
   rerex_compile ''[a-z]'' =
     Ok (5, \<lparr>states = [split_state NO_STATE NO_STATE, match_state,
                       range_state CHR ''a'' CHR ''z'' 1], start = 2\<rparr>)"
proof -
  have pc: "plain_char CHR ''x''"
    by (simp add: plain_char_def printable_def is_special_def codepoint_def cmin_def cmax_def)
  have "term_pos ([] @ ''x'')"
    by (intro pos_factor pos_expr pos_start factor_atom atom_char pc)
  then have "expr_pos (''x'' @ ''('')"
    using pos_group [of "''x''"] by simp
  then have u: "term_pos ''x(''"
    using pos_expr [of "''x(''"] by simp
  have el: "wf_element CHR ''a'' ''a''" "wf_element CHR ''c'' ''c''" "wf_element CHR ''z'' ''z''"
    by (simp_all add: wf_element_def printable_def codepoint_def cmin_def cmax_def)
  have "wf_ranges (''a'' @ CHR ''-'' # ''c'' @ []) ''z-a''"
    by (rule ranges_range [OF el(1,2) _ ranges_none]) (simp add: codepoint_def)
  then have rs: "wf_ranges ''a-c'' ''z-a''" by simp
  have lt: "codepoint CHR ''a'' < codepoint CHR ''z''" by (simp add: codepoint_def)
  from unordered_range [THEN conjunct1, rule_format,
      of "''x(''" "''^''" "''a-c''" "''z''" "''a''" "CHR ''z''" "CHR ''a''", THEN conjunct1,
      rule_format, of "''])''"] u rs el lt
  have 1: "rerex_compile ''x([^a-cz-a])'' = Error REREX_UNORDERED_RANGE 10"
    by simp
  from unordered_range [THEN conjunct1, rule_format,
      of "[]" "[]" "''a-c''" "''z''" "''a''" "CHR ''z''" "CHR ''a''", THEN conjunct1,
      rule_format, of "'']''"] pos_expr [OF pos_start] rs el lt
  have 2: "rerex_compile ''[a-cz-a]'' = Error REREX_UNORDERED_RANGE 7"
    by simp
  from unordered_range [THEN conjunct1, rule_format,
      of "[]" "''^''" "[]" "''z''" "''a''" "CHR ''z''" "CHR ''a''", THEN conjunct1,
      rule_format, of "'']''"] pos_expr [OF pos_start] ranges_none [of "''z-a''"] el lt
  have 3: "rerex_compile ''[^z-a]'' = Error REREX_UNORDERED_RANGE 5"
    by simp
  from unordered_range [THEN conjunct1, rule_format,
      of "''x(''" "[]" "[]" "''z''" "''a''" "CHR ''z''" "CHR ''a''", THEN conjunct1,
      rule_format, of "''])''"] u ranges_none [of "''z-a''"] el lt
  have 4: "rerex_compile ''x([z-a])'' = Error REREX_UNORDERED_RANGE 6"
    by simp
  have 5: "rerex_compile ''[z-a]'' = Error REREX_UNORDERED_RANGE 4 \<and>
   rerex_compile ''[a-z]'' =
     Ok (5, \<lparr>states = [split_state NO_STATE NO_STATE, match_state,
                       range_state CHR ''a'' CHR ''z'' 1], start = 2\<rparr>)"
    using unordered_range [THEN conjunct2, THEN conjunct2, THEN conjunct1, rule_format,
        of "CHR ''a''" "CHR ''z''"] unordered_range [THEN conjunct2, THEN conjunct2, THEN conjunct2]
    by (simp add: printable_def codepoint_def cmin_def cmax_def)
  from 1 2 3 4 5 u rs el show ?thesis by simp
qed

section \<open>Paths\<close>

lemma path_arc: "arc S p x q \<Longrightarrow> path S p x q"
  using path_step [OF _ path_refl, of S p x q] by simp

lemma path_append: "path S p u r \<Longrightarrow> path S r v q \<Longrightarrow> path S p (u @ v) q"
  by (induction rule: path.induct) (auto intro: path.intros)

lemma path_closed:
  assumes "path S p w q" "p \<in> L" "\<forall>i\<in>L. \<forall>x q. arc S i x q \<longrightarrow> q \<in> L"
  shows "q \<in> L"
  using assms by (induction rule: path.induct) auto

lemma path_mono:
  assumes "path S p w q" "p \<in> L" "\<forall>i\<in>L. \<forall>x q. arc S i x q \<longrightarrow> q \<in> L \<and> arc S' i x q"
  shows "path S' p w q"
  using assms by (induction rule: path.induct) (auto intro: path.intros)

lemma path_no_arc:
  assumes "path S p w q" "\<forall>x r. \<not> arc S p x r"
  shows "w = [] \<and> q = p"
  using assms by (induction rule: path.induct) auto

lemma path_first:
  "path S p w q \<longleftrightarrow> (w = [] \<and> q = p) \<or> (\<exists>x r v. w = x @ v \<and> arc S p x r \<and> path S r v q)"
  by (auto elim: path.cases intro: path.intros)

lemma arc_cong: "p < length S \<Longrightarrow> p < length S' \<Longrightarrow> S' ! p = S ! p \<Longrightarrow> arc S' p x q = arc S p x q"
  by (simp add: arc_def)

lemma arc_lt: "arc S p x q \<Longrightarrow> p < length S"
  by (simp add: arc_def)

lemma match_state_no_arc: "p < length S \<Longrightarrow> S ! p = match_state \<Longrightarrow> \<not> arc S p x q"
  by (auto simp: arc_def match_state_def is_split_def accepts_byte_def REREX_MATCH_def
      REREX_SPLIT_def codepoint_def
      dest!: order_trans [where y = "of_char _" and z = "255"])

lemma not_split_match_state [simp]: "\<not> is_split match_state" "is_match match_state"
  by (simp_all add: is_split_def is_match_def match_state_def REREX_MATCH_def REREX_SPLIT_def)

lemma split_state_simps [simp]:
  "is_split (split_state n1 n2)" "\<not> is_match (split_state n1 n2)"
  "next1 (split_state n1 n2) = n1" "next2 (split_state n1 n2) = n2"
  by (simp_all add: is_split_def is_match_def split_state_def REREX_MATCH_def REREX_SPLIT_def)

lemma codepoint_bounds: "- 128 \<le> codepoint c" "codepoint c < 128"
proof -
  have "(of_char c :: int) mod 256 = of_char c" by simp
  with pos_mod_sign [of 256 "of_char c :: int"] pos_mod_bound [of 256 "of_char c :: int"]
  have "0 \<le> (of_char c :: int) \<and> (of_char c :: int) < 256" by simp
  then show "- 128 \<le> codepoint c" "codepoint c < 128"
    by (auto simp: codepoint_def)
qed

lemma range_state_simps [simp]:
  "\<not> is_split (range_state mn mx n)" "\<not> is_match (range_state mn mx n)"
  "next1 (range_state mn mx n) = n" "next2 (range_state mn mx n) = 0"
  "accepts_byte (range_state mn mx n) c \<longleftrightarrow>
     codepoint mn \<le> codepoint c \<and> codepoint c \<le> codepoint mx"
  using codepoint_bounds [of mn]
  by (simp_all add: is_split_def is_match_def range_state_def REREX_MATCH_def REREX_SPLIT_def
      accepts_byte_def NO_STATE_def)

lemma path_from_match:
  assumes "p < length S" "S ! p = match_state"
  shows "path S p w q \<longleftrightarrow> w = [] \<and> q = p"
  using path_no_arc [of S p w q] match_state_no_arc [OF assms]
  by (auto intro: path_refl)

lemma path_from_split:
  assumes "p < length S" "is_split (S ! p)"
  shows "path S p w q \<longleftrightarrow>
     (w = [] \<and> q = p) \<or> (next1 (S ! p) \<noteq> 0 \<and> path S (next1 (S ! p)) w q) \<or>
     (next2 (S ! p) \<noteq> 0 \<and> path S (next2 (S ! p)) w q)"
  using assms by (subst path_first) (auto simp: arc_def)

lemma path_from_range:
  assumes "p < length S" "\<not> is_split (S ! p)"
  shows "path S p w q \<longleftrightarrow>
     (w = [] \<and> q = p) \<or>
     (\<exists>c v. w = c # v \<and> accepts_byte (S ! p) c \<and> next1 (S ! p) \<noteq> 0 \<and>
            path S (next1 (S ! p)) v q)"
proof -
  have "(\<exists>x r v. w = x @ v \<and> arc S p x r \<and> path S r v q) \<longleftrightarrow>
        (\<exists>c v. w = c # v \<and> accepts_byte (S ! p) c \<and> next1 (S ! p) \<noteq> 0 \<and>
            path S (next1 (S ! p)) v q)"
  proof
    assume "\<exists>x r v. w = x @ v \<and> arc S p x r \<and> path S r v q"
    then obtain x r v where "w = x @ v" "arc S p x r" "path S r v q" by blast
    with assms show "\<exists>c v. w = c # v \<and> accepts_byte (S ! p) c \<and> next1 (S ! p) \<noteq> 0 \<and>
            path S (next1 (S ! p)) v q"
      by (auto simp: arc_def)
  next
    assume "\<exists>c v. w = c # v \<and> accepts_byte (S ! p) c \<and> next1 (S ! p) \<noteq> 0 \<and>
            path S (next1 (S ! p)) v q"
    then obtain c v where *: "w = c # v" "accepts_byte (S ! p) c" "next1 (S ! p) \<noteq> 0"
      "path S (next1 (S ! p)) v q" by blast
    with assms have "w = [c] @ v \<and> arc S p [c] (next1 (S ! p)) \<and> path S (next1 (S ! p)) v q"
      by (simp add: arc_def)
    then show "\<exists>x r v. w = x @ v \<and> arc S p x r \<and> path S r v q" by blast
  qed
  then show ?thesis by (subst path_first) simp
qed

lemma path_rewire:
  assumes "path S' p w q" "p \<in> L"
    and "\<forall>i\<in>L. \<forall>x q. arc S i x q \<longrightarrow> q \<in> L"
    and "\<forall>i\<in>L. i \<noteq> e \<longrightarrow> (\<forall>x q. arc S' i x q \<longleftrightarrow> arc S i x q)"
  shows "path S p w q \<or> (\<exists>u v. w = u @ v \<and> path S p u e \<and> path S' e v q)"
  using assms
proof (induction rule: path.induct)
  case (path_refl p)
  then show ?case by (auto intro: path.intros)
next
  case (path_step p x r w q)
  show ?case
  proof (cases "p = e")
    case True
    have "path S' e (x @ w) q" using path_step.hyps True by (auto intro: path.intros)
    moreover have "path S p [] e" using True by (auto intro: path.intros)
    ultimately show ?thesis by fastforce
  next
    case False
    with path_step.prems path_step.hyps(1) have a: "arc S p x r" "r \<in> L" by auto
    from path_step.IH [OF a(2) path_step.prems(2,3)]
    show ?thesis
    proof
      assume "path S r w q"
      with a show ?thesis by (auto intro: path.intros)
    next
      assume "\<exists>u v. w = u @ v \<and> path S r u e \<and> path S' e v q"
      then obtain u v where "w = u @ v" "path S r u e" "path S' e v q" by blast
      with a have "x @ w = (x @ u) @ v \<and> path S p (x @ u) e \<and> path S' e v q"
        by (auto intro: path.intros)
      then show ?thesis by blast
    qed
  qed
qed

section \<open>Fragments\<close>

lemma fragD:
  assumes "frag S lo hi a L"
  shows "0 < lo" "hi \<le> length S" "L \<subseteq> {lo..<hi}" "nfa_start a \<in> L" "nfa_end a \<in> L"
    "nfa_start a \<noteq> nfa_end a" "S ! nfa_end a = match_state"
    "\<And>i. i \<in> L \<Longrightarrow> i \<noteq> nfa_end a \<Longrightarrow> \<not> is_match (S ! i)"
    "\<And>i x q. i \<in> L \<Longrightarrow> arc S i x q \<Longrightarrow> q \<in> L"
    "\<And>i. i \<in> L \<Longrightarrow> lo \<le> i \<and> i < hi \<and> i < length S \<and> i \<noteq> 0"
  using assms unfolding frag_def by auto

lemma frag_closed: "frag S lo hi a L \<Longrightarrow> \<forall>i\<in>L. \<forall>x q. arc S i x q \<longrightarrow> q \<in> L"
  unfolding frag_def by blast

lemma frag_stable:
  assumes "frag S lo hi a L" "hi \<le> length S'" "\<forall>i\<in>L. S' ! i = S ! i"
  shows "frag S' lo hi a L"
proof -
  have "arc S' i x q = arc S i x q" if "i \<in> L" for i x q
    using that assms fragD(10) [OF assms(1) that] by (intro arc_cong) auto
  with assms show ?thesis unfolding frag_def by auto
qed

lemma path_stable:
  assumes "frag S lo hi a L" "hi \<le> length S'" "\<forall>i\<in>L. S' ! i = S ! i" "p \<in> L"
  shows "path S' p w q \<longleftrightarrow> path S p w q"
proof -
  have eq: "arc S' i x q = arc S i x q" if "i \<in> L" for i x q
    using that assms fragD(10) [OF assms(1) that] by (intro arc_cong) auto
  have c: "\<forall>i\<in>L. \<forall>x q. arc S i x q \<longrightarrow> q \<in> L" by (rule frag_closed [OF assms(1)])
  show ?thesis
  proof
    assume "path S' p w q"
    then show "path S p w q"
      by (rule path_mono [where L = L]) (use eq c assms(4) in auto)
  next
    assume "path S p w q"
    then show "path S' p w q"
      by (rule path_mono [where L = L]) (use eq c assms(4) in auto)
  qed
qed

lemma lang_of_stable:
  assumes "frag S lo hi a L" "hi \<le> length S'" "\<forall>i\<in>L. S' ! i = S ! i"
  shows "lang_of S' a = lang_of S a"
  using path_stable [OF assms fragD(4) [OF assms(1)]] by (simp add: lang_of_def)

lemma frag_path_end:
  assumes "frag S lo hi a L" "path S (nfa_start a) w q" "is_match (S ! q)"
  shows "q = nfa_end a"
proof -
  have "q \<in> L" by (rule path_closed [OF assms(2) fragD(4) [OF assms(1)] frag_closed [OF assms(1)]])
  with fragD(8) [OF assms(1)] assms(3) show ?thesis by blast
qed

text \<open>A trivial fragment is one range state in front of its end.\<close>

lemma trivial_lang:
  assumes "frag S lo hi a L" "is_trivial S a"
  shows "lang_of S a = {[c] | c. accepts_byte (S ! nfa_start a) c}"
    "\<not> is_split (S ! nfa_start a)" "\<not> is_match (S ! nfa_start a)"
proof -
  from assms(2) have lt: "min_label (S ! nfa_start a) < REREX_MATCH"
    and nx: "next1 (S ! nfa_start a) = nfa_end a" by (simp_all add: is_trivial_def)
  from lt show ns: "\<not> is_split (S ! nfa_start a)" "\<not> is_match (S ! nfa_start a)"
    by (simp_all add: is_split_def is_match_def REREX_MATCH_def REREX_SPLIT_def)
  note d = fragD [OF assms(1)]
  have s: "nfa_start a < length S" and e: "nfa_end a < length S" "nfa_end a \<noteq> 0"
    using d(10) [OF d(4)] d(10) [OF d(5)] by simp_all
  show "lang_of S a = {[c] | c. accepts_byte (S ! nfa_start a) c}"
    unfolding lang_of_def
    by (subst path_from_range [OF s ns(1)])
       (auto simp: nx path_from_match [OF e(1) d(7)] d(6) d(6) [symmetric] e)
qed

section \<open>The construction operators\<close>

lemma arc_split:
  assumes "p < length S" "S ! p = split_state n1 n2"
  shows "arc S p x q \<longleftrightarrow> x = [] \<and> q \<noteq> 0 \<and> (q = n1 \<or> q = n2)"
  using assms by (auto simp: arc_def)

lemma arc_range:
  assumes "p < length S" "S ! p = range_state mn mx n"
  shows "arc S p x q \<longleftrightarrow>
     q \<noteq> 0 \<and> q = n \<and> (\<exists>c. x = [c] \<and> codepoint mn \<le> codepoint c \<and> codepoint c \<le> codepoint mx)"
  using assms by (auto simp: arc_def)

lemma lang_star_unfold: "lang_star A = insert [] (lang_conc A (lang_star A))"
  by (auto simp: lang_conc_def intro: lang_star.intros elim: lang_star.cases)

text \<open>A literal: the end placeholder and one range state in front of it.\<close>

lemma build_Lit:
  assumes "0 < length S" "build (Lit mn mx) S = (c, S')"
  shows "S' = S @ [match_state, range_state mn mx (length S)]"
    "c = make_automata (Suc (length S)) (length S)"
    "frag S' (length S) (length S') c {length S, Suc (length S)}"
    "lang_of S' c = den (Lit mn mx)"
proof -
  from assms(2) show S': "S' = S @ [match_state, range_state mn mx (length S)]"
    and c: "c = make_automata (Suc (length S)) (length S)"
    by (auto simp: add_state_def Let_def)
  have e: "length S < length S'" "S' ! length S = match_state"
    and s: "Suc (length S) < length S'" "S' ! Suc (length S) = range_state mn mx (length S)"
    by (simp_all add: S' nth_append)
  show "frag S' (length S) (length S') c {length S, Suc (length S)}"
    unfolding frag_def
    using assms(1) e s match_state_no_arc [OF e] arc_range [OF s]
    by (auto simp: c make_automata_def)
  show "lang_of S' c = den (Lit mn mx)"
    unfolding lang_of_def
    using assms(1) e s
    by (auto simp: c make_automata_def path_from_range [OF s(1)] path_from_match [OF e])
qed

text \<open>A negated range: two range states below and above it, behind a fork.\<close>

lemma build_NLit:
  assumes "0 < length S" "build (NLit mn mx) S = (c, S')"
  shows "S' = S @ [match_state,
                   range_state cmin (char_of (codepoint mn - 1)) (length S),
                   range_state (char_of (codepoint mx + 1)) cmax (length S),
                   split_state (Suc (length S)) (Suc (Suc (length S)))]"
    "c = make_automata (Suc (Suc (Suc (length S)))) (length S)"
    "frag S' (length S) (length S') c {length S, Suc (length S), Suc (Suc (length S)), Suc (Suc (Suc (length S)))}"
    "lang_of S' c = den (NLit mn mx)"
proof -
  let ?n = "length S"
  from assms(2) show S': "S' = S @ [match_state,
                   range_state cmin (char_of (codepoint mn - 1)) ?n,
                   range_state (char_of (codepoint mx + 1)) cmax ?n,
                   split_state (Suc ?n) (Suc (Suc ?n))]"
    and c: "c = make_automata (Suc (Suc (Suc ?n))) ?n"
    by (auto simp: add_state_def Let_def)
  have e: "?n < length S'" "S' ! ?n = match_state"
    and l: "Suc ?n < length S'"
      "S' ! (Suc ?n) = range_state cmin (char_of (codepoint mn - 1)) ?n"
    and h: "Suc (Suc ?n) < length S'"
      "S' ! (Suc (Suc ?n)) = range_state (char_of (codepoint mx + 1)) cmax ?n"
    and f: "Suc (Suc (Suc ?n)) < length S'" "S' ! (Suc (Suc (Suc ?n))) = split_state (Suc ?n) (Suc (Suc ?n))"
    by (simp_all add: S' nth_append)
  show "frag S' ?n (length S') c {?n, Suc ?n, Suc (Suc ?n), Suc (Suc (Suc ?n))}"
    unfolding frag_def
    using assms(1) e l h f match_state_no_arc [OF e] arc_range [OF l] arc_range [OF h]
      arc_split [OF f]
    by (auto simp: c make_automata_def)
  have fs: "is_split (S' ! (Suc (Suc (Suc ?n))))" "next1 (S' ! (Suc (Suc (Suc ?n)))) = Suc ?n"
    "next2 (S' ! (Suc (Suc (Suc ?n)))) = Suc (Suc ?n)"
    by (simp_all add: f)
  have ls: "\<not> is_split (S' ! (Suc ?n))" and hs: "\<not> is_split (S' ! (Suc (Suc ?n)))"
    by (simp_all add: l h)
  show "lang_of S' c = den (NLit mn mx)"
    unfolding lang_of_def
    using assms(1)
    by (auto simp: c make_automata_def path_from_split [OF f(1) fs(1)] fs
        path_from_range [OF l(1) ls] path_from_range [OF h(1) hs] l(2) h(2)
        path_from_match [OF e])
qed

text \<open>
  The loop that \<open>star\<close> and \<open>plus_nfa\<close> close: the old end becomes a split state that
  leads back to the start and on to the new end \<open>e\<close>.
\<close>

lemma loop_paths:
  assumes fr: "frag S lo hi a L"
    and e: "e \<notin> L" "e < length S'" "S' ! e = match_state" "e \<noteq> 0"
    and ea: "S' ! nfa_end a = split_state (nfa_start a) e"
    and same: "\<forall>i\<in>L. i \<noteq> nfa_end a \<longrightarrow> S' ! i = S ! i"
    and len: "length S \<le> length S'"
    and p: "p \<in> L"
  shows "path S' p w e \<longleftrightarrow>
         (\<exists>u v. w = u @ v \<and> path S p u (nfa_end a) \<and> v \<in> lang_star (lang_of S a))"
proof -
  note d = fragD [OF fr]
  have lt: "i < length S" "i < length S'" "i \<noteq> 0" if "i \<in> L" for i
    using d(10) [OF that] len by auto
  have ea_lt: "nfa_end a < length S'" using lt [OF d(5)] by simp
  have arcs: "arc S' i x q \<longleftrightarrow> arc S i x q" if "i \<in> L" "i \<noteq> nfa_end a" for i x q
    using that same lt [OF that(1)] by (intro arc_cong) auto
  have noarc: "\<not> arc S (nfa_end a) x q" for x q
    using match_state_no_arc [OF lt(1) [OF d(5)] d(7)] .
  have sa0: "nfa_start a \<noteq> 0" using lt [OF d(4)] by simp
  have lift: "path S' i u q" if "path S i u q" "i \<in> L" for i u q
    using that(1,2)
  proof (rule path_mono)
    show "\<forall>i\<in>L. \<forall>x q. arc S i x q \<longrightarrow> q \<in> L \<and> arc S' i x q"
      using arcs noarc d(9) by blast
  qed
  have fwd: "\<exists>u v. w = u @ v \<and> path S p u (nfa_end a) \<and> v \<in> lang_star (lang_of S a)"
    if "path S' p w q" "q = e" "p \<in> L" for p w q
    using that
  proof (induction rule: path.induct)
    case (path_refl p)
    with e show ?case by simp
  next
    case (path_step p x r w q)
    show ?case
    proof (cases "p = nfa_end a")
      case True
      with path_step.hyps(1) have x: "x = []" and r: "r = nfa_start a \<or> r = e"
        by (auto simp: arc_split [OF ea_lt ea])
      from r show ?thesis
      proof
        assume r: "r = nfa_start a"
        with path_step.IH [OF path_step.prems(1)] d(4)
        obtain u v where "w = u @ v" "path S (nfa_start a) u (nfa_end a)"
          "v \<in> lang_star (lang_of S a)" by blast
        then have "w \<in> lang_star (lang_of S a)"
          by (auto simp: lang_of_def intro: lang_star.intros)
        with x True show ?thesis by (auto intro: path_refl)
      next
        assume "r = e"
        with path_step.hyps(2) have "w = []"
          by (simp add: path_from_match [OF e(2,3)])
        with x True show ?thesis by (auto intro: path_refl lang_star.intros)
      qed
    next
      case False
      with path_step.hyps(1) path_step.prems(2) have a: "arc S p x r"
        by (simp add: arcs)
      then have "r \<in> L" using d(9) path_step.prems(2) by blast
      from path_step.IH [OF path_step.prems(1) this]
      obtain u v where "w = u @ v" "path S r u (nfa_end a)" "v \<in> lang_star (lang_of S a)"
        by blast
      with a have "x @ w = (x @ u) @ v \<and> path S p (x @ u) (nfa_end a) \<and>
          v \<in> lang_star (lang_of S a)"
        by (auto intro: path.intros)
      then show ?thesis by blast
    qed
  qed
  have bwd: "path S' (nfa_end a) v e" if "v \<in> lang_star (lang_of S a)" for v
    using that
  proof (induction rule: lang_star.induct)
    case star_empty
    have "arc S' (nfa_end a) [] e" using e by (simp add: arc_split [OF ea_lt ea])
    then show ?case by (rule path_arc)
  next
    case (star_more u v)
    have "arc S' (nfa_end a) [] (nfa_start a)" using sa0 by (simp add: arc_split [OF ea_lt ea])
    moreover have "path S' (nfa_start a) u (nfa_end a)"
      using star_more.hyps(1) d(4) by (simp add: lang_of_def lift)
    ultimately have "path S' (nfa_end a) u (nfa_end a)"
      using path_step [of S' "nfa_end a" "[]" "nfa_start a" u "nfa_end a"] by simp
    from this star_more.IH show ?case by (rule path_append)
  qed
  show ?thesis
  proof
    assume "path S' p w e"
    from fwd [OF this refl p] show "\<exists>u v. w = u @ v \<and> path S p u (nfa_end a) \<and>
        v \<in> lang_star (lang_of S a)" .
  next
    assume "\<exists>u v. w = u @ v \<and> path S p u (nfa_end a) \<and> v \<in> lang_star (lang_of S a)"
    then obtain u v where "w = u @ v" "path S p u (nfa_end a)" "v \<in> lang_star (lang_of S a)"
      by blast
    with lift [OF _ p] bwd show "path S' p w e" by (auto intro: path_append)
  qed
qed

lemma loop_frag:
  assumes fr: "frag S lo hi a L"
    and e: "e \<notin> L" "e < length S'" "S' ! e = match_state" "hi \<le> e"
    and ea: "S' ! nfa_end a = split_state (nfa_start a) e"
    and same: "\<forall>i\<in>L. i \<noteq> nfa_end a \<longrightarrow> S' ! i = S ! i"
    and len: "length S \<le> length S'"
    and c: "nfa_end c = e" "nfa_start c \<in> insert e L \<union> X" "nfa_start c \<noteq> e"
    and X: "\<forall>i\<in>X. e < i \<and> i < length S' \<and> S' ! i = split_state (nfa_start a) e"
  shows "frag S' lo (length S') c (insert e L \<union> X)"
proof -
  note d = fragD [OF fr]
  have lt: "i < length S" "i < length S'" "i \<noteq> 0" "lo \<le> i" "i < hi" if "i \<in> L" for i
    using d(10) [OF that] len by auto
  have ea_lt: "nfa_end a < length S'" using lt [OF d(5)] by simp
  have arcs: "arc S' i x q \<longleftrightarrow> arc S i x q" if "i \<in> L" "i \<noteq> nfa_end a" for i x q
    using that same lt [OF that(1)] by (intro arc_cong) auto
  have lo_e: "lo \<le> e" using lt(4,5) [OF d(4)] e(4) by simp
  have 1: "insert e L \<union> X \<subseteq> {lo..<length S'}"
  proof
    fix i assume "i \<in> insert e L \<union> X"
    then consider "i \<in> X" | "i = e" | "i \<in> L" by blast
    then show "i \<in> {lo..<length S'}"
    proof cases
      case 1
      with X lo_e show ?thesis by force
    next
      case 2
      with lo_e e show ?thesis by simp
    next
      case 3
      with lt [OF 3] show ?thesis by simp
    qed
  qed
  have 2: "\<not> is_match (S' ! i)" if "i \<in> insert e L \<union> X" "i \<noteq> e" for i
  proof (cases "i \<in> X")
    case True
    with X show ?thesis by simp
  next
    case False
    with that have i: "i \<in> L" by simp
    show ?thesis
    proof (cases "i = nfa_end a")
      case True
      with ea show ?thesis by simp
    next
      case False
      with same i d(8) [OF i] show ?thesis by simp
    qed
  qed
  have 3: "q \<in> insert e L \<union> X" if i: "i \<in> insert e L \<union> X" and ar: "arc S' i x q"
    for i x q
  proof -
    from i consider "i \<in> X" | "i = e" | "i = nfa_end a" | "i \<in> L" "i \<noteq> nfa_end a"
      by blast
    then show ?thesis
    proof cases
      case 1
      with X ar d(4) show ?thesis by (auto simp: arc_split)
    next
      case 2
      with ar match_state_no_arc [OF e(2,3)] show ?thesis by simp
    next
      case 3
      with ar d(4) show ?thesis by (auto simp: arc_split [OF ea_lt ea])
    next
      case 4
      with ar d(9) [of i x q] show ?thesis by (simp add: arcs)
    qed
  qed
  have 4: "S' ! nfa_end c = match_state" "nfa_end c \<in> insert e L \<union> X"
    using c e by simp_all
  show ?thesis
    unfolding frag_def
  proof (intro conjI)
    show "\<forall>i\<in>insert e L \<union> X. i \<noteq> nfa_end c \<longrightarrow> \<not> is_match (S' ! i)"
      using 2 c(1) by blast
    show "\<forall>i\<in>insert e L \<union> X. \<forall>x q. arc S' i x q \<longrightarrow> q \<in> insert e L \<union> X"
      using 3 by blast
  qed (use 1 4 c d(1) in simp_all)
qed

lemma arena_ok_append:
  assumes "arena_ok S" "next1 s \<le> length S" "next2 s \<le> length S"
  shows "arena_ok (S @ [s])"
  using assms by (auto simp: arena_ok_def intro: less_SucI)

lemma arena_ok_update:
  assumes "arena_ok S" "next1 s < length S" "next2 s < length S"
  shows "arena_ok (S[i := s])"
  using assms by (auto simp: arena_ok_def dest!: subsetD [OF set_update_subset_insert])

lemma labels_ok_update:
  assumes "\<forall>s\<in>set S. label_ok s" "label_ok s"
  shows "\<forall>s\<in>set (S[i := s]). label_ok s"
  using assms by (auto dest!: subsetD [OF set_update_subset_insert])

lemma label_ok_simps [simp]: "label_ok match_state" "label_ok (split_state n1 n2)"
  by (simp_all add: label_ok_def)

lemma label_ok_next1 [simp]: "label_ok (s\<lparr>next1 := n\<rparr>) = label_ok s"
  by (simp add: label_ok_def is_split_def is_match_def)

lemma match_state_next [simp]: "next1 match_state = 0" "next2 match_state = 0"
  by (simp_all add: match_state_def NO_STATE_def)

text \<open>Kleene star.\<close>

lemma star_frag:
  assumes fr: "frag S lo hi a L" and st: "star S a = (c, S')"
  shows "frag S' lo (length S') c (insert (length S) L \<union> {Suc (length S)})"
    "lang_of S' c = lang_star (lang_of S a)"
    "length S < length S'" "\<forall>i<length S. i \<notin> L \<longrightarrow> S' ! i = S ! i"
    "arena_ok S \<Longrightarrow> arena_ok S'"
    "\<forall>s\<in>set S. label_ok s \<Longrightarrow> \<forall>s\<in>set S'. label_ok s"
proof -
  let ?e = "length S"
  note d = fragD [OF fr]
  have lt: "i < length S" "i \<noteq> 0" if "i \<in> L" for i using d(10) [OF that] by auto
  from st have S': "S' = (S @ [match_state, split_state (nfa_start a) ?e])
      [nfa_end a := split_state (nfa_start a) ?e]"
    and c: "c = make_automata (Suc ?e) ?e"
    by (auto simp: star_def add_state_def Let_def)
  have e: "?e \<notin> L" "?e < length S'" "S' ! ?e = match_state" "hi \<le> ?e" "?e \<noteq> 0"
    using lt [OF d(5)] lt d(2) by (auto simp: S' nth_list_update nth_append)
  have ea: "S' ! nfa_end a = split_state (nfa_start a) ?e"
    using lt [OF d(5)] by (simp add: S')
  have same: "\<forall>i\<in>L. i \<noteq> nfa_end a \<longrightarrow> S' ! i = S ! i"
    using lt by (simp add: S' nth_append)
  have len: "length S \<le> length S'" by (simp add: S')
  have s: "Suc ?e < length S'" "S' ! Suc ?e = split_state (nfa_start a) ?e"
    using lt [OF d(5)] by (simp_all add: S' nth_append)
  show "frag S' lo (length S') c (insert ?e L \<union> {Suc ?e})"
    by (rule loop_frag [OF fr e(1-4) ea same len]) (use s in \<open>simp_all add: c make_automata_def\<close>)
  have "path S' (Suc ?e) w ?e \<longleftrightarrow> w \<in> lang_star (lang_of S a)" for w
  proof -
    have "path S' (Suc ?e) w ?e \<longleftrightarrow> path S' (nfa_start a) w ?e \<or> w = []"
      using lt [OF d(4)] e
      by (subst path_from_split [OF s(1)]) (auto simp: s(2) path_from_match [OF e(2,3)])
    also have "\<dots> \<longleftrightarrow> w \<in> lang_conc (lang_of S a) (lang_star (lang_of S a)) \<or> w = []"
      unfolding loop_paths [OF fr e(1-3,5) ea same len d(4)]
      by (auto simp: lang_conc_def lang_of_def)
    also have "\<dots> \<longleftrightarrow> w \<in> lang_star (lang_of S a)"
      by (subst (2) lang_star_unfold) auto
    finally show ?thesis .
  qed
  then show "lang_of S' c = lang_star (lang_of S a)"
    by (auto simp: lang_of_def c make_automata_def)
  show "length S < length S'" by (simp add: S')
  show "\<forall>i<length S. i \<notin> L \<longrightarrow> S' ! i = S ! i"
    using d(5) lt [OF d(5)] by (auto simp: S' nth_list_update nth_append)
  show "arena_ok S'" if "arena_ok S"
    unfolding S' using that lt [OF d(4)]
    by (intro arena_ok_update) (auto simp: arena_ok_def intro: less_SucI)
  show "\<forall>s\<in>set S'. label_ok s" if "\<forall>s\<in>set S. label_ok s"
    unfolding S' using that by (intro labels_ok_update) auto
qed

text \<open>One or more.\<close>

lemma plus_frag:
  assumes fr: "frag S lo hi a L" and st: "plus_nfa S a = (c, S')"
  shows "frag S' lo (length S') c (insert (length S) L)"
    "lang_of S' c = lang_conc (lang_of S a) (lang_star (lang_of S a))"
    "length S < length S'" "\<forall>i<length S. i \<notin> L \<longrightarrow> S' ! i = S ! i"
    "arena_ok S \<Longrightarrow> arena_ok S'"
    "\<forall>s\<in>set S. label_ok s \<Longrightarrow> \<forall>s\<in>set S'. label_ok s"
proof -
  let ?e = "length S"
  note d = fragD [OF fr]
  have lt: "i < length S" "i \<noteq> 0" if "i \<in> L" for i using d(10) [OF that] by auto
  from st have S': "S' = (S @ [match_state])[nfa_end a := split_state (nfa_start a) ?e]"
    and c: "c = make_automata (nfa_start a) ?e"
    by (auto simp: plus_nfa_def add_state_def Let_def)
  have e: "?e \<notin> L" "?e < length S'" "S' ! ?e = match_state" "hi \<le> ?e" "?e \<noteq> 0"
    using lt [OF d(5)] lt d(2) by (auto simp: S' nth_list_update nth_append)
  have ea: "S' ! nfa_end a = split_state (nfa_start a) ?e"
    using lt [OF d(5)] by (simp add: S')
  have same: "\<forall>i\<in>L. i \<noteq> nfa_end a \<longrightarrow> S' ! i = S ! i"
    using lt by (simp add: S' nth_append)
  have len: "length S \<le> length S'" by (simp add: S')
  have "frag S' lo (length S') c (insert ?e L \<union> {})"
    by (rule loop_frag [OF fr e(1-4) ea same len])
       (use d(4) e(1) in \<open>auto simp: c make_automata_def\<close>)
  then show "frag S' lo (length S') c (insert ?e L)" by simp
  show "lang_of S' c = lang_conc (lang_of S a) (lang_star (lang_of S a))"
    unfolding lang_of_def
    by (simp add: c make_automata_def loop_paths [OF fr e(1-3,5) ea same len d(4)])
       (auto simp: lang_conc_def lang_of_def)
  show "length S < length S'" by (simp add: S')
  show "\<forall>i<length S. i \<notin> L \<longrightarrow> S' ! i = S ! i"
    using d(5) lt [OF d(5)] by (auto simp: S' nth_list_update nth_append)
  show "arena_ok S'" if "arena_ok S"
    unfolding S' using that lt [OF d(4)]
    by (intro arena_ok_update) (auto simp: arena_ok_def intro: less_SucI)
  show "\<forall>s\<in>set S'. label_ok s" if "\<forall>s\<in>set S. label_ok s"
    unfolding S' using that by (intro labels_ok_update) auto
qed

text \<open>Zero or one.\<close>

lemma question_frag:
  assumes fr: "frag S lo hi a L" and st: "question S a = (c, S')"
  shows "frag S' lo (length S') c (insert (length S) L)"
    "lang_of S' c = insert [] (lang_of S a)"
    "length S < length S'" "\<forall>i<length S. i \<notin> L \<longrightarrow> S' ! i = S ! i"
    "arena_ok S \<Longrightarrow> arena_ok S'"
    "\<forall>s\<in>set S. label_ok s \<Longrightarrow> \<forall>s\<in>set S'. label_ok s"
proof -
  let ?s = "length S"
  note d = fragD [OF fr]
  have lt: "i < length S" "i \<noteq> 0" if "i \<in> L" for i using d(10) [OF that] by auto
  from st have S': "S' = S @ [split_state (nfa_start a) (nfa_end a)]"
    and c: "c = make_automata ?s (nfa_end a)"
    by (auto simp: question_def add_state_def Let_def)
  have s: "?s < length S'" "S' ! ?s = split_state (nfa_start a) (nfa_end a)" "?s \<notin> L"
    using lt by (auto simp: S')
  have same: "\<forall>i\<in>L. S' ! i = S ! i" using lt by (simp add: S' nth_append)
  have hi: "hi \<le> length S'" using d(2) by (simp add: S')
  note fr' = frag_stable [OF fr hi same]
  note d' = fragD [OF fr']
  show "frag S' lo (length S') c (insert ?s L)"
    unfolding frag_def
  proof (intro conjI)
    show "insert ?s L \<subseteq> {lo..<length S'}"
      using d(3,2) lt [OF d(4)] d(10) [OF d(4)] by (auto simp: S')
    show "\<forall>i\<in>insert ?s L. i \<noteq> nfa_end c \<longrightarrow> \<not> is_match (S' ! i)"
      using d'(8) s by (auto simp: c make_automata_def)
    show "\<forall>i\<in>insert ?s L. \<forall>x q. arc S' i x q \<longrightarrow> q \<in> insert ?s L"
      using d'(9) d(4,5) by (auto simp: arc_split [OF s(1,2)])
  qed (use d' s lt [OF d(5)] in \<open>auto simp: c make_automata_def\<close>)
  have "path S' ?s w (nfa_end a) \<longleftrightarrow> w = [] \<or> path S (nfa_start a) w (nfa_end a)" for w
    using lt [OF d(4)] lt [OF d(5)] s d(5)
    by (subst path_from_split [OF s(1)])
       (auto simp: s(2) path_stable [OF fr hi same d(4)] path_from_match [OF _ d'(7)])
  then show "lang_of S' c = insert [] (lang_of S a)"
    by (auto simp: lang_of_def c make_automata_def)
  show "length S < length S'" by (simp add: S')
  show "\<forall>i<length S. i \<notin> L \<longrightarrow> S' ! i = S ! i" by (simp add: S' nth_append)
  show "arena_ok S'" if "arena_ok S"
    unfolding S' using that lt [OF d(4)] lt [OF d(5)]
    by (intro arena_ok_append) auto
  show "\<forall>s\<in>set S'. label_ok s" if "\<forall>s\<in>set S. label_ok s"
    unfolding S' using that by auto
qed

text \<open>
  An end that is overwritten by a split state leading to \<open>t\<close> alone, outside the
  fragment: the paths that leave the fragment are those to the old end, continued
  from \<open>t\<close>.
\<close>

lemma redirect_paths:
  assumes fr: "frag S lo hi a L"
    and ea: "S' ! nfa_end a = split_state t NO_STATE" and t: "t \<noteq> 0"
    and same: "\<forall>i\<in>L. i \<noteq> nfa_end a \<longrightarrow> S' ! i = S ! i"
    and len: "length S \<le> length S'"
    and p: "p \<in> L" and q: "q \<notin> L"
  shows "path S' p w q \<longleftrightarrow> (\<exists>u v. w = u @ v \<and> path S p u (nfa_end a) \<and> path S' t v q)"
proof -
  note d = fragD [OF fr]
  have lt: "i < length S" "i < length S'" "i \<noteq> 0" if "i \<in> L" for i
    using d(10) [OF that] len by auto
  have ea_lt: "nfa_end a < length S'" using lt [OF d(5)] by simp
  have arcs: "arc S' i x q \<longleftrightarrow> arc S i x q" if "i \<in> L" "i \<noteq> nfa_end a" for i x q
    using that same lt [OF that(1)] by (intro arc_cong) auto
  have noarc: "\<not> arc S (nfa_end a) x q" for x q
    using match_state_no_arc [OF lt(1) [OF d(5)] d(7)] .
  have ne: "q \<noteq> nfa_end a" using q d(5) by blast
  have out: "path S' (nfa_end a) v q \<longleftrightarrow> path S' t v q" for v
    using ne t
    by (subst path_from_split [OF ea_lt]) (auto simp: ea NO_STATE_def)
  show ?thesis
  proof
    assume "path S' p w q"
    from path_rewire [OF this p frag_closed [OF fr], of "nfa_end a"] arcs
    have "path S p w q \<or> (\<exists>u v. w = u @ v \<and> path S p u (nfa_end a) \<and> path S' (nfa_end a) v q)"
      by blast
    moreover have "\<not> path S p w q"
      using path_closed [OF _ p frag_closed [OF fr], of w q] q by blast
    ultimately show "\<exists>u v. w = u @ v \<and> path S p u (nfa_end a) \<and> path S' t v q"
      by (simp add: out)
  next
    assume "\<exists>u v. w = u @ v \<and> path S p u (nfa_end a) \<and> path S' t v q"
    then obtain u v where w: "w = u @ v" and u: "path S p u (nfa_end a)"
      and v: "path S' t v q" by blast
    from u p have "path S' p u (nfa_end a)"
    proof (rule path_mono)
      show "\<forall>i\<in>L. \<forall>x q. arc S i x q \<longrightarrow> q \<in> L \<and> arc S' i x q"
        using arcs noarc d(9) by blast
    qed
    moreover have "path S' (nfa_end a) v q" using v by (simp add: out)
    ultimately show "path S' p w q" unfolding w by (rule path_append)
  qed
qed

lemma nth_update_notin: "j \<notin> L \<Longrightarrow> \<forall>i\<in>L. (S[j := x]) ! i = S ! i"
  by (metis nth_list_update_neq)

lemma lang_conc_single: "lang_conc {[c] | c. P c} B = {c # v | c v. P c \<and> v \<in> B}"
proof -
  have "\<exists>u va. c # v = u @ va \<and> (\<exists>c. u = [c] \<and> P c) \<and> va \<in> B" if "P c" "v \<in> B" for c v
    using that by (intro exI [of _ "[c]"] exI [of _ v]) simp
  then show ?thesis by (auto simp: lang_conc_def)
qed

lemma frag_widen:
  assumes "frag S lo hi a L" "0 < lo'" "lo' \<le> lo" "hi \<le> hi'" "hi' \<le> length S"
  shows "frag S lo' hi' a L"
  using assms unfolding frag_def by auto

lemma is_trivial_cong:
  "nfa_start a < length S \<Longrightarrow> is_trivial (S @ T) a = is_trivial S a"
  by (simp add: is_trivial_def nth_append)

text \<open>Concatenation, with and without the shortcut for a trivial first operand.\<close>

lemma concatenate_frag:
  assumes a: "frag S la ha a La" and b: "frag S lb hb b Lb" and dis: "ha \<le> lb"
    and st: "concatenate S a b = (c, S')"
  shows "\<exists>L. frag S' la (length S') c L \<and> L \<subseteq> La \<union> Lb"
    "lang_of S' c = lang_conc (lang_of S a) (lang_of S b)"
    "length S' = length S" "\<forall>i<length S. i \<notin> La \<union> Lb \<longrightarrow> S' ! i = S ! i"
    "arena_ok S \<Longrightarrow> arena_ok S'"
    "\<forall>s\<in>set S. label_ok s \<Longrightarrow> \<forall>s\<in>set S'. label_ok s"
proof -
  note da = fragD [OF a] and db = fragD [OF b]
  have lta: "i < length S" "i \<noteq> 0" "i \<notin> Lb" "la \<le> i" if "i \<in> La" for i
    using da(10) [OF that] db(3) dis by auto
  have ltb: "i < length S" "i \<noteq> 0" "i \<notin> La" "la \<le> i" if "i \<in> Lb" for i
    using db(10) [OF that] da(3) da(10) [OF da(4)] dis by auto
  from st have c: "c = make_automata (nfa_start a) (nfa_end b)"
    by (simp add: concatenate_def Let_def)
  have len: "length S' = length S"
    using st by (auto simp: concatenate_def Let_def split: if_splits)
  show "length S' = length S" by (rule len)
  have res: "(\<exists>L. frag S' la (length S') c L \<and> L \<subseteq> La \<union> Lb) \<and>
      lang_of S' c = lang_conc (lang_of S a) (lang_of S b) \<and>
      (\<forall>i<length S. i \<notin> La \<union> Lb \<longrightarrow> S' ! i = S ! i) \<and>
      (arena_ok S \<longrightarrow> arena_ok S') \<and>
      ((\<forall>s\<in>set S. label_ok s) \<longrightarrow> (\<forall>s\<in>set S'. label_ok s))"
  proof (cases "is_trivial S a")
    case True
    note tl = trivial_lang [OF a True]
    let ?sa = "nfa_start a"
    from st True have S': "S' = S[?sa := (S ! ?sa)\<lparr>next1 := nfa_start b\<rparr>]"
      by (simp add: concatenate_def Let_def)
    have sa: "?sa < length S'" "\<not> is_split (S' ! ?sa)" "\<not> is_match (S' ! ?sa)"
      "next1 (S' ! ?sa) = nfa_start b" "accepts_byte (S' ! ?sa) = accepts_byte (S ! ?sa)"
      using lta [OF da(4)] tl(2,3)
      by (auto simp: S' is_split_def is_match_def accepts_byte_def fun_eq_iff)
    have same: "\<forall>i\<in>Lb. S' ! i = S ! i"
      unfolding S' by (rule nth_update_notin [OF lta(3) [OF da(4)]])
    have hb: "hb \<le> length S'" using db(2) len by simp
    note b' = frag_stable [OF b hb same]
    note db' = fragD [OF b']
    have arc_sa: "arc S' ?sa x q \<Longrightarrow> q = nfa_start b" for x q
      using sa by (auto simp: arc_def)
    have 1: "frag S' la (length S') c (insert ?sa Lb)"
      unfolding frag_def
    proof (intro conjI)
      show "insert ?sa Lb \<subseteq> {la..<length S'}"
        using lta [OF da(4)] ltb len by auto
      show "\<forall>i\<in>insert ?sa Lb. i \<noteq> nfa_end c \<longrightarrow> \<not> is_match (S' ! i)"
        using db'(8) sa(3) by (auto simp: c make_automata_def)
      show "\<forall>i\<in>insert ?sa Lb. \<forall>x q. arc S' i x q \<longrightarrow> q \<in> insert ?sa Lb"
        using db'(9) db(4) arc_sa by blast
    qed (use da(1) db' lta(3) [OF da(4)] db(5) in \<open>auto simp: c make_automata_def\<close>)
    have "path S' ?sa w (nfa_end b) \<longleftrightarrow>
          (\<exists>ch v. w = ch # v \<and> accepts_byte (S ! ?sa) ch \<and> path S (nfa_start b) v (nfa_end b))"
      for w
      using lta(3) [OF da(4)] db(5) ltb(2) [OF db(4)]
      by (subst path_from_range [OF sa(1,2)])
         (auto simp: sa(4,5) path_stable [OF b hb same db(4)])
    then have 2: "lang_of S' c = lang_conc (lang_of S a) (lang_of S b)"
      unfolding tl(1) lang_conc_single by (auto simp: lang_of_def c make_automata_def)
    have 3: "\<forall>i<length S. i \<notin> La \<union> Lb \<longrightarrow> S' ! i = S ! i"
      using da(4) lta [OF da(4)] by (auto simp: S' nth_list_update)
    have 4: "arena_ok S'" if "arena_ok S"
      unfolding S' using that ltb [OF db(4)] lta [OF da(4)]
      by (intro arena_ok_update) (auto simp: arena_ok_def)
    have 5: "\<forall>s\<in>set S'. label_ok s" if "\<forall>s\<in>set S. label_ok s"
      unfolding S' using that lta [OF da(4)] by (intro labels_ok_update) auto
    have "\<exists>L. frag S' la (length S') c L \<and> L \<subseteq> La \<union> Lb"
      using 1 da(4) by (intro exI [of _ "insert ?sa Lb"]) auto
    with 2 3 4 5 show ?thesis by blast
  next
    case False
    let ?ea = "nfa_end a"
    from st False have S': "S' = S[?ea := split_state (nfa_start b) NO_STATE]"
      by (simp add: concatenate_def Let_def)
    have ea: "?ea < length S'" "S' ! ?ea = split_state (nfa_start b) NO_STATE"
      using lta [OF da(5)] by (simp_all add: S')
    have same_b: "\<forall>i\<in>Lb. S' ! i = S ! i"
      unfolding S' by (rule nth_update_notin [OF lta(3) [OF da(5)]])
    have same_a: "\<forall>i\<in>La. i \<noteq> ?ea \<longrightarrow> S' ! i = S ! i" by (simp add: S')
    have hb: "hb \<le> length S'" using db(2) len by simp
    note b' = frag_stable [OF b hb same_b]
    note db' = fragD [OF b']
    have arcs: "arc S' i x q \<longleftrightarrow> arc S i x q" if "i \<in> La" "i \<noteq> ?ea" for i x q
      using that same_a lta [OF that(1)] len by (intro arc_cong) auto
    have 1: "frag S' la (length S') c (La \<union> Lb)"
      unfolding frag_def
    proof (intro conjI)
      show "La \<union> Lb \<subseteq> {la..<length S'}"
        using lta ltb len by auto
      show "\<forall>i\<in>La \<union> Lb. i \<noteq> nfa_end c \<longrightarrow> \<not> is_match (S' ! i)"
      proof (intro ballI impI)
        fix i assume i: "i \<in> La \<union> Lb" "i \<noteq> nfa_end c"
        show "\<not> is_match (S' ! i)"
        proof (cases "i \<in> Lb")
          case True
          with db'(8) i show ?thesis by (simp add: c make_automata_def)
        next
          case False
          with i have "i \<in> La" by simp
          with da(8) [of i] same_a ea show ?thesis by (cases "i = ?ea") auto
        qed
      qed
      show "\<forall>i\<in>La \<union> Lb. \<forall>x q. arc S' i x q \<longrightarrow> q \<in> La \<union> Lb"
      proof (intro ballI allI impI)
        fix i x q assume i: "i \<in> La \<union> Lb" and ar: "arc S' i x q"
        consider "i \<in> Lb" | "i = ?ea" | "i \<in> La" "i \<noteq> ?ea" using i by blast
        then show "q \<in> La \<union> Lb"
        proof cases
          case 1
          with db'(9) ar show ?thesis by blast
        next
          case 2
          with ar db(4) show ?thesis by (auto simp: arc_split [OF ea] NO_STATE_def)
        next
          case 3
          with ar da(9) [of i x q] show ?thesis by (simp add: arcs)
        qed
      qed
    qed (use da db' lta(3) [OF da(4)] in \<open>auto simp: c make_automata_def\<close>)
    have "path S' (nfa_start a) w (nfa_end b) \<longleftrightarrow>
          (\<exists>u v. w = u @ v \<and> path S (nfa_start a) u ?ea \<and> path S (nfa_start b) v (nfa_end b))"
      for w
      unfolding redirect_paths [OF a ea(2) ltb(2) [OF db(4)] same_a _ da(4) ltb(3) [OF db(5)],
          simplified len, OF order_refl]
      by (simp add: path_stable [OF b hb same_b db(4)])
    then have 2: "lang_of S' c = lang_conc (lang_of S a) (lang_of S b)"
      by (auto simp: lang_of_def c make_automata_def lang_conc_def)
    have 3: "\<forall>i<length S. i \<notin> La \<union> Lb \<longrightarrow> S' ! i = S ! i"
      using da(5) lta [OF da(5)] by (auto simp: S' nth_list_update)
    have 4: "arena_ok S'" if "arena_ok S"
      unfolding S' using that ltb [OF db(4)]
      by (intro arena_ok_update) (auto simp: arena_ok_def NO_STATE_def)
    have 5: "\<forall>s\<in>set S'. label_ok s" if "\<forall>s\<in>set S. label_ok s"
      unfolding S' using that by (intro labels_ok_update) auto
    have "\<exists>L. frag S' la (length S') c L \<and> L \<subseteq> La \<union> Lb"
      using 1 by (intro exI [of _ "La \<union> Lb"]) auto
    with 2 3 4 5 show ?thesis by blast
  qed
  from res show "\<exists>L. frag S' la (length S') c L \<and> L \<subseteq> La \<union> Lb"
    "lang_of S' c = lang_conc (lang_of S a) (lang_of S b)"
    "\<forall>i<length S. i \<notin> La \<union> Lb \<longrightarrow> S' ! i = S ! i"
    "arena_ok S \<Longrightarrow> arena_ok S'"
    "\<forall>s\<in>set S. label_ok s \<Longrightarrow> \<forall>s\<in>set S'. label_ok s"
    by blast+
qed

text \<open>Alternation, with the shortcut for a trivial operand and without it.\<close>

lemma alternate_frag:
  assumes a: "frag S la ha a La" and b: "frag S lb hb b Lb" and dis: "ha \<le> lb"
    and st: "alternate S a b = (c, S')"
  shows "\<exists>L. frag S' la (length S') c L \<and> L \<subseteq> La \<union> Lb \<union> {length S..<length S'}"
    "lang_of S' c = lang_of S a \<union> lang_of S b"
    "length S < length S'" "\<forall>i<length S. i \<notin> La \<union> Lb \<longrightarrow> S' ! i = S ! i"
    "arena_ok S \<Longrightarrow> arena_ok S'"
    "\<forall>s\<in>set S. label_ok s \<Longrightarrow> \<forall>s\<in>set S'. label_ok s"
proof -
  note da = fragD [OF a] and db = fragD [OF b]
  have lta: "i < length S" "i \<noteq> 0" "i \<notin> Lb" "la \<le> i" "i < Suc (length S)"
    "i < Suc (Suc (length S))" if "i \<in> La" for i
    using da(10) [OF that] db(3) dis by auto
  have ltb: "i < length S" "i \<noteq> 0" "i \<notin> La" "la \<le> i" "i < Suc (length S)"
    "i < Suc (Suc (length S))" if "i \<in> Lb" for i
    using db(10) [OF that] da(3) da(10) [OF da(4)] dis by auto
  let ?f = "length S"
  let ?S1 = "S @ [split_state (nfa_start a) (nfa_start b)]"
  have f_notin: "?f \<notin> La" "?f \<notin> Lb" using lta(1) ltb(1) by auto
  have triv_a: "is_trivial ?S1 a = is_trivial S a"
    by (rule is_trivial_cong [OF lta(1) [OF da(4)]])
  have triv_b: "is_trivial ?S1 b = is_trivial S b"
    by (rule is_trivial_cong [OF ltb(1) [OF db(4)]])
  have res: "(\<exists>L. frag S' la (length S') c L \<and> L \<subseteq> La \<union> Lb \<union> {length S..<length S'}) \<and>
      lang_of S' c = lang_of S a \<union> lang_of S b \<and> length S < length S' \<and>
      (\<forall>i<length S. i \<notin> La \<union> Lb \<longrightarrow> S' ! i = S ! i) \<and>
      (arena_ok S \<longrightarrow> arena_ok S') \<and>
      ((\<forall>s\<in>set S. label_ok s) \<longrightarrow> (\<forall>s\<in>set S'. label_ok s))"
  proof -
    consider (ta) "is_trivial S a" | (tb) "\<not> is_trivial S a" "is_trivial S b"
      | (full) "\<not> is_trivial S a" "\<not> is_trivial S b" by blast
    then show ?thesis
    proof cases
      case ta
      note tl = trivial_lang [OF a ta]
      let ?sa = "nfa_start a"
      from st ta have S': "S' = ?S1[?sa := (?S1 ! ?sa)\<lparr>next1 := nfa_end b\<rparr>]"
        and c: "c = make_automata ?f (nfa_end b)"
        by (simp_all add: alternate_def add_state_def Let_def triv_a)
      have len: "length S' = Suc (length S)" by (simp add: S')
      have S1sa: "?S1 ! ?sa = S ! ?sa" using lta [OF da(4)] by (simp add: nth_append)
      have sa: "?sa < length S'" "\<not> is_split (S' ! ?sa)" "\<not> is_match (S' ! ?sa)"
        "next1 (S' ! ?sa) = nfa_end b" "accepts_byte (S' ! ?sa) = accepts_byte (S ! ?sa)"
        using lta [OF da(4)] tl(2,3)
        by (auto simp: S' S1sa is_split_def is_match_def accepts_byte_def fun_eq_iff)
      have f: "?f < length S'" "S' ! ?f = split_state ?sa (nfa_start b)"
        using lta [OF da(4)] by (simp_all add: S')
      have same: "\<forall>i\<in>Lb. S' ! i = S ! i"
      proof
        fix i assume i: "i \<in> Lb"
        with lta(3) [OF da(4)] have "i \<noteq> ?sa" by blast
        with ltb [OF i] show "S' ! i = S ! i" by (simp add: S' nth_append)
      qed
      have hb: "hb \<le> length S'" using db(2) len by simp
      note b' = frag_stable [OF b hb same]
      note db' = fragD [OF b']
      have arc_sa: "arc S' ?sa x q \<Longrightarrow> q = nfa_end b" for x q
        using sa by (auto simp: arc_def)
      have 1: "frag S' la (length S') c (insert ?f (insert ?sa Lb))"
        unfolding frag_def
      proof (intro conjI)
        show "insert ?f (insert ?sa Lb) \<subseteq> {la..<length S'}"
          using lta [OF da(4)] ltb len by (auto intro: less_SucI)
        show "\<forall>i\<in>insert ?f (insert ?sa Lb). i \<noteq> nfa_end c \<longrightarrow> \<not> is_match (S' ! i)"
          using db'(8) sa(3) f by (auto simp: c make_automata_def)
        show "\<forall>i\<in>insert ?f (insert ?sa Lb). \<forall>x q. arc S' i x q \<longrightarrow>
            q \<in> insert ?f (insert ?sa Lb)"
          using db'(9) db(4,5) arc_sa by (auto simp: arc_split [OF f])
      qed (use da(1) db' f_notin ltb(1) [OF db(5)] in \<open>auto simp: c make_automata_def\<close>)
      have eb: "nfa_end b < length S'" "S' ! nfa_end b = match_state"
        using db'(7) ltb [OF db(5)] len by simp_all
      have pa: "path S' ?sa w (nfa_end b) \<longleftrightarrow> (\<exists>ch. w = [ch] \<and> accepts_byte (S ! ?sa) ch)"
        for w
        using lta(3) [OF da(4)] db(5) ltb(2) [OF db(5)]
        by (subst path_from_range [OF sa(1,2)])
           (auto simp: sa(4,5) path_from_match [OF eb])
      have "path S' ?f w (nfa_end b) \<longleftrightarrow>
            (\<exists>ch. w = [ch] \<and> accepts_byte (S ! ?sa) ch) \<or> path S (nfa_start b) w (nfa_end b)"
        for w
        using f_notin db(5) lta(2) [OF da(4)] ltb(2) [OF db(4)]
        by (subst path_from_split [OF f(1)])
           (auto simp: f(2) pa path_stable [OF b hb same db(4)])
      then have 2: "lang_of S' c = lang_of S a \<union> lang_of S b"
        unfolding tl(1) by (auto simp: lang_of_def c make_automata_def)
      have 3: "\<forall>i<length S. i \<notin> La \<union> Lb \<longrightarrow> S' ! i = S ! i"
        using da(4) lta [OF da(4)] by (auto simp: S' nth_list_update nth_append)
      have 4: "arena_ok S'" if "arena_ok S"
      proof -
        have "arena_ok ?S1"
          using that lta [OF da(4)] ltb [OF db(4)] by (intro arena_ok_append) auto
        then show ?thesis
          unfolding S' using ltb [OF db(5)] lta [OF da(4)]
          by (intro arena_ok_update) (auto simp: arena_ok_def nth_append)
      qed
      have 5: "\<forall>s\<in>set S'. label_ok s" if "\<forall>s\<in>set S. label_ok s"
        unfolding S' S1sa using that lta [OF da(4)] by (intro labels_ok_update) auto
      have "\<exists>L. frag S' la (length S') c L \<and> L \<subseteq> La \<union> Lb \<union> {length S..<length S'}"
        using 1 da(4) len by (intro exI [of _ "insert ?f (insert ?sa Lb)"]) auto
      with 2 3 4 5 len show ?thesis by auto
    next
      case tb
      note tl = trivial_lang [OF b tb(2)]
      let ?sb = "nfa_start b"
      from st tb have S': "S' = ?S1[?sb := (?S1 ! ?sb)\<lparr>next1 := nfa_end a\<rparr>]"
        and c: "c = make_automata ?f (nfa_end a)"
        by (simp_all add: alternate_def add_state_def Let_def triv_a triv_b)
      have len: "length S' = Suc (length S)" by (simp add: S')
      have S1sb: "?S1 ! ?sb = S ! ?sb" using ltb [OF db(4)] by (simp add: nth_append)
      have sb: "?sb < length S'" "\<not> is_split (S' ! ?sb)" "\<not> is_match (S' ! ?sb)"
        "next1 (S' ! ?sb) = nfa_end a" "accepts_byte (S' ! ?sb) = accepts_byte (S ! ?sb)"
        using ltb [OF db(4)] tl(2,3)
        by (auto simp: S' S1sb is_split_def is_match_def accepts_byte_def fun_eq_iff)
      have f: "?f < length S'" "S' ! ?f = split_state (nfa_start a) ?sb"
        using ltb [OF db(4)] by (simp_all add: S')
      have same: "\<forall>i\<in>La. S' ! i = S ! i"
      proof
        fix i assume i: "i \<in> La"
        with ltb(3) [OF db(4)] have "i \<noteq> ?sb" by blast
        with lta [OF i] show "S' ! i = S ! i" by (simp add: S' nth_append)
      qed
      have ha: "ha \<le> length S'" using da(2) len by simp
      note a' = frag_stable [OF a ha same]
      note da' = fragD [OF a']
      have arc_sb: "arc S' ?sb x q \<Longrightarrow> q = nfa_end a" for x q
        using sb by (auto simp: arc_def)
      have 1: "frag S' la (length S') c (insert ?f (insert ?sb La))"
        unfolding frag_def
      proof (intro conjI)
        show "insert ?f (insert ?sb La) \<subseteq> {la..<length S'}"
          using ltb [OF db(4)] lta len by (auto intro: less_SucI)
        show "\<forall>i\<in>insert ?f (insert ?sb La). i \<noteq> nfa_end c \<longrightarrow> \<not> is_match (S' ! i)"
          using da'(8) sb(3) f by (auto simp: c make_automata_def)
        show "\<forall>i\<in>insert ?f (insert ?sb La). \<forall>x q. arc S' i x q \<longrightarrow>
            q \<in> insert ?f (insert ?sb La)"
          using da'(9) da(4,5) arc_sb by (auto simp: arc_split [OF f])
      qed (use da(1) da' f_notin lta(1) [OF da(5)] in \<open>auto simp: c make_automata_def\<close>)
      have ea: "nfa_end a < length S'" "S' ! nfa_end a = match_state"
        using da'(7) lta [OF da(5)] len by simp_all
      have pb: "path S' ?sb w (nfa_end a) \<longleftrightarrow> (\<exists>ch. w = [ch] \<and> accepts_byte (S ! ?sb) ch)"
        for w
        using ltb(3) [OF db(4)] da(5) lta(2) [OF da(5)]
        by (subst path_from_range [OF sb(1,2)])
           (auto simp: sb(4,5) path_from_match [OF ea])
      have "path S' ?f w (nfa_end a) \<longleftrightarrow>
            path S (nfa_start a) w (nfa_end a) \<or> (\<exists>ch. w = [ch] \<and> accepts_byte (S ! ?sb) ch)"
        for w
        using f_notin da(5) lta(2) [OF da(4)] ltb(2) [OF db(4)]
        by (subst path_from_split [OF f(1)])
           (auto simp: f(2) pb path_stable [OF a ha same da(4)])
      then have 2: "lang_of S' c = lang_of S a \<union> lang_of S b"
        unfolding tl(1) by (auto simp: lang_of_def c make_automata_def)
      have 3: "\<forall>i<length S. i \<notin> La \<union> Lb \<longrightarrow> S' ! i = S ! i"
        using db(4) ltb [OF db(4)] by (auto simp: S' nth_list_update nth_append)
      have 4: "arena_ok S'" if "arena_ok S"
      proof -
        have "arena_ok ?S1"
          using that lta [OF da(4)] ltb [OF db(4)] by (intro arena_ok_append) auto
        then show ?thesis
          unfolding S' using lta [OF da(5)] ltb [OF db(4)]
          by (intro arena_ok_update) (auto simp: arena_ok_def nth_append)
      qed
      have 5: "\<forall>s\<in>set S'. label_ok s" if "\<forall>s\<in>set S. label_ok s"
        unfolding S' S1sb using that ltb [OF db(4)] by (intro labels_ok_update) auto
      have "\<exists>L. frag S' la (length S') c L \<and> L \<subseteq> La \<union> Lb \<union> {length S..<length S'}"
        using 1 db(4) len by (intro exI [of _ "insert ?f (insert ?sb La)"]) auto
      with 2 3 4 5 len show ?thesis by auto
    next
      case full
      let ?e = "Suc (length S)"
      let ?ea = "nfa_end a" and ?eb = "nfa_end b"
      let ?S2 = "?S1 @ [match_state]"
      from st full have S': "S' = ?S2[?ea := split_state ?e NO_STATE, ?eb := split_state ?e NO_STATE]"
        and c: "c = make_automata ?f ?e"
        by (simp_all add: alternate_def add_state_def Let_def triv_a triv_b)
      have len: "length S' = Suc (Suc (length S))" by (simp add: S')
      have neq: "?ea \<noteq> ?eb" using lta(3) [OF da(5)] db(5) by auto
      have f: "?f < length S'" "S' ! ?f = split_state (nfa_start a) (nfa_start b)"
        using lta [OF da(5)] ltb [OF db(5)] by (simp_all add: S' nth_append)
      have e_notin: "?e \<notin> La" "?e \<notin> Lb"
        using lta(1) [of ?e] ltb(1) [of ?e] by auto
      have e: "?e < length S'" "S' ! ?e = match_state" "?e \<notin> La" "?e \<notin> Lb"
        using lta [OF da(5)] ltb [OF db(5)] e_notin
        by (auto simp: S' nth_append)
      have ea: "?ea < length S'" "S' ! ?ea = split_state ?e NO_STATE"
        using lta [OF da(5)] neq by (simp_all add: S')
      have eb: "?eb < length S'" "S' ! ?eb = split_state ?e NO_STATE"
        using ltb [OF db(5)] by (simp_all add: S')
      have same_a: "\<forall>i\<in>La. i \<noteq> ?ea \<longrightarrow> S' ! i = S ! i"
      proof (intro ballI impI)
        fix i assume i: "i \<in> La" "i \<noteq> ?ea"
        with ltb(3) [OF db(5)] have "i \<noteq> ?eb" by auto
        with i lta [OF i(1)] show "S' ! i = S ! i" by (simp add: S' nth_append)
      qed
      have same_b: "\<forall>i\<in>Lb. i \<noteq> ?eb \<longrightarrow> S' ! i = S ! i"
      proof (intro ballI impI)
        fix i assume i: "i \<in> Lb" "i \<noteq> ?eb"
        with lta(3) [OF da(5)] have "i \<noteq> ?ea" by auto
        with i ltb [OF i(1)] show "S' ! i = S ! i" by (simp add: S' nth_append)
      qed
      have arcs_a: "arc S' i x q \<longleftrightarrow> arc S i x q" if "i \<in> La" "i \<noteq> ?ea" for i x q
        using that same_a lta [OF that(1)] len by (intro arc_cong) auto
      have arcs_b: "arc S' i x q \<longleftrightarrow> arc S i x q" if "i \<in> Lb" "i \<noteq> ?eb" for i x q
        using that same_b ltb [OF that(1)] len by (intro arc_cong) auto
      let ?L = "insert ?f (insert ?e (La \<union> Lb))"
      have 1: "frag S' la (length S') c ?L"
        unfolding frag_def
      proof (intro conjI)
        show "?L \<subseteq> {la..<length S'}"
          using lta ltb lta [OF da(4)] len by (auto intro: less_SucI)
        show "\<forall>i\<in>?L. i \<noteq> nfa_end c \<longrightarrow> \<not> is_match (S' ! i)"
        proof (intro ballI impI)
          fix i assume i: "i \<in> ?L" "i \<noteq> nfa_end c"
          then consider "i = ?f" | "i = ?ea" | "i = ?eb" | "i \<in> La" "i \<noteq> ?ea"
            | "i \<in> Lb" "i \<noteq> ?eb"
            by (auto simp: c make_automata_def)
          then show "\<not> is_match (S' ! i)"
          proof cases
            case 4
            with same_a da(8) [of i] show ?thesis by simp
          next
            case 5
            with same_b db(8) [of i] show ?thesis by simp
          qed (simp_all add: f ea eb)
        qed
        show "\<forall>i\<in>?L. \<forall>x q. arc S' i x q \<longrightarrow> q \<in> ?L"
        proof (intro ballI allI impI)
          fix i x q assume i: "i \<in> ?L" and ar: "arc S' i x q"
          from i consider "i = ?f" | "i = ?e" | "i = ?ea" | "i = ?eb" | "i \<in> La" "i \<noteq> ?ea"
            | "i \<in> Lb" "i \<noteq> ?eb"
            by blast
          then show "q \<in> ?L"
          proof cases
            case 1
            with ar da(4) db(4) show ?thesis by (auto simp: arc_split [OF f])
          next
            case 2
            with ar match_state_no_arc [OF e(1,2)] show ?thesis by simp
          next
            case 3
            with ar show ?thesis by (auto simp: arc_split [OF ea] NO_STATE_def)
          next
            case 4
            with ar show ?thesis by (auto simp: arc_split [OF eb] NO_STATE_def)
          next
            case 5
            with ar da(9) [of i x q] show ?thesis by (simp add: arcs_a)
          next
            case 6
            with ar db(9) [of i x q] show ?thesis by (simp add: arcs_b)
          qed
        qed
      qed (use da(1) da(4) e in \<open>auto simp: c make_automata_def\<close>)
      have ra: "path S' (nfa_start a) w ?e \<longleftrightarrow> path S (nfa_start a) w ?ea" for w
      proof -
        have "path S' (nfa_start a) w ?e \<longleftrightarrow>
            (\<exists>u v. w = u @ v \<and> path S (nfa_start a) u ?ea \<and> path S' ?e v ?e)"
          by (rule redirect_paths [OF a ea(2) _ same_a _ da(4) e(3)]) (simp_all add: len)
        then show ?thesis by (simp add: path_from_match [OF e(1,2)])
      qed
      have rb: "path S' (nfa_start b) w ?e \<longleftrightarrow> path S (nfa_start b) w ?eb" for w
      proof -
        have "path S' (nfa_start b) w ?e \<longleftrightarrow>
            (\<exists>u v. w = u @ v \<and> path S (nfa_start b) u ?eb \<and> path S' ?e v ?e)"
          by (rule redirect_paths [OF b eb(2) _ same_b _ db(4) e(4)]) (simp_all add: len)
        then show ?thesis by (simp add: path_from_match [OF e(1,2)])
      qed
      have "path S' ?f w ?e \<longleftrightarrow>
            path S (nfa_start a) w ?ea \<or> path S (nfa_start b) w ?eb" for w
        using lta(2) [OF da(4)] ltb(2) [OF db(4)]
        by (subst path_from_split [OF f(1)]) (auto simp: f(2) ra rb)
      then have 2: "lang_of S' c = lang_of S a \<union> lang_of S b"
        by (auto simp: lang_of_def c make_automata_def)
      have 3: "\<forall>i<length S. i \<notin> La \<union> Lb \<longrightarrow> S' ! i = S ! i"
        using da(5) db(5) lta [OF da(5)] ltb [OF db(5)]
        by (auto simp: S' nth_list_update nth_append)
      have 4: "arena_ok S'" if "arena_ok S"
      proof -
        have "arena_ok ?S1"
          using that lta [OF da(4)] ltb [OF db(4)] by (intro arena_ok_append) auto
        then have "arena_ok ?S2" by (rule arena_ok_append) auto
        then show ?thesis
          unfolding S' by (intro arena_ok_update) (auto simp: NO_STATE_def)
      qed
      have 5: "\<forall>s\<in>set S'. label_ok s" if "\<forall>s\<in>set S. label_ok s"
        unfolding S' using that by (intro labels_ok_update) auto
      have "\<exists>L. frag S' la (length S') c L \<and> L \<subseteq> La \<union> Lb \<union> {length S..<length S'}"
        using 1 len by (intro exI [of _ ?L]) auto
      with 2 3 4 5 len show ?thesis by auto
    qed
  qed
  from res show "\<exists>L. frag S' la (length S') c L \<and> L \<subseteq> La \<union> Lb \<union> {length S..<length S'}"
    "lang_of S' c = lang_of S a \<union> lang_of S b"
    "length S < length S'" "\<forall>i<length S. i \<notin> La \<union> Lb \<longrightarrow> S' ! i = S ! i"
    "arena_ok S \<Longrightarrow> arena_ok S'"
    "\<forall>s\<in>set S. label_ok s \<Longrightarrow> \<forall>s\<in>set S'. label_ok s"
    by blast+
qed

section \<open>The automaton of a syntax tree\<close>

lemma codepoint_char_of: "0 \<le> k \<Longrightarrow> k < 128 \<Longrightarrow> codepoint (char_of (k :: int)) = k"
  by (simp add: codepoint_def)

lemma printable_bounds: "printable c \<longleftrightarrow> 0x20 \<le> codepoint c \<and> codepoint c \<le> 0x7E"
  by (simp add: printable_def cmin_def cmax_def codepoint_def)

lemma label_ok_range:
  "0x20 \<le> codepoint mn \<Longrightarrow> codepoint mx \<le> 0x7E \<Longrightarrow> label_ok (range_state mn mx n)"
  by (simp add: label_ok_def range_state_def)

lemma build_Lit_ok:
  assumes "0 < length S" "build (Lit mn mx) S = (c, S')"
  shows "arena_ok S \<Longrightarrow> arena_ok S'"
    "\<forall>s\<in>set S. label_ok s \<Longrightarrow> printable mn \<Longrightarrow> printable mx \<Longrightarrow> \<forall>s\<in>set S'. label_ok s"
proof -
  note S' = build_Lit(1) [OF assms]
  show "arena_ok S'" if "arena_ok S"
    using that unfolding S' by (auto simp: arena_ok_def range_state_def NO_STATE_def)
  show "\<forall>s\<in>set S'. label_ok s" if "\<forall>s\<in>set S. label_ok s" "printable mn" "printable mx"
    using that unfolding S' by (auto simp: printable_bounds intro: label_ok_range)
qed

lemma build_NLit_ok:
  assumes "0 < length S" "build (NLit mn mx) S = (c, S')"
  shows "arena_ok S \<Longrightarrow> arena_ok S'"
    "\<forall>s\<in>set S. label_ok s \<Longrightarrow> printable mn \<Longrightarrow> printable mx \<Longrightarrow> \<forall>s\<in>set S'. label_ok s"
proof -
  note S' = build_NLit(1) [OF assms]
  show "arena_ok S'" if "arena_ok S"
    using that unfolding S' by (auto simp: arena_ok_def range_state_def NO_STATE_def split_state_def)
  show "\<forall>s\<in>set S'. label_ok s" if "\<forall>s\<in>set S. label_ok s" "printable mn" "printable mx"
  proof -
    from that have b: "0x20 \<le> codepoint mn" "codepoint mn \<le> 0x7E" "0x20 \<le> codepoint mx"
      "codepoint mx \<le> 0x7E"
      by (simp_all add: printable_bounds)
    have 1: "label_ok (range_state cmin (char_of (codepoint mn - 1)) (length S))"
      by (rule label_ok_range) (use b in \<open>simp_all add: codepoint_char_of cmin_def codepoint_def\<close>)
    have 2: "label_ok (range_state (char_of (codepoint mx + 1)) cmax (length S))"
      by (rule label_ok_range) (use b in \<open>simp_all add: codepoint_char_of cmax_def codepoint_def\<close>)
    from that(1) 1 2 show ?thesis unfolding S' by auto
  qed
qed

lemma build_frag:
  assumes "0 < length S0" "build r S0 = (a, S)"
  shows "(\<exists>L. frag S (length S0) (length S) a L) \<and> lang_of S a = den r \<and>
    length S0 < length S \<and> (\<forall>i<length S0. S ! i = S0 ! i) \<and>
    (arena_ok S0 \<longrightarrow> arena_ok S) \<and>
    ((\<forall>s\<in>set S0. label_ok s) \<and> wf_regex r \<longrightarrow> (\<forall>s\<in>set S. label_ok s))"
  using assms
proof (induction r arbitrary: S0 a S)
  case (Lit mn mx)
  note b = build_Lit [OF Lit.prems] build_Lit_ok [OF Lit.prems]
  have "\<forall>i<length S0. S ! i = S0 ! i" unfolding b(1) by (simp add: nth_append)
  then show ?case
  proof (intro conjI impI)
    show "\<exists>L. frag S (length S0) (length S) a L" using b(3) by blast
    show "lang_of S a = den (Lit mn mx)" by (rule b(4))
    show "length S0 < length S" unfolding b(1) by simp
    show "arena_ok S" if "arena_ok S0" using that by (rule b(5))
    show "\<forall>s\<in>set S. label_ok s" if "(\<forall>s\<in>set S0. label_ok s) \<and> wf_regex (Lit mn mx)"
      using that by (intro b(6)) simp_all
  qed
next
  case (NLit mn mx)
  note b = build_NLit [OF NLit.prems] build_NLit_ok [OF NLit.prems]
  have "\<forall>i<length S0. S ! i = S0 ! i" unfolding b(1) by (simp add: nth_append)
  then show ?case
  proof (intro conjI impI)
    show "\<exists>L. frag S (length S0) (length S) a L" using b(3) by blast
    show "lang_of S a = den (NLit mn mx)" by (rule b(4))
    show "length S0 < length S" unfolding b(1) by simp
    show "arena_ok S" if "arena_ok S0" using that by (rule b(5))
    show "\<forall>s\<in>set S. label_ok s" if "(\<forall>s\<in>set S0. label_ok s) \<and> wf_regex (NLit mn mx)"
      using that by (intro b(6)) simp_all
  qed
next
  case (Star r)
  obtain a1 S1 where b1: "build r S0 = (a1, S1)" by (cases "build r S0")
  with Star.prems have op: "star S1 a1 = (a, S)" by simp
  from Star.IH [OF Star.prems(1) b1] obtain L where
    fr: "frag S1 (length S0) (length S1) a1 L" and la: "lang_of S1 a1 = den r"
    and len: "length S0 < length S1" and same: "\<forall>i<length S0. S1 ! i = S0 ! i"
    and ok: "arena_ok S0 \<longrightarrow> arena_ok S1"
    and lab: "(\<forall>s\<in>set S0. label_ok s) \<and> wf_regex r \<longrightarrow> (\<forall>s\<in>set S1. label_ok s)"
    by blast
  note s = star_frag [OF fr op]
  have "\<forall>i<length S0. S ! i = S0 ! i"
  proof (intro allI impI)
    fix i assume i: "i < length S0"
    then have "i \<notin> L" using fragD(10) [OF fr, of i] by auto
    with s(4) i len same show "S ! i = S0 ! i" by simp
  qed
  then show ?case
  proof (intro conjI impI)
    show "\<exists>L. frag S (length S0) (length S) a L" using s(1) by blast
    show "lang_of S a = den (Star r)" using s(2) la by simp
    show "length S0 < length S" using s(3) len by simp
    show "arena_ok S" if "arena_ok S0" using that ok s(5) by blast
    show "\<forall>s\<in>set S. label_ok s" if "(\<forall>s\<in>set S0. label_ok s) \<and> wf_regex (Star r)"
    proof -
      from that lab have "\<forall>s\<in>set S1. label_ok s" by simp
      then show ?thesis by (rule s(6))
    qed
  qed
next
  case (Plus r)
  obtain a1 S1 where b1: "build r S0 = (a1, S1)" by (cases "build r S0")
  with Plus.prems have op: "plus_nfa S1 a1 = (a, S)" by simp
  from Plus.IH [OF Plus.prems(1) b1] obtain L where
    fr: "frag S1 (length S0) (length S1) a1 L" and la: "lang_of S1 a1 = den r"
    and len: "length S0 < length S1" and same: "\<forall>i<length S0. S1 ! i = S0 ! i"
    and ok: "arena_ok S0 \<longrightarrow> arena_ok S1"
    and lab: "(\<forall>s\<in>set S0. label_ok s) \<and> wf_regex r \<longrightarrow> (\<forall>s\<in>set S1. label_ok s)"
    by blast
  note s = plus_frag [OF fr op]
  have "\<forall>i<length S0. S ! i = S0 ! i"
  proof (intro allI impI)
    fix i assume i: "i < length S0"
    then have "i \<notin> L" using fragD(10) [OF fr, of i] by auto
    with s(4) i len same show "S ! i = S0 ! i" by simp
  qed
  then show ?case
  proof (intro conjI impI)
    show "\<exists>L. frag S (length S0) (length S) a L" using s(1) by blast
    show "lang_of S a = den (Plus r)" using s(2) la by simp
    show "length S0 < length S" using s(3) len by simp
    show "arena_ok S" if "arena_ok S0" using that ok s(5) by blast
    show "\<forall>s\<in>set S. label_ok s" if "(\<forall>s\<in>set S0. label_ok s) \<and> wf_regex (Plus r)"
    proof -
      from that lab have "\<forall>s\<in>set S1. label_ok s" by simp
      then show ?thesis by (rule s(6))
    qed
  qed
next
  case (Quest r)
  obtain a1 S1 where b1: "build r S0 = (a1, S1)" by (cases "build r S0")
  with Quest.prems have op: "question S1 a1 = (a, S)" by simp
  from Quest.IH [OF Quest.prems(1) b1] obtain L where
    fr: "frag S1 (length S0) (length S1) a1 L" and la: "lang_of S1 a1 = den r"
    and len: "length S0 < length S1" and same: "\<forall>i<length S0. S1 ! i = S0 ! i"
    and ok: "arena_ok S0 \<longrightarrow> arena_ok S1"
    and lab: "(\<forall>s\<in>set S0. label_ok s) \<and> wf_regex r \<longrightarrow> (\<forall>s\<in>set S1. label_ok s)"
    by blast
  note s = question_frag [OF fr op]
  have "\<forall>i<length S0. S ! i = S0 ! i"
  proof (intro allI impI)
    fix i assume i: "i < length S0"
    then have "i \<notin> L" using fragD(10) [OF fr, of i] by auto
    with s(4) i len same show "S ! i = S0 ! i" by simp
  qed
  then show ?case
  proof (intro conjI impI)
    show "\<exists>L. frag S (length S0) (length S) a L" using s(1) by blast
    show "lang_of S a = den (Quest r)" using s(2) la by simp
    show "length S0 < length S" using s(3) len by simp
    show "arena_ok S" if "arena_ok S0" using that ok s(5) by blast
    show "\<forall>s\<in>set S. label_ok s" if "(\<forall>s\<in>set S0. label_ok s) \<and> wf_regex (Quest r)"
    proof -
      from that lab have "\<forall>s\<in>set S1. label_ok s" by simp
      then show ?thesis by (rule s(6))
    qed
  qed
next
  case (Cat r1 r2)
  obtain a1 S1 where b1: "build r1 S0 = (a1, S1)" by (cases "build r1 S0")
  obtain a2 S2 where b2: "build r2 S1 = (a2, S2)" by (cases "build r2 S1")
  from Cat.prems b1 b2 have op: "concatenate S2 a1 a2 = (a, S)" by simp
  from Cat.IH(1) [OF Cat.prems(1) b1] obtain L1 where
    fr1: "frag S1 (length S0) (length S1) a1 L1" and la1: "lang_of S1 a1 = den r1"
    and len1: "length S0 < length S1" and same1: "\<forall>i<length S0. S1 ! i = S0 ! i"
    and ok1: "arena_ok S0 \<longrightarrow> arena_ok S1"
    and lab1: "(\<forall>s\<in>set S0. label_ok s) \<and> wf_regex r1 \<longrightarrow> (\<forall>s\<in>set S1. label_ok s)"
    by blast
  from len1 Cat.prems(1) have pos1: "0 < length S1" by auto
  from Cat.IH(2) [OF pos1 b2] obtain L2 where
    fr2: "frag S2 (length S1) (length S2) a2 L2" and la2: "lang_of S2 a2 = den r2"
    and len2: "length S1 < length S2" and same2: "\<forall>i<length S1. S2 ! i = S1 ! i"
    and ok2: "arena_ok S1 \<longrightarrow> arena_ok S2"
    and lab2: "(\<forall>s\<in>set S1. label_ok s) \<and> wf_regex r2 \<longrightarrow> (\<forall>s\<in>set S2. label_ok s)"
    by blast
  have st: "\<forall>i\<in>L1. S2 ! i = S1 ! i"
    using same2 fragD(10) [OF fr1] by auto
  have le: "length S1 \<le> length S2" using len2 by simp
  have fr1': "frag S2 (length S0) (length S1) a1 L1"
    by (rule frag_stable [OF fr1 le st])
  have la1': "lang_of S2 a1 = den r1"
    using lang_of_stable [OF fr1 le st] la1 by simp
  note c = concatenate_frag [OF fr1' fr2 order_refl op]
  from c(1) obtain L where L: "frag S (length S0) (length S) a L" by blast
  have "\<forall>i<length S0. S ! i = S0 ! i"
  proof (intro allI impI)
    fix i assume i: "i < length S0"
    then have "i \<notin> L1 \<union> L2" using fragD(10) [OF fr1', of i] fragD(10) [OF fr2, of i] len1 by auto
    with c(4) i len1 len2 same1 same2 show "S ! i = S0 ! i" by simp
  qed
  then show ?case
  proof (intro conjI impI)
    show "\<exists>L. frag S (length S0) (length S) a L" using L by blast
    show "lang_of S a = den (Cat r1 r2)" using c(2) la1' la2 by simp
    show "length S0 < length S" using c(3) len1 len2 by simp
    show "arena_ok S" if "arena_ok S0" using that ok1 ok2 c(5) by blast
    show "\<forall>s\<in>set S. label_ok s" if "(\<forall>s\<in>set S0. label_ok s) \<and> wf_regex (Cat r1 r2)"
    proof -
      from that lab1 have "\<forall>s\<in>set S1. label_ok s" by simp
      with that lab2 have "\<forall>s\<in>set S2. label_ok s" by simp
      then show ?thesis by (rule c(6))
    qed
  qed
next
  case (Alt r1 r2)
  obtain a1 S1 where b1: "build r1 S0 = (a1, S1)" by (cases "build r1 S0")
  obtain a2 S2 where b2: "build r2 S1 = (a2, S2)" by (cases "build r2 S1")
  from Alt.prems b1 b2 have op: "alternate S2 a1 a2 = (a, S)" by simp
  from Alt.IH(1) [OF Alt.prems(1) b1] obtain L1 where
    fr1: "frag S1 (length S0) (length S1) a1 L1" and la1: "lang_of S1 a1 = den r1"
    and len1: "length S0 < length S1" and same1: "\<forall>i<length S0. S1 ! i = S0 ! i"
    and ok1: "arena_ok S0 \<longrightarrow> arena_ok S1"
    and lab1: "(\<forall>s\<in>set S0. label_ok s) \<and> wf_regex r1 \<longrightarrow> (\<forall>s\<in>set S1. label_ok s)"
    by blast
  from len1 Alt.prems(1) have pos1: "0 < length S1" by auto
  from Alt.IH(2) [OF pos1 b2] obtain L2 where
    fr2: "frag S2 (length S1) (length S2) a2 L2" and la2: "lang_of S2 a2 = den r2"
    and len2: "length S1 < length S2" and same2: "\<forall>i<length S1. S2 ! i = S1 ! i"
    and ok2: "arena_ok S1 \<longrightarrow> arena_ok S2"
    and lab2: "(\<forall>s\<in>set S1. label_ok s) \<and> wf_regex r2 \<longrightarrow> (\<forall>s\<in>set S2. label_ok s)"
    by blast
  have st: "\<forall>i\<in>L1. S2 ! i = S1 ! i"
    using same2 fragD(10) [OF fr1] by auto
  have le: "length S1 \<le> length S2" using len2 by simp
  have fr1': "frag S2 (length S0) (length S1) a1 L1"
    by (rule frag_stable [OF fr1 le st])
  have la1': "lang_of S2 a1 = den r1"
    using lang_of_stable [OF fr1 le st] la1 by simp
  note c = alternate_frag [OF fr1' fr2 order_refl op]
  from c(1) obtain L where L: "frag S (length S0) (length S) a L" by blast
  have "\<forall>i<length S0. S ! i = S0 ! i"
  proof (intro allI impI)
    fix i assume i: "i < length S0"
    then have "i \<notin> L1 \<union> L2" using fragD(10) [OF fr1', of i] fragD(10) [OF fr2, of i] len1 by auto
    with c(4) i len1 len2 same1 same2 show "S ! i = S0 ! i" by simp
  qed
  then show ?case
  proof (intro conjI impI)
    show "\<exists>L. frag S (length S0) (length S) a L" using L by blast
    show "lang_of S a = den (Alt r1 r2)" using c(2) la1' la2 by simp
    show "length S0 < length S" using c(3) len1 len2 by simp
    show "arena_ok S" if "arena_ok S0" using that ok1 ok2 c(5) by blast
    show "\<forall>s\<in>set S. label_ok s" if "(\<forall>s\<in>set S0. label_ok s) \<and> wf_regex (Alt r1 r2)"
    proof -
      from that lab1 have "\<forall>s\<in>set S1. label_ok s" by simp
      with that lab2 have "\<forall>s\<in>set S2. label_ok s" by simp
      then show ?thesis by (rule c(6))
    qed
  qed
qed

lemma frag_accepts:
  assumes "frag S lo hi a L"
  shows "accepts S (nfa_start a) w \<longleftrightarrow> w \<in> lang_of S a"
proof
  assume "accepts S (nfa_start a) w"
  then obtain q where q: "path S (nfa_start a) w q" "is_match (S ! q)"
    by (auto simp: accepts_def)
  from frag_path_end [OF assms q] q(1) show "w \<in> lang_of S a"
    by (simp add: lang_of_def)
next
  assume "w \<in> lang_of S a"
  then have "path S (nfa_start a) w (nfa_end a)" by (simp add: lang_of_def)
  moreover have "nfa_end a < length S" "nfa_start a \<noteq> 0"
    using fragD(10) [OF assms fragD(5) [OF assms]] fragD(10) [OF assms fragD(4) [OF assms]]
    by simp_all
  moreover have "is_match (S ! nfa_end a)" using fragD(7) [OF assms] by simp
  ultimately show "accepts S (nfa_start a) w" by (auto simp: accepts_def)
qed

lemma rerex_compile_sound:
  assumes "rerex_compile p = Ok (e, re)"
  obtains r a L where
    "parse_expr (compile_fuel p) \<lparr>str = p, offset = 0\<rparr> = Ok (r, \<lparr>str = p, offset = e\<rparr>)"
    "wf_regex r" "frag (states re) 1 (length (states re)) a L" "start re = nfa_start a"
    "lang_of (states re) a = den r" "arena_ok (states re)" "\<forall>s\<in>set (states re). label_ok s"
proof -
  from assms obtain r a1 nfa where
    p: "parse_expr (compile_fuel p) \<lparr>str = p, offset = 0\<rparr> = Ok (r, a1)" and n: "offset a1 = e"
    and b: "build r [split_state NO_STATE NO_STATE] = (nfa, states re)"
    and s: "start re = nfa_start nfa"
    by (rule rerex_compile_OkD)
  from parse_expr_Ok [OF p] have ok: "str a1 = p" "wf_regex r" by (simp_all add: advanced_def)
  with n have a1: "a1 = \<lparr>str = p, offset = e\<rparr>" by (cases a1) simp
  have 0: "0 < length [split_state NO_STATE NO_STATE]" by simp
  have ok0: "arena_ok [split_state NO_STATE NO_STATE]"
    by (simp add: arena_ok_def NO_STATE_def)
  from build_frag [OF 0 b] ok0 ok(2) obtain L where
    "frag (states re) 1 (length (states re)) nfa L" "lang_of (states re) nfa = den r"
    "arena_ok (states re)" "\<forall>s\<in>set (states re). label_ok s"
    by auto
  with p a1 ok(2) s show ?thesis by (auto intro: that)
qed

lemma rerex_compile_accepts:
  assumes "rerex_compile p = Ok (e, re)"
  obtains r where
    "parse_expr (compile_fuel p) \<lparr>str = p, offset = 0\<rparr> = Ok (r, \<lparr>str = p, offset = e\<rparr>)"
    "\<And>w. accepts (states re) (start re) w \<longleftrightarrow> w \<in> den r"
proof -
  from assms obtain r a L where
    1: "parse_expr (compile_fuel p) \<lparr>str = p, offset = 0\<rparr> = Ok (r, \<lparr>str = p, offset = e\<rparr>)"
    and 2: "frag (states re) 1 (length (states re)) a L" "start re = nfa_start a"
      "lang_of (states re) a = den r"
    by (rule rerex_compile_sound)
  from frag_accepts [OF 2(1)] 2(2,3) have "accepts (states re) (start re) w \<longleftrightarrow> w \<in> den r" for w
    by simp
  with 1 show ?thesis by (rule that)
qed

section \<open>The match states of a compiled pattern\<close>

text \<open>
  C2, as stated: after a successful compile the arena holds one state of kind Match.
  It fails for \<open>ab\<close>: the arena holds two, at the indices 1 and 3. The first is the
  end placeholder of the fragment of \<open>a\<close>, which \<open>concatenate\<close> has bypassed, the
  fragment being trivial, and not rewritten.
\<close>

theorem match_state_unique_counterexample:
  "rerex_compile ''ab'' =
     Ok (2, \<lparr>states = [split_state 0 0, match_state, range_state CHR ''a'' CHR ''a'' 4,
                        match_state, range_state CHR ''b'' CHR ''b'' 3], start = 2\<rparr>) \<and>
   is_match ([split_state 0 0, match_state, range_state CHR ''a'' CHR ''a'' 4,
              match_state, range_state CHR ''b'' CHR ''b'' 3] ! 1) \<and>
   is_match ([split_state 0 0, match_state, range_state CHR ''a'' CHR ''a'' 4,
              match_state, range_state CHR ''b'' CHR ''b'' 3] ! 3)"
proof (intro conjI)
  show "rerex_compile ''ab'' =
     Ok (2, \<lparr>states = [split_state 0 0, match_state, range_state CHR ''a'' CHR ''a'' 4,
                        match_state, range_state CHR ''b'' CHR ''b'' 3], start = 2\<rparr>)"
    by code_simp
qed simp_all

text \<open>
  C2, amended: after a successful compile, at most one state of kind Match can be
  reached from the start state: there is a state \<open>m\<close> of the arena, still the
  placeholder \<open>match_state\<close>, such that every path from the start state that ends in a
  state of kind Match ends in \<open>m\<close>; it is the accepting state of the whole pattern, a
  string being accepted exactly when it labels a path from the start state to \<open>m\<close>.
  The start state itself is a state of the arena other than the sentinel and is not of
  kind Match. (The placeholders that a composition operator has bypassed stay in the
  arena, out of reach.)
\<close>

theorem match_state_unique:
  assumes "rerex_compile p = Ok (e, re)"
  shows "\<exists>m. m < length (states re) \<and> m \<noteq> 0 \<and> states re ! m = match_state \<and>
           (\<forall>w q. path (states re) (start re) w q \<and> is_match (states re ! q) \<longrightarrow> q = m) \<and>
           (\<forall>w. accepts (states re) (start re) w \<longleftrightarrow> path (states re) (start re) w m) \<and>
           start re < length (states re) \<and> start re \<noteq> 0 \<and> start re \<noteq> m \<and>
           \<not> is_match (states re ! start re)"
proof -
  from assms obtain r a L where fr: "frag (states re) 1 (length (states re)) a L"
    and st: "start re = nfa_start a"
    by (rule rerex_compile_sound)
  let ?S = "states re" and ?m = "nfa_end a"
  note e = fragD(10) [OF fr fragD(5) [OF fr]] and s = fragD(10) [OF fr fragD(4) [OF fr]]
  have 1: "q = ?m" if "path ?S (start re) w q \<and> is_match (?S ! q)" for w q
    using frag_path_end [OF fr, of w q] that st by simp
  have 2: "accepts ?S (start re) w \<longleftrightarrow> path ?S (start re) w ?m" for w
    using frag_accepts [OF fr, of w] st by (simp add: lang_of_def)
  have 3: "\<not> is_match (?S ! start re)"
    using fragD(8) [OF fr fragD(4) [OF fr] fragD(6) [OF fr]] st by simp
  show ?thesis
  proof (intro exI [of _ ?m] conjI allI impI)
    show "?m < length ?S" "?m \<noteq> 0" using e by simp_all
    show "?S ! ?m = match_state" by (rule fragD(7) [OF fr])
    show "start re < length ?S" "start re \<noteq> 0" using s st by simp_all
    show "start re \<noteq> ?m" using fragD(6) [OF fr] st by simp
    show "\<not> is_match (?S ! start re)" by (rule 3)
  qed (use 1 2 in blast)+
qed

theorem match_state_unique_witness:
  "rerex_compile ''ab'' =
     Ok (2, \<lparr>states = [split_state 0 0, match_state, range_state CHR ''a'' CHR ''a'' 4,
                        match_state, range_state CHR ''b'' CHR ''b'' 3], start = 2\<rparr>) \<and>
   (\<exists>m. m < 5 \<and> m \<noteq> 0 \<and>
      (\<forall>w q. path [split_state 0 0, match_state, range_state CHR ''a'' CHR ''a'' 4,
                  match_state, range_state CHR ''b'' CHR ''b'' 3] 2 w q \<and>
             is_match ([split_state 0 0, match_state, range_state CHR ''a'' CHR ''a'' 4,
                  match_state, range_state CHR ''b'' CHR ''b'' 3] ! q) \<longrightarrow> q = m))"
proof -
  have c: "rerex_compile ''ab'' =
     Ok (2, \<lparr>states = [split_state 0 0, match_state, range_state CHR ''a'' CHR ''a'' 4,
                        match_state, range_state CHR ''b'' CHR ''b'' 3], start = 2\<rparr>)"
    by code_simp
  let ?S = "[split_state 0 0, match_state, range_state CHR ''a'' CHR ''a'' 4,
             match_state, range_state CHR ''b'' CHR ''b'' 3]"
  from match_state_unique [OF c] obtain m where
    "m < length ?S" "m \<noteq> 0" "\<forall>w q. path ?S 2 w q \<and> is_match (?S ! q) \<longrightarrow> q = m"
    unfolding RerexPattern.select_convs by blast
  then have "\<exists>m. m < 5 \<and> m \<noteq> 0 \<and> (\<forall>w q. path ?S 2 w q \<and> is_match (?S ! q) \<longrightarrow> q = m)"
    by (intro exI [of _ m]) simp
  with c show ?thesis by (rule conjI)
qed

section \<open>The matcher: entering a state\<close>

lemma get_set_active [simp]:
  "get_active (set_active m ph l) ph = l"
  "get_active (set_active m ph l) (\<not> ph) = get_active m (\<not> ph)"
  "ph' \<noteq> ph \<Longrightarrow> get_active (set_active m ph l) ph' = get_active m ph'"
  "regexp (set_active m ph l) = regexp m"
  "last_active (set_active m ph l) = last_active m"
  by (auto simp: get_active_def set_active_def)

lemma get_active_last [simp]:
  "get_active (m\<lparr>last_active := x\<rparr>) ph = get_active m ph"
  by (simp add: get_active_def)

lemma matcher_for_set_active:
  "matcher_for re m \<Longrightarrow> length (indices l) = length (states re) \<Longrightarrow>
   matcher_for re (set_active m ph l)"
  by (auto simp: matcher_for_def set_active_def)

lemma matcher_for_get_active:
  "matcher_for re m \<Longrightarrow> length (indices (get_active m ph)) = length (states re)"
  by (auto simp: matcher_for_def get_active_def)

lemma matcher_for_mark:
  "matcher_for re m \<Longrightarrow> matcher_for re (m\<lparr>last_active := (last_active m)[s := k]\<rparr>)"
  by (simp add: matcher_for_def)

lemma marked_mark:
  "s < length (last_active m) \<Longrightarrow>
   marked (m\<lparr>last_active := (last_active m)[s := step]\<rparr>) step = insert s (marked m step)"
  by (auto simp: marked_def nth_list_update)

lemma marked_set_active [simp]: "marked (set_active m ph l) k = marked m k"
  by (simp add: marked_def)

lemma contents_append:
  assumes "n_indices l < length (indices l)"
  shows "contents (l\<lparr>indices := (indices l)[n_indices l := s], n_indices := n_indices l + 1\<rparr>) =
         contents l @ [s]"
  using assms by (simp add: contents_def take_Suc_conv_app_nth)

lemma length_contents: "n_indices l \<le> length (indices l) \<Longrightarrow> length (contents l) = n_indices l"
  by (simp add: contents_def)

lemma list_ok_room:
  assumes "list_ok n l" "set (contents l) \<subseteq> X" "X \<subseteq> {q. q < n}" "s < n" "s \<notin> X"
  shows "n_indices l < n"
proof -
  from assms(1) have d: "distinct (contents l)" and le: "n_indices l \<le> length (indices l)"
    by (simp_all add: list_ok_def)
  have "set (contents l) \<subseteq> {q. q < n} - {s}" using assms(2,3,5) by auto
  then have "card (set (contents l)) \<le> card ({q. q < n} - {s})"
    by (intro card_mono) simp_all
  also have "\<dots> = n - 1" using assms(4) by simp
  finally have "length (contents l) \<le> n - 1" using d by (simp add: distinct_card)
  with assms(4) le show ?thesis by (simp add: length_contents)
qed

lemma marked_bound: "matcher_for re m \<Longrightarrow> marked m k \<subseteq> {q. q < length (states re)}"
  by (auto simp: marked_def matcher_for_def)

lemma REREX_tags [simp]: "REREX_SPLIT \<noteq> REREX_MATCH" "REREX_MATCH \<noteq> REREX_SPLIT"
  by (simp_all add: REREX_SPLIT_def REREX_MATCH_def)

lemma eps_closure_self: "s \<noteq> 0 \<Longrightarrow> s \<in> eps_closure S s"
  by (simp add: eps_closure_def path_refl)

lemma eps_closure_next:
  assumes "s < length S" "is_split (S ! s)" "s \<noteq> 0"
  shows "eps_closure S (next1 (S ! s)) \<subseteq> eps_closure S s"
    "eps_closure S (next2 (S ! s)) \<subseteq> eps_closure S s"
proof -
  have "path S s [] q" if "t \<noteq> 0" "path S t [] q" "t = next1 (S ! s) \<or> t = next2 (S ! s)" for t q
  proof -
    have "arc S s [] t" using assms that by (auto simp: arc_def)
    from path_step [OF this that(2)] show ?thesis by simp
  qed
  then show "eps_closure S (next1 (S ! s)) \<subseteq> eps_closure S s"
    "eps_closure S (next2 (S ! s)) \<subseteq> eps_closure S s"
    using assms(3) by (auto simp: eps_closure_def)
qed

lemma arena_ok_next:
  "arena_ok S \<Longrightarrow> s < length S \<Longrightarrow> next1 (S ! s) < length S \<and> next2 (S ! s) < length S"
  by (simp add: arena_ok_def)

text \<open>
  What \<open>enter_state\<close> does, given enough fuel: it returns, it marks only states that
  are reached from \<open>s\<close> without input, among them \<open>s\<close>; every split state it marks has
  its successors marked; and the states it appends to the list are those it marks that
  are not split states, each once.
\<close>

lemma enter_state_spec:
  assumes ok: "arena_ok (states re)"
  shows "matcher_for re m \<Longrightarrow> list_ok (length (states re)) (get_active m list) \<Longrightarrow>
     set (contents (get_active m list)) \<subseteq> marked m step \<Longrightarrow> s < length (states re) \<Longrightarrow>
     card ({q. q < length (states re)} - marked m step) < fuel \<Longrightarrow>
     \<exists>m' new. enter_state fuel m step list s = Done m' \<and> matcher_for re m' \<and>
        get_active m' (\<not> list) = get_active m (\<not> list) \<and>
        list_ok (length (states re)) (get_active m' list) \<and>
        contents (get_active m' list) = contents (get_active m list) @ new \<and>
        set new = {q \<in> marked m' step - marked m step. \<not> is_split (states re ! q)} \<and>
        marked m step \<subseteq> marked m' step \<and> (s \<noteq> 0 \<longrightarrow> s \<in> marked m' step) \<and>
        marked m' step - marked m step \<subseteq> eps_closure (states re) s \<and>
        (\<forall>q\<in>marked m' step - marked m step. is_split (states re ! q) \<longrightarrow>
           (next1 (states re ! q) = 0 \<or> next1 (states re ! q) \<in> marked m' step) \<and>
           (next2 (states re ! q) = 0 \<or> next2 (states re ! q) \<in> marked m' step)) \<and>
        (\<forall>q<length (states re). last_active m' ! q = last_active m ! q \<or> last_active m' ! q = step)"
proof (induction fuel arbitrary: m s)
  case 0
  then show ?case by simp
next
  case (Suc fuel)
  let ?S = "states re" and ?n = "length (states re)"
  note mf = Suc.prems(1) and lo = Suc.prems(2) and sub = Suc.prems(3) and sn = Suc.prems(4)
    and cd = Suc.prems(5)
  have len: "length (last_active m) = ?n" "regexp m = re" using mf by (simp_all add: matcher_for_def)
  show ?case
  proof (cases "s = 0 \<or> last_active m ! s = step")
    case True
    then have "enter_state (Suc fuel) m step list s = Done m" using sn len by auto
    moreover have "s \<noteq> 0 \<longrightarrow> s \<in> marked m step" using True sn len by (auto simp: marked_def)
    ultimately show ?thesis using mf lo
      by (intro exI [of _ m] exI [of _ "[]"]) (simp add: Un_absorb1)
  next
    case False
    then have s0: "s \<noteq> 0" and un: "last_active m ! s \<noteq> step" by simp_all
    then have snm: "s \<notin> marked m step" by (simp add: marked_def)
    define m1 where "m1 = m\<lparr>last_active := (last_active m)[s := step]\<rparr>"
    have mf1: "matcher_for re m1" unfolding m1_def by (rule matcher_for_mark [OF mf])
    have ga1: "get_active m1 ph = get_active m ph" for ph by (simp add: m1_def)
    have mk1: "marked m1 step = insert s (marked m step)"
      unfolding m1_def by (rule marked_mark) (simp add: len sn)
    have la1: "\<forall>q<?n. last_active m1 ! q = last_active m ! q \<or> last_active m1 ! q = step"
      using sn by (auto simp: m1_def nth_list_update len)
    have fin: "finite ({q. q < ?n} - X)" for X by simp
    have cd1: "card ({q. q < ?n} - marked m1 step) < fuel"
    proof -
      have "{q. q < ?n} - marked m1 step = ({q. q < ?n} - marked m step) - {s}"
        unfolding mk1 by auto
      moreover have "s \<in> {q. q < ?n} - marked m step" using sn snm by simp
      ultimately have "card ({q. q < ?n} - marked m1 step) = card ({q. q < ?n} - marked m step) - 1"
        by simp
      moreover have "0 < card ({q. q < ?n} - marked m step)"
        using \<open>s \<in> {q. q < ?n} - marked m step\<close> by (auto simp: card_gt_0_iff)
      ultimately show ?thesis using cd by simp
    qed
    have unfold: "enter_state (Suc fuel) m step list s =
      (if min_label (?S ! s) = REREX_SPLIT then
         (case enter_state fuel m1 step list (next1 (?S ! s)) of
            Done m2 \<Rightarrow> enter_state fuel m2 step list (next2 (?S ! s))
          | OutOfBounds \<Rightarrow> OutOfBounds | Exhausted \<Rightarrow> Exhausted)
       else
         (let l = get_active m1 list
          in if \<not> n_indices l < length (indices l) then OutOfBounds
             else Done (set_active m1 list
                    (l\<lparr>indices := (indices l)[n_indices l := s],
                       n_indices := n_indices l + 1\<rparr>))))"
      using s0 un sn len by (simp add: m1_def Let_def)
    show ?thesis
    proof (cases "is_split (?S ! s)")
      case True
      note nx = arena_ok_next [OF ok sn]
      have sub1: "set (contents (get_active m1 list)) \<subseteq> marked m1 step"
        using sub by (auto simp: ga1 mk1)
      from Suc.IH [OF mf1 _ sub1 _ cd1, of "next1 (?S ! s)"] lo nx
      obtain m2 new1 where
        e1: "enter_state fuel m1 step list (next1 (?S ! s)) = Done m2" and mf2: "matcher_for re m2"
        and o2: "get_active m2 (\<not> list) = get_active m1 (\<not> list)"
        and lo2: "list_ok ?n (get_active m2 list)"
        and c2: "contents (get_active m2 list) = contents (get_active m1 list) @ new1"
        and n2: "set new1 = {q \<in> marked m2 step - marked m1 step. \<not> is_split (?S ! q)}"
        and mo2: "marked m1 step \<subseteq> marked m2 step"
        and cl2: "marked m2 step - marked m1 step \<subseteq> eps_closure ?S (next1 (?S ! s))"
        and sp2: "\<forall>q\<in>marked m2 step - marked m1 step. is_split (?S ! q) \<longrightarrow>
           (next1 (?S ! q) = 0 \<or> next1 (?S ! q) \<in> marked m2 step) \<and>
           (next2 (?S ! q) = 0 \<or> next2 (?S ! q) \<in> marked m2 step)"
        and in2: "next1 (?S ! s) \<noteq> 0 \<longrightarrow> next1 (?S ! s) \<in> marked m2 step"
        and la2: "\<forall>q<?n. last_active m2 ! q = last_active m1 ! q \<or> last_active m2 ! q = step"
        by (auto simp: ga1)
      have sub2: "set (contents (get_active m2 list)) \<subseteq> marked m2 step"
        using c2 n2 sub1 mo2 by auto
      have cd2: "card ({q. q < ?n} - marked m2 step) < fuel"
      proof -
        have "card ({q. q < ?n} - marked m2 step) \<le> card ({q. q < ?n} - marked m1 step)"
          by (rule card_mono) (use mo2 in auto)
        with cd1 show ?thesis by simp
      qed
      from Suc.IH [OF mf2 lo2 sub2 _ cd2, of "next2 (?S ! s)"] nx
      obtain m3 new2 where
        e2: "enter_state fuel m2 step list (next2 (?S ! s)) = Done m3" and mf3: "matcher_for re m3"
        and o3: "get_active m3 (\<not> list) = get_active m2 (\<not> list)"
        and lo3: "list_ok ?n (get_active m3 list)"
        and c3: "contents (get_active m3 list) = contents (get_active m2 list) @ new2"
        and n3: "set new2 = {q \<in> marked m3 step - marked m2 step. \<not> is_split (?S ! q)}"
        and mo3: "marked m2 step \<subseteq> marked m3 step"
        and cl3: "marked m3 step - marked m2 step \<subseteq> eps_closure ?S (next2 (?S ! s))"
        and sp3: "\<forall>q\<in>marked m3 step - marked m2 step. is_split (?S ! q) \<longrightarrow>
           (next1 (?S ! q) = 0 \<or> next1 (?S ! q) \<in> marked m3 step) \<and>
           (next2 (?S ! q) = 0 \<or> next2 (?S ! q) \<in> marked m3 step)"
        and in3: "next2 (?S ! s) \<noteq> 0 \<longrightarrow> next2 (?S ! s) \<in> marked m3 step"
        and la3: "\<forall>q<?n. last_active m3 ! q = last_active m2 ! q \<or> last_active m3 ! q = step"
        by auto
      have res: "enter_state (Suc fuel) m step list s = Done m3"
        unfolding unfold using True e1 e2 by (simp add: is_split_def del: enter_state.simps)
      note ec = eps_closure_next [OF sn True s0]
      have M: "marked m3 step - marked m step = insert s ((marked m2 step - marked m1 step) \<union>
          (marked m3 step - marked m2 step))"
        using mk1 mo2 mo3 snm by auto
      have new: "set (new1 @ new2) = {q \<in> marked m3 step - marked m step. \<not> is_split (?S ! q)}"
        unfolding M using n2 n3 True by auto
      have cl: "marked m3 step - marked m step \<subseteq> eps_closure ?S s"
        unfolding M using cl2 cl3 ec eps_closure_self [OF s0, of ?S] by auto
      have sp: "\<forall>q\<in>marked m3 step - marked m step. is_split (?S ! q) \<longrightarrow>
           (next1 (?S ! q) = 0 \<or> next1 (?S ! q) \<in> marked m3 step) \<and>
           (next2 (?S ! q) = 0 \<or> next2 (?S ! q) \<in> marked m3 step)"
        unfolding M using sp2 sp3 in2 in3 mo3 by auto
      have la: "\<forall>q<?n. last_active m3 ! q = last_active m ! q \<or> last_active m3 ! q = step"
        using la1 la2 la3 by metis
      have mo: "marked m step \<subseteq> marked m3 step" "s \<in> marked m3 step"
        using mk1 mo2 mo3 by auto
      have un3: "marked m3 step - marked m step \<union> marked m step = marked m3 step"
        using mo by auto
      show ?thesis
      proof (intro exI [of _ m3] exI [of _ "new1 @ new2"] conjI)
        show "enter_state (Suc fuel) m step list s = Done m3" by (rule res)
        show "matcher_for re m3" by (rule mf3)
        show "get_active m3 (\<not> list) = get_active m (\<not> list)" using o3 o2 by (simp add: ga1)
        show "list_ok ?n (get_active m3 list)" by (rule lo3)
        show "contents (get_active m3 list) = contents (get_active m list) @ new1 @ new2"
          using c3 c2 by (simp add: ga1)
        show "set (new1 @ new2) = {q \<in> marked m3 step - marked m step. \<not> is_split (?S ! q)}"
          by (rule new)
        show "marked m step \<subseteq> marked m3 step" by (rule mo(1))
        show "s \<noteq> 0 \<longrightarrow> s \<in> marked m3 step" using mo(2) by simp
        show "marked m3 step - marked m step \<subseteq> eps_closure ?S s" by (rule cl)
        show "\<forall>q\<in>marked m3 step - marked m step. is_split (?S ! q) \<longrightarrow>
           (next1 (?S ! q) = 0 \<or> next1 (?S ! q) \<in> marked m3 step) \<and>
           (next2 (?S ! q) = 0 \<or> next2 (?S ! q) \<in> marked m3 step)" by (rule sp)
        show "\<forall>q<?n. last_active m3 ! q = last_active m ! q \<or> last_active m3 ! q = step"
          by (rule la)
      qed
    next
      case False
      let ?l = "get_active m list"
      let ?l' = "?l\<lparr>indices := (indices ?l)[n_indices ?l := s], n_indices := n_indices ?l + 1\<rparr>"
      have room: "n_indices ?l < ?n"
        by (rule list_ok_room [OF lo sub marked_bound [OF mf] sn snm])
      have li: "length (indices ?l) = ?n" by (rule matcher_for_get_active [OF mf])
      have res: "enter_state (Suc fuel) m step list s = Done (set_active m1 list ?l')"
        unfolding unfold using False room li
        by (simp add: is_split_def ga1 Let_def del: enter_state.simps)
      let ?m' = "set_active m1 list ?l'"
      have c: "contents ?l' = contents ?l @ [s]"
        by (rule contents_append) (simp add: room li)
      have sc: "s \<notin> set (contents ?l)" using sub snm by auto
      have lo': "list_ok ?n ?l'"
        using lo c sc sn room li by (auto simp: list_ok_def)
      have mf': "matcher_for re ?m'"
        by (rule matcher_for_set_active [OF mf1]) (simp add: li)
      have mk': "marked ?m' step = insert s (marked m step)" by (simp add: mk1)
      have la': "\<forall>q<?n. last_active ?m' ! q = last_active m ! q \<or> last_active ?m' ! q = step"
        using la1 by simp
      have D: "marked ?m' step - marked m step = {s}" using mk' snm by auto
      have un3: "marked ?m' step - marked m step \<union> marked m step = marked ?m' step"
        using mk' by auto
      show ?thesis
      proof (intro exI [of _ ?m'] exI [of _ "[s]"] conjI)
        show "enter_state (Suc fuel) m step list s = Done ?m'" by (rule res)
        show "matcher_for re ?m'" by (rule mf')
        show "get_active ?m' (\<not> list) = get_active m (\<not> list)" by (simp add: ga1)
        show "list_ok ?n (get_active ?m' list)" using lo' by simp
        show "contents (get_active ?m' list) = contents (get_active m list) @ [s]"
          using c by simp
        show "set [s] = {q \<in> marked ?m' step - marked m step. \<not> is_split (?S ! q)}"
          unfolding D using False by auto
        show "marked m step \<subseteq> marked ?m' step" unfolding mk' by auto
        show "s \<noteq> 0 \<longrightarrow> s \<in> marked ?m' step" unfolding mk' by simp
        show "marked ?m' step - marked m step \<subseteq> eps_closure ?S s"
          unfolding D using eps_closure_self [OF s0, of ?S] by simp
        show "\<forall>q\<in>marked ?m' step - marked m step. is_split (?S ! q) \<longrightarrow>
           (next1 (?S ! q) = 0 \<or> next1 (?S ! q) \<in> marked ?m' step) \<and>
           (next2 (?S ! q) = 0 \<or> next2 (?S ! q) \<in> marked ?m' step)"
          unfolding D using False by simp
        show "\<forall>q<?n. last_active ?m' ! q = last_active m ! q \<or> last_active ?m' ! q = step"
          by (rule la')
      qed
    qed
  qed
qed

section \<open>The matcher: one step\<close>

lemma eps_path_closed:
  assumes "path S p w q" "w = []" "p \<in> Y" "eps_closed S Y"
  shows "q \<in> Y"
  using assms
proof (induction rule: path.induct)
  case (path_refl p)
  then show ?case by simp
next
  case (path_step p x r w q)
  from path_step.prems(1) have x: "x = []" "w = []" by simp_all
  with path_step.hyps(1) have "is_split (S ! p)" "r = next1 (S ! p) \<or> r = next2 (S ! p)" "r \<noteq> 0"
    by (auto simp: arc_def split: if_splits)
  with path_step.prems(2,3) have "r \<in> Y" by (auto simp: eps_closed_def)
  from path_step.IH [OF x(2) this path_step.prems(3)] show ?case .
qed

lemma eps_closure_closed: "s \<in> Y \<or> s = 0 \<Longrightarrow> eps_closed S Y \<Longrightarrow> eps_closure S s \<subseteq> Y"
  using eps_path_closed [of S s "[]" _ Y] by (auto simp: eps_closure_def)

lemma path_bound:
  assumes "arena_ok S" "path S p w q" "p < length S"
  shows "q < length S"
  using assms(2,3)
proof (induction rule: path.induct)
  case (path_refl p)
  then show ?case .
next
  case (path_step p x r w q)
  from path_step.hyps(1) arena_ok_next [OF assms(1), of p] have "r < length S"
    by (auto simp: arc_def split: if_splits)
  then show ?case by (rule path_step.IH)
qed

lemma enter_filled:
  assumes ok: "arena_ok (states re)" and f: "filled re m step list X"
    and s: "s < length (states re)"
  shows "\<exists>m'. enter_state (enter_fuel m) m step list s = Done m' \<and>
     filled re m' step list (X \<union> eps_closure (states re) s) \<and>
     get_active m' (\<not> list) = get_active m (\<not> list) \<and>
     (\<forall>q<length (states re). last_active m' ! q = last_active m ! q \<or> last_active m' ! q = step)"
proof -
  let ?S = "states re" and ?n = "length (states re)"
  from f have mf: "matcher_for re m" and lo: "list_ok ?n (get_active m list)"
    and mk: "marked m step = X" and cl: "eps_closed ?S X"
    and co: "set (contents (get_active m list)) = {q \<in> X. \<not> is_split (?S ! q)}"
    by (simp_all add: filled_def)
  have fu: "enter_fuel m = Suc ?n" using mf by (simp add: enter_fuel_def matcher_for_def)
  have "card ({q. q < ?n} - marked m step) \<le> card {q. q < ?n}"
    by (rule card_mono) auto
  then have cd: "card ({q. q < ?n} - marked m step) < Suc ?n" by simp
  have sub: "set (contents (get_active m list)) \<subseteq> marked m step" using co mk by auto
  from enter_state_spec [OF ok mf lo sub s cd] obtain m' new where
    e: "enter_state (Suc ?n) m step list s = Done m'" and mf': "matcher_for re m'"
    and o: "get_active m' (\<not> list) = get_active m (\<not> list)"
    and lo': "list_ok ?n (get_active m' list)"
    and c: "contents (get_active m' list) = contents (get_active m list) @ new"
    and n: "set new = {q \<in> marked m' step - marked m step. \<not> is_split (?S ! q)}"
    and mo: "marked m step \<subseteq> marked m' step" and si: "s \<noteq> 0 \<longrightarrow> s \<in> marked m' step"
    and ec: "marked m' step - marked m step \<subseteq> eps_closure ?S s"
    and sp: "\<forall>q\<in>marked m' step - marked m step. is_split (?S ! q) \<longrightarrow>
           (next1 (?S ! q) = 0 \<or> next1 (?S ! q) \<in> marked m' step) \<and>
           (next2 (?S ! q) = 0 \<or> next2 (?S ! q) \<in> marked m' step)"
    and la: "\<forall>q<?n. last_active m' ! q = last_active m ! q \<or> last_active m' ! q = step"
    by blast
  have cl': "eps_closed ?S (marked m' step)"
    unfolding eps_closed_def
  proof (intro ballI impI)
    fix q assume q: "q \<in> marked m' step" "is_split (?S ! q)"
    show "(next1 (?S ! q) = 0 \<or> next1 (?S ! q) \<in> marked m' step) \<and>
          (next2 (?S ! q) = 0 \<or> next2 (?S ! q) \<in> marked m' step)"
    proof (cases "q \<in> marked m step")
      case True
      with cl mk q(2) mo show ?thesis by (auto simp: eps_closed_def)
    next
      case False
      with sp q show ?thesis by simp
    qed
  qed
  have "eps_closure ?S s \<subseteq> marked m' step"
    by (rule eps_closure_closed [OF _ cl']) (use si in auto)
  with mo ec mk have M: "marked m' step = X \<union> eps_closure ?S s" by auto
  have "set (contents (get_active m' list)) = {q \<in> marked m' step. \<not> is_split (?S ! q)}"
    unfolding c using co n mo mk by auto
  with mf' lo' cl' M have "filled re m' step list (X \<union> eps_closure ?S s)"
    by (simp add: filled_def)
  with e o la fu show ?thesis by auto
qed

lemma tick_state_filled:
  assumes ok: "arena_ok (states re)" and f: "filled re m step (\<not> phase) X"
    and cur: "list_ok (length (states re)) (get_active m phase)"
    and j: "j < n_indices (get_active m phase)"
  shows "\<exists>m'. tick_state (enter_fuel m) m c step phase j = Done m' \<and>
     filled re m' step (\<not> phase)
       (X \<union> (if accepts_byte (states re ! (indices (get_active m phase) ! j)) c
             then eps_closure (states re) (next1 (states re ! (indices (get_active m phase) ! j)))
             else {})) \<and>
     get_active m' phase = get_active m phase \<and>
     (\<forall>q<length (states re). last_active m' ! q = last_active m ! q \<or> last_active m' ! q = step)"
proof -
  let ?S = "states re" and ?n = "length (states re)"
  let ?l = "get_active m phase"
  let ?i = "indices ?l ! j"
  from f have mf: "matcher_for re m" by (simp add: filled_def)
  then have re: "regexp m = re" by (simp add: matcher_for_def)
  from cur j have jl: "j < length (indices ?l)" by (simp add: list_ok_def)
  have "?i \<in> set (contents ?l)"
    using j jl by (auto simp: contents_def in_set_conv_nth intro!: exI [of _ j])
  with cur have il: "?i < ?n" by (simp add: list_ok_def)
  show ?thesis
  proof (cases "accepts_byte (?S ! ?i) c")
    case True
    from arena_ok_next [OF ok il] have "next1 (?S ! ?i) < ?n" by simp
    from enter_filled [OF ok f this] obtain m' where
      "enter_state (enter_fuel m) m step (\<not> phase) (next1 (?S ! ?i)) = Done m'"
      "filled re m' step (\<not> phase) (X \<union> eps_closure ?S (next1 (?S ! ?i)))"
      "get_active m' (\<not> \<not> phase) = get_active m (\<not> \<not> phase)"
      "\<forall>q<?n. last_active m' ! q = last_active m ! q \<or> last_active m' ! q = step"
      by blast
    with True jl il re show ?thesis
      by (auto simp: tick_state_def Let_def accepts_byte_def)
  next
    case False
    with jl il re have "tick_state (enter_fuel m) m c step phase j = Done m"
      by (auto simp: tick_state_def Let_def accepts_byte_def)
    with False f show ?thesis by auto
  qed
qed

lemma enter_fuel_eq: "matcher_for re m \<Longrightarrow> enter_fuel m = Suc (length (states re))"
  by (simp add: enter_fuel_def matcher_for_def)

lemma tick_loop_filled:
  assumes ok: "arena_ok (states re)"
  shows "filled re m step (\<not> phase) X \<Longrightarrow> list_ok (length (states re)) (get_active m phase) \<Longrightarrow>
     \<forall>j\<in>set js. j < n_indices (get_active m phase) \<Longrightarrow>
     \<exists>m'. tick_loop (Suc (length (states re))) m c step phase js = Done m' \<and>
       filled re m' step (\<not> phase)
         (X \<union> (\<Union>j\<in>set js.
            if accepts_byte (states re ! (indices (get_active m phase) ! j)) c
            then eps_closure (states re) (next1 (states re ! (indices (get_active m phase) ! j)))
            else {})) \<and>
       get_active m' phase = get_active m phase \<and>
       (\<forall>q<length (states re). last_active m' ! q = last_active m ! q \<or> last_active m' ! q = step)"
proof (induction js arbitrary: m X)
  case Nil
  then show ?case by auto
next
  case (Cons j js)
  let ?S = "states re" and ?n = "length (states re)"
  let ?E = "\<lambda>j. if accepts_byte (?S ! (indices (get_active m phase) ! j)) c
            then eps_closure ?S (next1 (?S ! (indices (get_active m phase) ! j))) else {}"
  from Cons.prems(1) have mf: "matcher_for re m" by (simp add: filled_def)
  from tick_state_filled [OF ok Cons.prems(1,2), of j c] Cons.prems(3) enter_fuel_eq [OF mf]
  obtain m1 where t: "tick_state (Suc ?n) m c step phase j = Done m1"
    and f1: "filled re m1 step (\<not> phase) (X \<union> ?E j)"
    and g1: "get_active m1 phase = get_active m phase"
    and l1: "\<forall>q<?n. last_active m1 ! q = last_active m ! q \<or> last_active m1 ! q = step"
    by auto
  from Cons.IH [OF f1, unfolded g1, OF Cons.prems(2)] Cons.prems(3)
  obtain m' where t': "tick_loop (Suc ?n) m1 c step phase js = Done m'"
    and f': "filled re m' step (\<not> phase) (X \<union> ?E j \<union> (\<Union>j\<in>set js. ?E j))"
    and g': "get_active m' phase = get_active m phase"
    and l': "\<forall>q<?n. last_active m' ! q = last_active m1 ! q \<or> last_active m' ! q = step"
    by auto
  have "X \<union> ?E j \<union> (\<Union>j\<in>set js. ?E j) = X \<union> (\<Union>j\<in>set (j # js). ?E j)" by auto
  with f' have "filled re m' step (\<not> phase) (X \<union> (\<Union>j\<in>set (j # js). ?E j))" by simp
  moreover have "tick_loop (Suc ?n) m c step phase (j # js) = Done m'" using t t' by simp
  moreover have "\<forall>q<?n. last_active m' ! q = last_active m ! q \<or> last_active m' ! q = step"
    using l1 l' by metis
  ultimately show ?case using g' by blast
qed

section \<open>The matcher: reading the string\<close>

lemma arc_label: "arc S p x q \<Longrightarrow> x = [] \<or> (\<exists>c. x = [c])"
  by (auto simp: arc_def split: if_splits)

lemma path_snoc:
  "path S s w q \<Longrightarrow> w = u @ [c] \<Longrightarrow>
   \<exists>p r. path S s u p \<and> arc S p [c] r \<and> path S r [] q"
proof (induction arbitrary: u rule: path.induct)
  case (path_refl p)
  then show ?case by simp
next
  case (path_step p x r w q)
  from arc_label [OF path_step.hyps(1)] show ?case
  proof
    assume x: "x = []"
    with path_step.prems have "w = u @ [c]" by simp
    from path_step.IH [OF this] obtain p' r' where
      "path S r u p'" "arc S p' [c] r'" "path S r' [] q" by blast
    moreover from path.path_step [OF path_step.hyps(1) \<open>path S r u p'\<close>] x
    have "path S p u p'" by simp
    ultimately show ?thesis by blast
  next
    assume "\<exists>d. x = [d]"
    then obtain d where x: "x = [d]" ..
    show ?thesis
    proof (cases u)
      case Nil
      with path_step.prems x have "d = c" "w = []" by simp_all
      with path_step.hyps x have "arc S p [c] r" "path S r [] q" by simp_all
      with Nil path.path_refl [of S p] show ?thesis by blast
    next
      case (Cons d' u')
      with path_step.prems x have "d' = d" "w = u' @ [c]" by simp_all
      from path_step.IH [OF this(2)] obtain p' r' where
        *: "path S r u' p'" "arc S p' [c] r'" "path S r' [] q" by blast
      from path.path_step [OF path_step.hyps(1) *(1)] x Cons \<open>d' = d\<close>
      have "path S p u p'" by simp
      with * show ?thesis by blast
    qed
  qed
qed

lemma reached_step:
  assumes "arena_ok S" "s < length S"
  shows "reached S s (u @ [c]) =
     {q. \<not> is_split (S ! q) \<and>
         (\<exists>p\<in>reached S s u. accepts_byte (S ! p) c \<and> q \<in> eps_closure S (next1 (S ! p)))}"
    (is "?L = ?R")
proof (intro set_eqI iffI)
  fix q assume "q \<in> ?L"
  then have s0: "s \<noteq> 0" and pa: "path S s (u @ [c]) q" and ns: "\<not> is_split (S ! q)"
    by (simp_all add: reached_def)
  from path_snoc [OF pa refl] obtain p r where
    1: "path S s u p" and 2: "arc S p [c] r" and 3: "path S r [] q" by blast
  from 2 have a: "\<not> is_split (S ! p)" "accepts_byte (S ! p) c" "r = next1 (S ! p)" "r \<noteq> 0"
    by (auto simp: arc_def split: if_splits)
  with 1 s0 have "p \<in> reached S s u" by (simp add: reached_def)
  moreover from 3 a have "q \<in> eps_closure S (next1 (S ! p))" by (simp add: eps_closure_def)
  ultimately show "q \<in> ?R" using ns a by blast
next
  fix q assume "q \<in> ?R"
  then obtain p where ns: "\<not> is_split (S ! q)" and p: "p \<in> reached S s u"
    and ac: "accepts_byte (S ! p) c" and q: "q \<in> eps_closure S (next1 (S ! p))"
    by blast
  from p have s0: "s \<noteq> 0" and 1: "path S s u p" and np: "\<not> is_split (S ! p)"
    by (simp_all add: reached_def)
  from path_bound [OF assms(1) 1 assms(2)] have pl: "p < length S" .
  from q have r0: "next1 (S ! p) \<noteq> 0" and 3: "path S (next1 (S ! p)) [] q"
    by (simp_all add: eps_closure_def)
  have "arc S p [c] (next1 (S ! p))" using pl r0 np ac by (simp add: arc_def)
  from path_append [OF 1 path_append [OF path_arc [OF this] 3]]
  have "path S s (u @ [c]) q" by simp
  with s0 ns show "q \<in> ?L" by (simp add: reached_def)
qed

lemma reached_Nil: "reached S s [] = {q \<in> eps_closure S s. \<not> is_split (S ! q)}"
  by (auto simp: reached_def eps_closure_def)

lemma contents_nth:
  assumes "n_indices l \<le> length (indices l)"
  shows "set (contents l) = (\<lambda>j. indices l ! j) ` {0..<n_indices l}"
proof -
  have "contents l = map (\<lambda>j. indices l ! j) [0..<n_indices l]"
    unfolding contents_def using assms by (simp add: list_eq_iff_nth_eq)
  then show ?thesis by simp
qed

lemma list_ok_empty: "list_ok n (l\<lparr>n_indices := 0\<rparr>)"
  by (simp add: list_ok_def contents_def)

lemma contents_empty [simp]: "contents (l\<lparr>n_indices := 0\<rparr>) = []"
  by (simp add: contents_def)

lemma eps_closed_empty [simp]: "eps_closed S {}"
  by (simp add: eps_closed_def)

text \<open>
  The outer loop. After the bytes \<open>u\<close> the current list holds the states, other than
  split states, that are reached from the start state on \<open>u\<close>; the marks are step
  numbers not above the current one, or the sentinel.
\<close>

lemma match_loop_spec:
  assumes ok: "arena_ok (states re)" and st: "start re < length (states re)"
  shows "matcher_for re m \<Longrightarrow> list_ok (length (states re)) (get_active m phase) \<Longrightarrow>
     list_ok (length (states re)) (get_active m (\<not> phase)) \<Longrightarrow>
     set (contents (get_active m phase)) = reached (states re) (start re) u \<Longrightarrow>
     \<forall>q<length (states re). last_active m ! q \<le> i \<or> last_active m ! q = SIZE_MAX \<Longrightarrow>
     i + length cs < SIZE_MAX \<Longrightarrow>
     \<exists>m' ph. match_loop m phase i cs = Done (m', ph) \<and> matcher_for re m' \<and>
        list_ok (length (states re)) (get_active m' ph) \<and>
        list_ok (length (states re)) (get_active m' (\<not> ph)) \<and>
        set (contents (get_active m' ph)) =
          reached (states re) (start re) (u @ takeWhile (\<lambda>c. c \<noteq> CHR 0x00) cs)"
proof (induction cs arbitrary: m phase i u)
  case Nil
  then show ?case by auto
next
  case (Cons c cs)
  let ?S = "states re" and ?n = "length (states re)"
  note mf = Cons.prems(1) and cur = Cons.prems(2) and oth = Cons.prems(3)
    and co = Cons.prems(4) and la = Cons.prems(5) and len = Cons.prems(6)
  show ?case
  proof (cases "c = CHR 0x00")
    case True
    with Cons.prems show ?thesis by auto
  next
    case False
    define m1 where "m1 = set_active m (\<not> phase) ((get_active m (\<not> phase))\<lparr>n_indices := 0\<rparr>)"
    have mf1: "matcher_for re m1"
      unfolding m1_def by (rule matcher_for_set_active [OF mf])
        (simp add: matcher_for_get_active [OF mf])
    have g1: "get_active m1 phase = get_active m phase"
      by (simp add: m1_def)
    have t1: "get_active m1 (\<not> phase) = (get_active m (\<not> phase))\<lparr>n_indices := 0\<rparr>"
      by (simp add: m1_def)
    have la1: "last_active m1 = last_active m" by (simp add: m1_def)
    have len1: "length (last_active m) = ?n" using mf by (simp add: matcher_for_def)
    have "marked m1 (i + 1) = {}"
    proof -
      have "last_active m ! q \<noteq> i + 1" if "q < ?n" for q
        using la [rule_format, OF that] len by auto
      then show ?thesis by (auto simp: marked_def la1 len1)
    qed
    then have f1: "filled re m1 (i + 1) (\<not> phase) {}"
      using mf1 by (simp add: filled_def t1 list_ok_empty)
    have cur1: "list_ok ?n (get_active m1 phase)" using cur by (simp add: g1)
    let ?js = "[0..<n_indices (get_active m1 phase)]"
    let ?E = "\<lambda>j. if accepts_byte (?S ! (indices (get_active m1 phase) ! j)) c
            then eps_closure ?S (next1 (?S ! (indices (get_active m1 phase) ! j))) else {}"
    from tick_loop_filled [OF ok f1 cur1, of ?js c]
    obtain m2 where t: "tick_loop (Suc ?n) m1 c (i + 1) phase ?js = Done m2"
      and f2: "filled re m2 (i + 1) (\<not> phase) ({} \<union> (\<Union>j\<in>set ?js. ?E j))"
      and g2: "get_active m2 phase = get_active m1 phase"
      and l2: "\<forall>q<?n. last_active m2 ! q = last_active m1 ! q \<or> last_active m2 ! q = i + 1"
      by auto
    from f2 have mf2: "matcher_for re m2" and lo2: "list_ok ?n (get_active m2 (\<not> phase))"
      and c2: "set (contents (get_active m2 (\<not> phase))) =
          {q \<in> (\<Union>j\<in>set ?js. ?E j). \<not> is_split (?S ! q)}"
      by (simp_all add: filled_def)
    have nl: "n_indices (get_active m phase) \<le> length (indices (get_active m phase))"
      using cur by (simp add: list_ok_def)
    have "set (contents (get_active m2 (\<not> phase))) = reached ?S (start re) (u @ [c])"
      unfolding c2 reached_step [OF ok st] co [symmetric] contents_nth [OF nl] g1
      by auto
    moreover have "list_ok ?n (get_active m2 (\<not> \<not> phase))"
      using cur g1 g2 by simp
    moreover have "\<forall>q<?n. last_active m2 ! q \<le> i + 1 \<or> last_active m2 ! q = SIZE_MAX"
    proof (intro allI impI)
      fix q assume "q < ?n"
      with l2 la la1 show "last_active m2 ! q \<le> i + 1 \<or> last_active m2 ! q = SIZE_MAX"
        by (metis le_add1 le_trans order_refl)
    qed
    moreover have "i + 1 + length cs < SIZE_MAX" using len by simp
    ultimately obtain m' ph where
      r: "match_loop m2 (\<not> phase) (i + 1) cs = Done (m', ph)" "matcher_for re m'"
        "list_ok ?n (get_active m' ph)" "list_ok ?n (get_active m' (\<not> ph))"
        "set (contents (get_active m' ph)) =
          reached ?S (start re) ((u @ [c]) @ takeWhile (\<lambda>c. c \<noteq> CHR 0x00) cs)"
      using Cons.IH [OF mf2 lo2, of "u @ [c]" "i + 1"] by blast
    have fu: "enter_fuel m1 = Suc ?n" by (rule enter_fuel_eq [OF mf1])
    have "match_loop m phase i (c # cs) = Done (m', ph)"
      using False t r(1) by (simp add: fu flip: m1_def)
    with r False show ?thesis by auto
  qed
qed

lemma find_match_spec:
  assumes "list_ok n l" "length (states (regexp m)) = n" "\<forall>i\<in>set is. i < n_indices l"
  shows "find_match m l is =
     Done (\<exists>i\<in>set is. is_match (states (regexp m) ! (indices l ! i)))"
  using assms(3)
proof (induction "is")
  case Nil
  show ?case by simp
next
  case (Cons i "is")
  from assms(1) Cons.prems have il: "i < length (indices l)" by (simp add: list_ok_def)
  have "indices l ! i \<in> set (contents l)"
    using Cons.prems il by (auto simp: contents_def in_set_conv_nth intro!: exI [of _ i])
  with assms(1,2) have "indices l ! i < length (states (regexp m))" by (simp add: list_ok_def)
  with il Cons show ?case by (auto simp: is_match_def)
qed

lemma reset_matcher_spec:
  assumes "matcher_for re m"
  shows "\<exists>m0. reset_matcher m = Done m0 \<and> matcher_for re m0 \<and>
     n_indices (active0 m0) = 0 \<and> n_indices (active1 m0) = 0 \<and>
     last_active m0 = replicate (length (states re)) SIZE_MAX"
  using assms by (simp add: reset_matcher_def matcher_for_def Let_def)

lemma SIZE_MAX_pos: "0 < SIZE_MAX"
  by (simp add: SIZE_MAX_def)

text \<open>
  \<open>rerex_match\<close> returns, with the answer whether the automaton accepts the string
  up to its terminator, and leaves a matcher that can be used again.
\<close>

lemma rerex_match_spec:
  assumes ok: "arena_ok (states re)" and st: "start re < length (states re)"
    and mf: "matcher_for re m" and len: "length s < SIZE_MAX"
  shows "\<exists>m'. rerex_match m s =
       Done (accepts (states re) (start re) (takeWhile (\<lambda>c. c \<noteq> CHR 0x00) s), m') \<and>
     matcher_for re m' \<and> list_ok (length (states re)) (active0 m') \<and>
     list_ok (length (states re)) (active1 m')"
proof -
  let ?S = "states re" and ?n = "length (states re)"
  let ?w = "takeWhile (\<lambda>c. c \<noteq> CHR 0x00) s"
  from reset_matcher_spec [OF mf] obtain m0 where
    r: "reset_matcher m = Done m0" and mf0: "matcher_for re m0"
    and z: "n_indices (active0 m0) = 0" "n_indices (active1 m0) = 0"
    and la0: "last_active m0 = replicate ?n SIZE_MAX"
    by blast
  have lo0: "list_ok ?n (get_active m0 ph)" for ph
    using z by (simp add: list_ok_def get_active_def contents_def)
  have "marked m0 0 = {}" using SIZE_MAX_pos by (auto simp: marked_def la0)
  then have f0: "filled re m0 0 False {}"
    using mf0 lo0 [of False] z by (simp add: filled_def get_active_def contents_def)
  from enter_filled [OF ok f0 st] obtain m1 where
    e: "enter_state (enter_fuel m0) m0 0 False (start re) = Done m1"
    and f1: "filled re m1 0 False ({} \<union> eps_closure ?S (start re))"
    and o1: "get_active m1 (\<not> False) = get_active m0 (\<not> False)"
    and l1: "\<forall>q<?n. last_active m1 ! q = last_active m0 ! q \<or> last_active m1 ! q = 0"
    by blast
  from f1 have mf1: "matcher_for re m1" and lo1: "list_ok ?n (get_active m1 False)"
    and c1: "set (contents (get_active m1 False)) = reached ?S (start re) []"
    by (simp_all add: filled_def reached_Nil)
  have lo1': "list_ok ?n (get_active m1 (\<not> False))" using o1 lo0 by simp
  have la1: "\<forall>q<?n. last_active m1 ! q \<le> 0 \<or> last_active m1 ! q = SIZE_MAX"
    using l1 la0 by auto
  from match_loop_spec [OF ok st mf1 lo1 lo1' c1 la1, of s] len
  obtain m2 ph where ml: "match_loop m1 False 0 s = Done (m2, ph)" and mf2: "matcher_for re m2"
    and lo2: "list_ok ?n (get_active m2 ph)" "list_ok ?n (get_active m2 (\<not> ph))"
    and c2: "set (contents (get_active m2 ph)) = reached ?S (start re) ?w"
    by auto
  have re2: "regexp m2 = re" using mf2 by (simp add: matcher_for_def)
  let ?l = "get_active m2 ph"
  have nl: "n_indices ?l \<le> length (indices ?l)" using lo2(1) by (simp add: list_ok_def)
  have fm: "find_match m2 ?l [0..<n_indices ?l] =
      Done (\<exists>i\<in>set [0..<n_indices ?l]. is_match (states (regexp m2) ! (indices ?l ! i)))"
    by (rule find_match_spec [OF lo2(1)]) (simp_all add: re2)
  have "(\<exists>i\<in>set [0..<n_indices ?l]. is_match (states (regexp m2) ! (indices ?l ! i))) \<longleftrightarrow>
      (\<exists>q\<in>set (contents ?l). is_match (?S ! q))"
    unfolding contents_nth [OF nl] re2 by auto
  also have "\<dots> \<longleftrightarrow> accepts ?S (start re) ?w"
  proof
    assume "\<exists>q\<in>set (contents ?l). is_match (?S ! q)"
    then obtain q where q: "q \<in> reached ?S (start re) ?w" "is_match (?S ! q)"
      unfolding c2 by blast
    then have "start re \<noteq> 0" "path ?S (start re) ?w q" by (simp_all add: reached_def)
    moreover from path_bound [OF ok this(2) st] have "q < ?n" .
    ultimately show "accepts ?S (start re) ?w" using q(2) by (auto simp: accepts_def)
  next
    assume "accepts ?S (start re) ?w"
    then obtain q where "start re \<noteq> 0" "path ?S (start re) ?w q" "is_match (?S ! q)"
      by (auto simp: accepts_def)
    moreover from this(3) have "\<not> is_split (?S ! q)" by (simp add: is_match_def is_split_def)
    ultimately have "q \<in> reached ?S (start re) ?w" by (simp add: reached_def)
    with \<open>is_match (?S ! q)\<close> show "\<exists>q\<in>set (contents ?l). is_match (?S ! q)"
      unfolding c2 by blast
  qed
  finally have fm': "find_match m2 ?l [0..<n_indices ?l] = Done (accepts ?S (start re) ?w)"
    using fm by simp
  have re0: "regexp m0 = re" using mf0 by (simp add: matcher_for_def)
  have "rerex_match m s = Done (accepts ?S (start re) ?w, m2)"
    using r e ml fm' by (simp add: rerex_match_def re0)
  moreover have "list_ok ?n (active0 m2)" "list_ok ?n (active1 m2)"
    using lo2 by (cases ph; simp add: get_active_def)+
  ultimately show ?thesis using mf2 by blast
qed

end
